(* ===== verification/Prelude.thy ===== *)
theory Prelude
  imports Main "HOL-Library.Word" "HOL-Library.List_Lexorder"
begin

text \<open>
  Shared vocabulary of the development: machine-integer and byte-string type names, the rule
  collections the component theories fill, generic facts about lists and words, and the
  interface \<open>prefix_codec\<close> of self-delimiting encodings, whose consequences (injectivity,
  prefix-freeness, unique decoding of concatenations) are proved once here and obtained by
  interpretation wherever the code writes length-prefixed or fixed-width records.
\<close>

unbundle bit_operations_syntax

type_synonym byte = "8 word"
type_synonym bytes = "byte list"
type_synonym u32 = "32 word"
type_synonym u64 = "64 word"

named_theorems codec_simps \<open>decoder equations on encoder output\<close>
named_theorems io_frame \<open>what a file operation leaves unchanged\<close>
named_theorems inv_intros \<open>introduction rules for component invariants\<close>

section \<open>Lists\<close>

lemma take_length_append [simp]: "take (length xs) (xs @ ys) = xs"
  by simp

lemma drop_length_append [simp]: "drop (length xs) (xs @ ys) = ys"
  by simp

lemma sorted_wrt_less_append_iff:
  fixes xs ys :: "'a::linorder list"
  shows "sorted_wrt (<) (xs @ ys) \<longleftrightarrow>
    sorted_wrt (<) xs \<and> sorted_wrt (<) ys \<and> (\<forall>x\<in>set xs. \<forall>y\<in>set ys. x < y)"
  by (simp add: sorted_wrt_append)

lemma sorted_less_hd_le:
  fixes xs :: "'a::linorder list"
  assumes "sorted_wrt (<) xs" and "x \<in> set xs"
  shows "hd xs \<le> x"
  using assms by (cases xs) (auto simp: less_imp_le)

lemma sorted_less_le_last:
  fixes xs :: "'a::linorder list"
  assumes "sorted_wrt (<) xs" and "x \<in> set xs"
  shows "x \<le> last xs"
  using assms by (induction xs) (auto simp: less_imp_le)

lemma sorted_less_distinct:
  fixes xs :: "'a::linorder list"
  shows "sorted_wrt (<) xs \<Longrightarrow> distinct xs"
  by (simp add: strict_sorted_iff)

section \<open>Options\<close>

definition the_default :: "'a \<Rightarrow> 'a option \<Rightarrow> 'a" where
  "the_default d x = (case x of None \<Rightarrow> d | Some y \<Rightarrow> y)"

lemma the_default_simps [simp]: "the_default d None = d" "the_default d (Some y) = y"
  by (simp_all add: the_default_def)

section \<open>Words\<close>

lemma unat_of_nat_bound [simp]: "n < 2 ^ LENGTH('a::len) \<Longrightarrow> unat (of_nat n :: 'a word) = n"
  by (simp add: unsigned_of_nat take_bit_nat_eq_self)

lemma xor_left_cancel_word [simp]: "a XOR b = a XOR c \<longleftrightarrow> b = (c :: 'a::len word)"
proof
  assume "a XOR b = a XOR c"
  then have "a XOR (a XOR b) = a XOR (a XOR c)" by simp
  then show "b = c" by (simp flip: xor.assoc)
qed simp

lemma xor_right_cancel_word [simp]: "b XOR a = c XOR a \<longleftrightarrow> b = (c :: 'a::len word)"
  by (simp only: xor.commute [of _ a] xor_left_cancel_word)

text \<open>The masks the code uses, bit by bit.\<close>

lemma bit_0x80 [simp]: "bit (0x80 :: int) n \<longleftrightarrow> n = 7"
  using bit_exp_iff [of 7 n, where 'a = int] by (simp add: eq_commute)

lemma bit_0x7f [simp]: "bit (0x7f :: int) n \<longleftrightarrow> n < 7"
  using bit_mask_iff [of 7 n, where 'a = int] by (simp add: mask_eq_exp_minus_1)

lemma bit_0xFF [simp]: "bit (0xFF :: int) n \<longleftrightarrow> n < 8"
  using bit_mask_iff [of 8 n, where 'a = int] by (simp add: mask_eq_exp_minus_1)

text \<open>
  The user address space of a 64-bit process: a request for this many bytes or more always ends in
  \<open>std::bad_alloc\<close>, which nothing in the engine catches.
\<close>

definition addressable :: nat where
  "addressable = 2 ^ 47"

section \<open>Self-delimiting encodings\<close>

text \<open>
  An encoder and a decoder that returns the value and the rest of its input. The one law is that
  decoding an encoding followed by anything gives the value back and leaves exactly what followed.
\<close>

locale prefix_codec =
  fixes enc :: "'a \<Rightarrow> bytes"
    and dec :: "bytes \<Rightarrow> ('a \<times> bytes) option"
    and ok :: "'a \<Rightarrow> bool"
  assumes dec_enc: "ok x \<Longrightarrow> dec (enc x @ rest) = Some (x, rest)"
begin

lemma dec_enc_nil: "ok x \<Longrightarrow> dec (enc x) = Some (x, [])"
  by (metis dec_enc append_Nil2)

lemma enc_prefix_free:
  assumes "ok x" and "ok y" and "enc x @ r = enc y @ s"
  shows "x = y \<and> r = s"
proof -
  have "Some (x, r) = dec (enc y @ s)"
    using dec_enc [OF assms(1), of r] by (simp only: assms(3))
  then show ?thesis by (simp add: dec_enc assms(2))
qed

lemma enc_inj:
  assumes "ok x" and "ok y" and "enc x = enc y"
  shows "x = y"
  using assms(3) by (auto dest: enc_prefix_free [OF assms(1,2), of "[]" "[]", simplified])

lemma concat_enc_inj:
  assumes "list_all ok xs" and "list_all ok ys" and "length xs = length ys"
    and "concat (map enc xs) @ r = concat (map enc ys) @ s"
  shows "xs = ys \<and> r = s"
  using assms
proof (induction xs arbitrary: ys)
  case Nil
  then show ?case by simp
next
  case (Cons x xs)
  then obtain y ys' where ys: "ys = y # ys'" by (cases ys) auto
  with Cons.prems have "x = y \<and> concat (map enc xs) @ r = concat (map enc ys') @ s"
    using enc_prefix_free [of x y] by simp
  with Cons ys show ?case by auto
qed

end

end
