(* ===== verification/Std_Map.thy ===== *)
theory Std_Map
  imports Prelude
begin

text \<open>
  The part of \<open>std::map\<close> the engine uses, with its documented behaviour: a container of
  key/value pairs iterated in strictly increasing key order. It is represented by that
  iteration sequence. The interface \<open>ordered_map\<close> states what a client may rely on; what
  clients need of whole loops over a map (the last write to a key wins) is proved from it.
\<close>

type_synonym ('k, 'v) std_map = "('k \<times> 'v) list"

abbreviation map_keys :: "('k, 'v) std_map \<Rightarrow> 'k list" where
  "map_keys m \<equiv> map fst m"

definition std_map_ok :: "('k::linorder, 'v) std_map \<Rightarrow> bool" where
  "std_map_ok m \<longleftrightarrow> sorted_wrt (<) (map_keys m)"

fun map_assign :: "'k::linorder \<Rightarrow> 'v \<Rightarrow> ('k, 'v) std_map \<Rightarrow> ('k, 'v) std_map" where
  "map_assign k v [] = [(k, v)]"
| "map_assign k v ((k', v') # m) =
     (if k < k' then (k, v) # (k', v') # m
      else if k = k' then (k, v) # m
      else (k', v') # map_assign k v m)"

fun map_erase :: "'k::linorder \<Rightarrow> ('k, 'v) std_map \<Rightarrow> ('k, 'v) std_map" where
  "map_erase k [] = []"
| "map_erase k ((k', v') # m) = (if k = k' then m else (k', v') # map_erase k m)"

definition map_find :: "('k, 'v) std_map \<Rightarrow> 'k \<Rightarrow> 'v option" where
  "map_find m k = map_of m k"

definition map_lower_bound :: "('k::linorder, 'v) std_map \<Rightarrow> 'k \<Rightarrow> ('k, 'v) std_map" where
  "map_lower_bound m k = dropWhile (\<lambda>(k', _). k' < k) m"

section \<open>The interface\<close>

locale ordered_map =
  fixes empty :: "'m"
    and assign :: "'k::linorder \<Rightarrow> 'v \<Rightarrow> 'm \<Rightarrow> 'm"
    and erase :: "'k \<Rightarrow> 'm \<Rightarrow> 'm"
    and find :: "'m \<Rightarrow> 'k \<Rightarrow> 'v option"
    and entries :: "'m \<Rightarrow> ('k \<times> 'v) list"
    and invar :: "'m \<Rightarrow> bool"
  assumes invar_empty: "invar empty"
    and invar_assign: "invar m \<Longrightarrow> invar (assign k v m)"
    and invar_erase: "invar m \<Longrightarrow> invar (erase k m)"
    and find_empty: "find empty k = None"
    and find_assign: "invar m \<Longrightarrow> find (assign k v m) k' = (if k' = k then Some v else find m k')"
    and find_erase: "invar m \<Longrightarrow> find (erase k m) k' = (if k' = k then None else find m k')"
    and entries_find: "invar m \<Longrightarrow> find m k = map_of (entries m) k"
    and entries_sorted: "invar m \<Longrightarrow> sorted_wrt (<) (map fst (entries m))"
begin

lemma entries_distinct: "invar m \<Longrightarrow> distinct (map fst (entries m))"
  by (intro sorted_less_distinct entries_sorted)

lemma in_entries_iff: "invar m \<Longrightarrow> (k, v) \<in> set (entries m) \<longleftrightarrow> find m k = Some v"
  by (simp add: entries_find entries_distinct)

lemma invar_fold_assign:
  "invar m \<Longrightarrow> invar (fold (\<lambda>e m. assign (f e) (g e) m) es m)"
  by (induction es arbitrary: m) (auto intro: invar_assign)

text \<open>A loop of assignments: the last assignment to a key wins, other keys keep their value.\<close>

lemma find_fold_assign:
  assumes "invar m"
  shows "find (fold (\<lambda>e m. assign (f e) (g e) m) es m) k =
    (case map_of (rev (map (\<lambda>e. (f e, g e)) es)) k of Some v \<Rightarrow> Some v | None \<Rightarrow> find m k)"
  using assms
proof (induction es arbitrary: m)
  case Nil
  then show ?case by simp
next
  case (Cons e es)
  then show ?case
    by (auto simp: invar_assign find_assign map_add_def split: option.splits)
qed

end

section \<open>The sorted sequence implements the interface\<close>

lemma set_map_assign: "set (map_keys (map_assign k v m)) = insert k (set (map_keys m))"
  by (induction k v m rule: map_assign.induct) auto

lemma set_map_erase: "set (map_keys (map_erase k m)) \<subseteq> set (map_keys m)"
  by (induction k m rule: map_erase.induct) auto

lemma std_map_ok_assign: "std_map_ok m \<Longrightarrow> std_map_ok (map_assign k v m)"
  unfolding std_map_ok_def
proof (induction k v m rule: map_assign.induct)
  case (2 k v k' v' m)
  then show ?case by (auto simp: set_map_assign simp del: set_map)
qed simp

lemma std_map_ok_erase: "std_map_ok m \<Longrightarrow> std_map_ok (map_erase k m)"
  unfolding std_map_ok_def
proof (induction k m rule: map_erase.induct)
  case (2 k k' v' m)
  then show ?case using set_map_erase [of k m] by (auto simp del: set_map)
qed simp

lemma find_map_assign: "map_of (map_assign k v m) k' = (if k' = k then Some v else map_of m k')"
  by (induction k v m rule: map_assign.induct) auto

lemma find_map_erase:
  "std_map_ok m \<Longrightarrow> map_of (map_erase k m) k' = (if k' = k then None else map_of m k')"
  unfolding std_map_ok_def
proof (induction k m rule: map_erase.induct)
  case (2 k kx vx m)
  show ?case
  proof (cases "k = kx")
    case True
    with "2.prems" have "map_of m k = None"
      by (force simp: map_of_eq_None_iff)
    with True show ?thesis by auto
  qed (use 2 in auto)
qed simp

interpretation sm: ordered_map "[]" map_assign map_erase map_find "\<lambda>m. m" std_map_ok
proof unfold_locales
  fix m :: "('a::linorder, 'b) std_map" and k k' :: 'a and v :: 'b
  show "std_map_ok ([] :: ('a, 'b) std_map)" by (simp add: std_map_ok_def)
  show "map_find [] k = (None :: 'b option)" by (simp add: map_find_def)
  show "map_find m k = map_of m k" by (simp add: map_find_def)
  show "std_map_ok m \<Longrightarrow> std_map_ok (map_assign k v m)" by (rule std_map_ok_assign)
  show "std_map_ok m \<Longrightarrow> std_map_ok (map_erase k m)" by (rule std_map_ok_erase)
  show "std_map_ok m \<Longrightarrow> map_find (map_assign k v m) k' = (if k' = k then Some v else map_find m k')"
    by (simp add: map_find_def find_map_assign)
  show "std_map_ok m \<Longrightarrow> map_find (map_erase k m) k' = (if k' = k then None else map_find m k')"
    by (simp add: map_find_def find_map_erase)
  show "std_map_ok m \<Longrightarrow> sorted_wrt (<) (map fst m)" by (simp add: std_map_ok_def)
qed

lemma std_map_ok_Nil [simp]: "std_map_ok []"
  by (rule sm.invar_empty)

lemma std_map_ok_ConsD: "std_map_ok (e # m) \<Longrightarrow> std_map_ok m"
  by (simp add: std_map_ok_def)

lemma map_lower_bound_suffix:
  "std_map_ok m \<Longrightarrow> (k', v) \<in> set (map_lower_bound m k) \<longleftrightarrow> (k', v) \<in> set m \<and> k \<le> k'"
  unfolding std_map_ok_def map_lower_bound_def
proof (induction m)
  case (Cons e m)
  then show ?case by (cases e) (auto simp: not_less dest: less_imp_le)
qed simp

end
