(* ===== verification/Slice.thy ===== *)
theory Slice
  imports Prelude
begin

text \<open>
  \<open>include/clomdb/slice.h\<close>: the three-way comparison on byte arrays and the operators derived from
  it. The other theories take a slice to be the sequence of bytes it views. The comparison is shown to be the
  lexicographic order on unsigned bytes, the order \<open>std::map\<close> keeps its keys in. The class itself, a pointer
  and a size, with its constructors, is at the end, and is shown to implement the sequences.
\<close>

text \<open>C's \<open>memcmp\<close> on the first \<open>n\<close> bytes; only the sign of its result is specified.\<close>

fun memcmp :: "bytes \<Rightarrow> bytes \<Rightarrow> nat \<Rightarrow> int" where
  "memcmp (x # xs) (y # ys) (Suc n) =
     (if x < y then -1 else if y < x then 1 else memcmp xs ys n)"
| "memcmp _ _ _ = 0"

definition slice_compare :: "bytes \<Rightarrow> bytes \<Rightarrow> int" where
  "slice_compare a b =
     (let min_len = (if length a < length b then length a else length b);
          r = memcmp a b min_len
      in if r = 0 then (if length a < length b then -1 else if length a > length b then 1 else r)
         else r)"

definition slice_starts_with :: "bytes \<Rightarrow> bytes \<Rightarrow> bool" where
  "slice_starts_with s x \<longleftrightarrow> length s \<ge> length x \<and> memcmp s x (length x) = 0"

definition slice_eq :: "bytes \<Rightarrow> bytes \<Rightarrow> bool" where
  "slice_eq a b \<longleftrightarrow> length a = length b \<and> memcmp a b (length a) = 0"

definition slice_neq :: "bytes \<Rightarrow> bytes \<Rightarrow> bool" where
  "slice_neq a b \<longleftrightarrow> \<not> slice_eq a b"

definition slice_less :: "bytes \<Rightarrow> bytes \<Rightarrow> bool" where
  "slice_less a b \<longleftrightarrow> slice_compare a b < 0"

section \<open>The comparison is the lexicographic order\<close>

lemma memcmp_cases: "memcmp a b n \<in> {-1, 0, 1}"
  by (induction a b n rule: memcmp.induct) auto

lemma memcmp_prefix: "memcmp a b n = 0 \<Longrightarrow> n \<le> length a \<Longrightarrow> n \<le> length b \<Longrightarrow> take n a = take n b"
  by (induction a b n rule: memcmp.induct) (auto split: if_splits)

lemma memcmp_same: "memcmp a a n = 0"
  by (induction n arbitrary: a) (case_tac [!] a, auto)

lemma memcmp_starts_with:
  "length x \<le> length s \<Longrightarrow> memcmp s x (length x) = 0 \<longleftrightarrow> take (length x) s = x"
  by (induction s x "length x" rule: memcmp.induct) auto

lemma slice_compare_Cons:
  "slice_compare (x # xs) (y # ys) =
    (if x < y then -1 else if y < x then 1 else slice_compare xs ys)"
  by (simp add: slice_compare_def Let_def)

lemma slice_compare_lex: "slice_compare a b = (if a < b then -1 else if a = b then 0 else 1)"
proof (induction a arbitrary: b)
  case Nil
  then show ?case by (cases b) (simp_all add: slice_compare_def)
next
  case (Cons x xs)
  show ?case
  proof (cases b)
    case Nil
    then show ?thesis by (simp add: slice_compare_def)
  next
    case (Cons y ys)
    then show ?thesis using Cons.IH [of ys] by (auto simp: slice_compare_Cons)
  qed
qed

lemma slice_less_iff [simp]: "slice_less a b \<longleftrightarrow> a < b"
  by (simp add: slice_less_def slice_compare_lex)

lemma slice_eq_iff [simp]: "slice_eq a b \<longleftrightarrow> a = b"
  using memcmp_prefix [of a b "length a"] by (auto simp: slice_eq_def memcmp_same)

lemma slice_neq_iff [simp]: "slice_neq a b \<longleftrightarrow> a \<noteq> b"
  by (simp add: slice_neq_def)

section \<open>The class\<close>

text \<open>
  The memory from the pointer on, and the size. A slice is valid when that many bytes are there; this is what the
  caller has to ensure.
\<close>

record Slice =
  slice_data :: bytes
  slice_size :: nat

definition Slice_valid :: "Slice \<Rightarrow> bool" where
  "Slice_valid s \<longleftrightarrow> slice_size s \<le> length (slice_data s)"

definition Slice_default :: Slice where
  "Slice_default = \<lparr>slice_data = [0], slice_size = 0\<rparr>"

definition Slice_range :: "bytes \<Rightarrow> nat \<Rightarrow> Slice" where
  "Slice_range d n = \<lparr>slice_data = d, slice_size = n\<rparr>"

text \<open>A \<open>std::string\<close> is followed by a terminating zero, a C string ends at its first one.\<close>

definition Slice_of_string :: "bytes \<Rightarrow> Slice" where
  "Slice_of_string s = \<lparr>slice_data = s @ [0], slice_size = length s\<rparr>"

definition strlen :: "bytes \<Rightarrow> nat" where
  "strlen s = length (takeWhile (\<lambda>b. b \<noteq> 0) s)"

definition Slice_of_cstr :: "bytes \<Rightarrow> Slice" where
  "Slice_of_cstr s = \<lparr>slice_data = s, slice_size = strlen s\<rparr>"

definition Slice_is_empty :: "Slice \<Rightarrow> bool" where
  "Slice_is_empty s \<longleftrightarrow> slice_size s = 0"

text \<open>Indexing is not checked against the size; \<open>None\<close> is a read outside the memory.\<close>

definition Slice_at :: "Slice \<Rightarrow> nat \<Rightarrow> byte option" where
  "Slice_at s n = (if n < length (slice_data s) then Some (slice_data s ! n) else None)"

definition Slice_ToString :: "Slice \<Rightarrow> bytes" where
  "Slice_ToString s = take (slice_size s) (slice_data s)"

definition Slice_compare :: "Slice \<Rightarrow> Slice \<Rightarrow> int" where
  "Slice_compare a b =
     (let min_len = (if slice_size a < slice_size b then slice_size a else slice_size b);
          r = memcmp (slice_data a) (slice_data b) min_len
      in if r = 0 then (if slice_size a < slice_size b then -1 else if slice_size a > slice_size b then 1 else r)
         else r)"

definition Slice_starts_with :: "Slice \<Rightarrow> Slice \<Rightarrow> bool" where
  "Slice_starts_with s x \<longleftrightarrow> slice_size s \<ge> slice_size x \<and> memcmp (slice_data s) (slice_data x) (slice_size x) = 0"

definition Slice_eq :: "Slice \<Rightarrow> Slice \<Rightarrow> bool" where
  "Slice_eq a b \<longleftrightarrow> slice_size a = slice_size b \<and> memcmp (slice_data a) (slice_data b) (slice_size a) = 0"

text \<open>The comparison reads no further than its length.\<close>

lemma memcmp_take: "n \<le> k \<Longrightarrow> n \<le> m \<Longrightarrow> memcmp (take k a) (take m b) n = memcmp a b n"
proof (induction a b n arbitrary: k m rule: memcmp.induct)
  case (1 x xs y ys n)
  then show ?case by (cases k; cases m) auto
qed (case_tac [!] k, case_tac [!] m, auto)

lemma length_Slice_ToString [simp]: "Slice_valid s \<Longrightarrow> length (Slice_ToString s) = slice_size s"
  by (simp add: Slice_valid_def Slice_ToString_def)

text \<open>On valid slices the class implements the operations on byte sequences.\<close>

lemma Slice_refines:
  assumes "Slice_valid a" and "Slice_valid b"
  shows "Slice_compare a b = slice_compare (Slice_ToString a) (Slice_ToString b)"
    and "Slice_starts_with a b = slice_starts_with (Slice_ToString a) (Slice_ToString b)"
    and "Slice_eq a b = slice_eq (Slice_ToString a) (Slice_ToString b)"
    and "Slice_is_empty a \<longleftrightarrow> Slice_ToString a = []"
    and "n < slice_size a \<Longrightarrow> Slice_at a n = Some (Slice_ToString a ! n)"
proof -
  have "memcmp (Slice_ToString a) (Slice_ToString b) n = memcmp (slice_data a) (slice_data b) n"
    if "n \<le> slice_size a" "n \<le> slice_size b" for n
    unfolding Slice_ToString_def using that by (rule memcmp_take)
  then show "Slice_compare a b = slice_compare (Slice_ToString a) (Slice_ToString b)"
    and "Slice_starts_with a b = slice_starts_with (Slice_ToString a) (Slice_ToString b)"
    and "Slice_eq a b = slice_eq (Slice_ToString a) (Slice_ToString b)"
    using assms by (auto simp: Slice_compare_def slice_compare_def Slice_starts_with_def slice_starts_with_def
        Slice_eq_def slice_eq_def Let_def simp del: slice_eq_iff)
  show "Slice_is_empty a \<longleftrightarrow> Slice_ToString a = []" "n < slice_size a \<Longrightarrow> Slice_at a n = Some (Slice_ToString a ! n)"
    using assms(1) by (auto simp: Slice_is_empty_def Slice_ToString_def Slice_valid_def Slice_at_def)
qed

text \<open>What the constructors view: a string is viewed whole, a C string up to its first zero byte.\<close>

lemma Slice_constructors:
  "Slice_valid Slice_default" "Slice_ToString Slice_default = []"
  "Slice_valid (Slice_of_string s)" "Slice_ToString (Slice_of_string s) = s"
  "Slice_valid (Slice_of_cstr c)" "Slice_ToString (Slice_of_cstr c) = takeWhile (\<lambda>b. b \<noteq> 0) c"
  "Slice_valid (Slice_range d n) \<longleftrightarrow> n \<le> length d" "Slice_ToString (Slice_range d n) = take n d"
  by (simp_all add: Slice_valid_def Slice_ToString_def Slice_default_def Slice_of_string_def Slice_of_cstr_def
      Slice_range_def strlen_def length_takeWhile_le takeWhile_eq_take [symmetric])

section \<open>Properties\<close>

text \<open>C35. The comparison of slices is the lexicographic order on unsigned bytes (a total order, the one \<open>std::map\<close> keeps its string keys in),
  and equality, inequality, less-than and \<open>starts_with\<close> agree with it.\<close>

theorem slice_order:
  "(slice_compare a b < 0 \<longleftrightarrow> a < b) \<and> (slice_compare a b = 0 \<longleftrightarrow> a = b) \<and> (slice_compare a b > 0 \<longleftrightarrow> b < a) \<and>
   (slice_less a b \<longleftrightarrow> a < b) \<and> (slice_eq a b \<longleftrightarrow> a = b) \<and> (slice_neq a b \<longleftrightarrow> a \<noteq> b) \<and>
   (slice_starts_with a b \<longleftrightarrow> (\<exists>rest. a = b @ rest))"
proof (intro conjI)
  show "slice_starts_with a b \<longleftrightarrow> (\<exists>rest. a = b @ rest)"
    using memcmp_starts_with [of b a] append_take_drop_id [of "length b" a]
    by (auto simp: slice_starts_with_def memcmp_starts_with) (metis append_take_drop_id)
qed (auto simp: slice_compare_lex)

end
