(* ===== verification/Coding.thy ===== *)
theory Coding
  imports Prelude
begin

text \<open>
  The integer and slice encodings of \<open>include/clomdb/coding.h\<close> (lines 9-107): fixed-width
  little-endian integers, LEB128 varints and length-prefixed slices. An output string is the byte
  list written so far; an input pointer with its limit is the list of the bytes between them, and
  a parser that returns an advanced pointer returns the remaining bytes. Each encoding is an
  instance of \<open>prefix_codec\<close>.
\<close>

unbundle bit_operations_syntax

section \<open>Fixed-width integers\<close>

text \<open>The object representation \<open>memcpy\<close> copies on a little-endian machine.\<close>

fun le_bytes :: "nat \<Rightarrow> 'a::len word \<Rightarrow> bytes" where
  "le_bytes 0 v = []"
| "le_bytes (Suc n) v = ucast v # le_bytes n (drop_bit 8 v)"

fun le_word :: "bytes \<Rightarrow> 'a::len word" where
  "le_word [] = 0"
| "le_word (b # bs) = ucast b OR push_bit 8 (le_word bs)"

definition PutFixed32 :: "bytes \<Rightarrow> u32 \<Rightarrow> bytes" where
  "PutFixed32 dst v = dst @ le_bytes 4 v"

definition PutFixed64 :: "bytes \<Rightarrow> u64 \<Rightarrow> bytes" where
  "PutFixed64 dst v = dst @ le_bytes 8 v"

text \<open>The decoders read 4 and 8 bytes; every caller has checked that they are there.\<close>

definition DecodeFixed32 :: "bytes \<Rightarrow> u32" where
  "DecodeFixed32 p = le_word (take 4 p)"

definition DecodeFixed64 :: "bytes \<Rightarrow> u64" where
  "DecodeFixed64 p = le_word (take 8 p)"

section \<open>Varints\<close>

text \<open>
  The loop of \<open>PutVarint32\<close> and \<open>PutVarint64\<close>, which differ only in the width of \<open>v\<close>: the bytes
  it leaves in \<open>buf[0..n-1]\<close>.
\<close>

function varint_bytes :: "'a::len word \<Rightarrow> bytes" where
  "varint_bytes v =
     (if unat v \<ge> 0x80 then (ucast v OR 0x80) # varint_bytes (drop_bit 7 v) else [ucast v])"
  by pat_completeness auto
termination
  by (relation "measure unat") (auto simp: unat_drop_bit_eq drop_bit_eq_div [of _ "unat _"])

declare varint_bytes.simps [simp del]

definition PutVarint32 :: "bytes \<Rightarrow> u32 \<Rightarrow> bytes" where
  "PutVarint32 dst v = dst @ varint_bytes v"

definition PutVarint64 :: "bytes \<Rightarrow> u64 \<Rightarrow> bytes" where
  "PutVarint64 dst v = dst @ varint_bytes v"

definition PutLengthPrefixedSlice :: "bytes \<Rightarrow> bytes \<Rightarrow> bytes" where
  "PutLengthPrefixedSlice dst value = PutVarint32 dst (of_nat (length value)) @ value"

text \<open>
  The parser loops: \<open>shift\<close> counts up in sevens, the loop stops at the last shift of the width or
  at the end of the input, and \<open>None\<close> is the null pointer.
\<close>

fun GetVarint32Loop :: "nat \<Rightarrow> u32 \<Rightarrow> bytes \<Rightarrow> (u32 \<times> bytes) option" where
  "GetVarint32Loop shift result [] = None"
| "GetVarint32Loop shift result (b # p) =
     (if shift \<le> 28 then
        (let byte = ucast b :: u32 in
         if byte AND 0x80 \<noteq> 0
         then GetVarint32Loop (shift + 7) (result OR push_bit shift (byte AND 0x7f)) p
         else Some (result OR push_bit shift byte, p))
      else None)"

definition GetVarint32Ptr :: "bytes \<Rightarrow> (u32 \<times> bytes) option" where
  "GetVarint32Ptr p = GetVarint32Loop 0 0 p"

fun GetVarint64Loop :: "nat \<Rightarrow> u64 \<Rightarrow> bytes \<Rightarrow> (u64 \<times> bytes) option" where
  "GetVarint64Loop shift result [] = None"
| "GetVarint64Loop shift result (b # p) =
     (if shift \<le> 63 then
        (let byte = ucast b :: u64 in
         if byte AND 0x80 \<noteq> 0
         then GetVarint64Loop (shift + 7) (result OR push_bit shift (byte AND 0x7f)) p
         else Some (result OR push_bit shift byte, p))
      else None)"

definition GetVarint64Ptr :: "bytes \<Rightarrow> (u64 \<times> bytes) option" where
  "GetVarint64Ptr p = GetVarint64Loop 0 0 p"

text \<open>The parsed slice and the advanced input, or \<open>None\<close> where the function returns false.\<close>

definition GetLengthPrefixedSlice :: "bytes \<Rightarrow> (bytes \<times> bytes) option" where
  "GetLengthPrefixedSlice input =
     (case GetVarint32Ptr input of
        None \<Rightarrow> None
      | Some (len, p) \<Rightarrow>
          if (length input - length p) + unat len > length input then None
          else Some (take (unat len) p, drop (unat len) p))"

section \<open>Fixed-width round trips\<close>

lemma length_le_bytes [simp]: "length (le_bytes n v) = n"
  by (induction n arbitrary: v) auto

lemma le_bytes_4:
  "le_bytes 4 v = [ucast v, ucast (drop_bit 8 v), ucast (drop_bit 16 v), ucast (drop_bit 24 v)]"
proof -
  have "(4 :: nat) = Suc (Suc (Suc (Suc 0)))" by simp
  then show ?thesis by (simp only: le_bytes.simps) (simp add: drop_bit_drop_bit)
qed

lemma le_word_le_bytes: "le_word (le_bytes n v) = take_bit (8 * n) v"
proof (induction n arbitrary: v)
  case 0
  then show ?case by simp
next
  case (Suc n)
  show ?case
    by (rule bit_word_eqI) (auto simp: Suc.IH bit_simps less_diff_conv2 split: if_splits)
qed

lemma bit_le_word_length:
  "bit (le_word bs :: 'a::len word) i \<Longrightarrow> i < 8 * length bs"
proof (induction bs arbitrary: i)
  case (Cons b bs)
  then show ?case
    by (auto simp: bit_simps dest!: Cons.IH bit_imp_le_length [of b])
qed simp

lemma drop8_le_word:
  assumes "8 * length bs + 8 \<le> LENGTH('a::len)"
  shows "drop_bit 8 (ucast (b :: byte) OR push_bit 8 (le_word bs) :: 'a word) = le_word bs"
proof (rule bit_word_eqI)
  fix n
  assume "n < LENGTH('a)"
  have "bit (le_word bs :: 'a word) n \<Longrightarrow> 8 + n < LENGTH('a)"
    using bit_le_word_length [of bs n, where 'a = 'a] assms by simp
  then show "bit (drop_bit 8 (ucast b OR push_bit 8 (le_word bs) :: 'a word)) n \<longleftrightarrow> bit (le_word bs :: 'a word) n"
    using bit_imp_le_length [of b "8 + n"] by (auto simp: bit_simps)
qed

lemma le_bytes_le_word:
  assumes "8 * length bs \<le> LENGTH('a::len)"
  shows "le_bytes (length bs) (le_word bs :: 'a word) = bs"
  using assms
proof (induction bs)
  case (Cons b bs)
  have "ucast (ucast b OR push_bit 8 (le_word bs) :: 'a word) = b"
    using Cons.prems by (intro bit_word_eqI) (auto simp: bit_simps)
  moreover have "drop_bit 8 (ucast b OR push_bit 8 (le_word bs) :: 'a word) = le_word bs"
    by (rule drop8_le_word) (use Cons.prems in simp)
  ultimately show ?case using Cons by (simp del: drop_bit_or)
qed simp

lemma DecodeFixed32_encoded [simp, codec_simps]: "DecodeFixed32 (le_bytes 4 v @ rest) = v"
  by (simp add: DecodeFixed32_def le_word_le_bytes take_bit_word_eq_self)

lemma DecodeFixed64_encoded [simp, codec_simps]: "DecodeFixed64 (le_bytes 8 v @ rest) = v"
  by (simp add: DecodeFixed64_def le_word_le_bytes take_bit_word_eq_self)

text \<open>The guarded read of a fixed-width field: check the length, decode, advance.\<close>

definition TakeFixed32 :: "bytes \<Rightarrow> (u32 \<times> bytes) option" where
  "TakeFixed32 p = (if 4 \<le> length p then Some (DecodeFixed32 p, drop 4 p) else None)"

definition TakeFixed64 :: "bytes \<Rightarrow> (u64 \<times> bytes) option" where
  "TakeFixed64 p = (if 8 \<le> length p then Some (DecodeFixed64 p, drop 8 p) else None)"

interpretation fixed32: prefix_codec "le_bytes 4 :: u32 \<Rightarrow> bytes" TakeFixed32 "\<lambda>_. True"
  by unfold_locales (simp add: TakeFixed32_def)

interpretation fixed64: prefix_codec "le_bytes 8 :: u64 \<Rightarrow> bytes" TakeFixed64 "\<lambda>_. True"
  by unfold_locales (simp add: TakeFixed64_def)

section \<open>Varint round trips\<close>

lemma varint_bytes_nonempty [simp]: "varint_bytes v \<noteq> []"
  by (subst varint_bytes.simps) simp

lemma length_varint_bytes_le:
  assumes "unat v < 2 ^ (7 * k)" and "0 < k"
  shows "length (varint_bytes v) \<le> k"
  using assms
proof (induction v arbitrary: k rule: varint_bytes.induct)
  case (1 v)
  show ?case
  proof (cases "unat v \<ge> 0x80")
    case True
    with "1.prems" obtain j where k: "k = Suc j" and "0 < j"
      by (cases k rule: nat.exhaust; cases "k - 1") auto
    have "unat (drop_bit 7 v) < 2 ^ (7 * j)"
      using "1.prems"(1) by (simp add: k power_add unat_drop_bit_eq drop_bit_eq_div [of _ "unat _"]
          less_mult_imp_div_less)
    with "1.IH" True \<open>0 < j\<close> have "length (varint_bytes (drop_bit 7 v)) \<le> j" by simp
    with True k show ?thesis by (simp add: varint_bytes.simps [of v])
  next
    case False
    with "1.prems" show ?thesis by (simp add: varint_bytes.simps [of v])
  qed
qed

lemma continuation_byte:
  fixes v :: "'a::len word"
  assumes "7 < LENGTH('a)"
  shows continuation_flag: "(ucast (ucast v OR 0x80 :: byte) :: 'a word) AND 0x80 \<noteq> 0"
    and continuation_payload: "(ucast (ucast v OR 0x80 :: byte) :: 'a word) AND 0x7f = take_bit 7 v"
proof -
  show "(ucast (ucast v OR 0x80 :: byte) :: 'a word) AND 0x80 \<noteq> 0"
    using assms by (auto simp: bit_eq_iff bit_simps intro!: exI [of _ 7])
  show "(ucast (ucast v OR 0x80 :: byte) :: 'a word) AND 0x7f = take_bit 7 v"
    using assms by (intro bit_word_eqI) (auto simp: bit_simps)
qed

lemma bits_below_7:
  assumes "unat v < 0x80" and "bit v n"
  shows "n < 7"
proof -
  have "take_bit 7 v = v"
    using assms(1)
    by (intro word_unat_eq_iff [THEN iffD2]) (simp add: unsigned_take_bit_eq take_bit_nat_eq_self)
  with assms(2) show ?thesis by (metis bit_take_bit_iff)
qed

lemma final_byte:
  fixes v :: "'a::len word"
  assumes "unat v < 0x80"
  shows "ucast (ucast v :: byte) = v" and "v AND 0x80 = 0" and "(ucast v :: byte) AND 0x80 = 0"
  by (rule bit_word_eqI, auto simp: bit_simps dest: bits_below_7 [OF assms])+

lemma push_bit_split7:
  fixes v :: "'a::len word"
  shows "push_bit s (take_bit 7 v) OR push_bit (s + 7) (drop_bit 7 v) = push_bit s v"
proof (rule bit_word_eqI)
  fix n
  assume n: "n < LENGTH('a)"
  have "s + 7 \<le> n \<Longrightarrow> 7 + (n - (s + 7)) = n - s" by simp
  then show "bit (push_bit s (take_bit 7 v) OR push_bit (s + 7) (drop_bit 7 v)) n = bit (push_bit s v) n"
    by (cases "s + 7 \<le> n") (auto simp: bit_simps n not_le simp del: add_diff_assoc)
qed

lemma unat_drop7_less:
  assumes "unat v < 2 ^ (7 + m)"
  shows "unat (drop_bit 7 v) < 2 ^ m"
  using assms
  by (simp add: power_add unat_drop_bit_eq drop_bit_eq_div [of _ "unat _"] less_mult_imp_div_less)

lemma GetVarint32Loop_varint:
  assumes "unat v < 2 ^ (32 - 7 * i)" and "i \<le> 4"
  shows "GetVarint32Loop (7 * i) r (varint_bytes v @ rest) = Some (r OR push_bit (7 * i) v, rest)"
  using assms
proof (induction v arbitrary: i r rule: varint_bytes.induct)
  case (1 v)
  show ?case
  proof (cases "unat v \<ge> 0x80")
    case True
    have "i \<noteq> 4" using True "1.prems"(1) by auto
    with "1.prems"(2) have i: "Suc i \<le> 4" and "32 - 7 * i = 7 + (32 - 7 * Suc i)" by auto
    with "1.prems"(1) have "unat (drop_bit 7 v) < 2 ^ (32 - 7 * Suc i)"
      by (metis unat_drop7_less)
    from "1.IH" [OF True this i] True i show ?thesis
      by (simp add: varint_bytes.simps [of v] continuation_flag continuation_payload
          add.commute [of 7] or.assoc push_bit_split7)
  next
    case False
    with "1.prems"(2) show ?thesis
      by (simp add: varint_bytes.simps [of v] final_byte)
  qed
qed

lemma GetVarint64Loop_varint:
  assumes "unat v < 2 ^ (64 - 7 * i)" and "i \<le> 9"
  shows "GetVarint64Loop (7 * i) r (varint_bytes v @ rest) = Some (r OR push_bit (7 * i) v, rest)"
  using assms
proof (induction v arbitrary: i r rule: varint_bytes.induct)
  case (1 v)
  show ?case
  proof (cases "unat v \<ge> 0x80")
    case True
    have "i \<noteq> 9" using True "1.prems"(1) by auto
    with "1.prems"(2) have i: "Suc i \<le> 9" and le: "7 * i + 7 \<le> 64" by auto
    then have "64 - 7 * i = 7 + (64 - 7 * Suc i)" by simp
    with "1.prems"(1) have "unat (drop_bit 7 v) < 2 ^ (64 - 7 * Suc i)"
      by (metis unat_drop7_less)
    from "1.IH" [OF True this i] True i show ?thesis
      by (simp add: varint_bytes.simps [of v] continuation_flag continuation_payload
          add.commute [of 7] or.assoc push_bit_split7)
  next
    case False
    with "1.prems"(2) show ?thesis
      by (simp add: varint_bytes.simps [of v] final_byte)
  qed
qed

lemma unat_u32_less [simp]: "unat (v :: u32) < 4294967296"
  using unsigned_less [of v, where 'a = nat] by simp

lemma unat_u64_less [simp]: "unat (v :: u64) < 18446744073709551616"
  using unsigned_less [of v, where 'a = nat] by simp

lemma length_varint32 [simp]: "length (varint_bytes (v :: u32)) \<le> 5"
  by (rule length_varint_bytes_le) (use less_le_trans [OF unat_u32_less [of v]] in simp_all)

lemma length_varint64 [simp]: "length (varint_bytes (v :: u64)) \<le> 10"
  by (rule length_varint_bytes_le) (use less_le_trans [OF unat_u64_less [of v]] in simp_all)

lemma GetVarint32Ptr_encoded [simp, codec_simps]:
  "GetVarint32Ptr (varint_bytes v @ rest) = Some (v, rest)"
  using GetVarint32Loop_varint [of v 0 0 rest] by (simp add: GetVarint32Ptr_def)

lemma GetVarint64Ptr_encoded [simp, codec_simps]:
  "GetVarint64Ptr (varint_bytes v @ rest) = Some (v, rest)"
  using GetVarint64Loop_varint [of v 0 0 rest] by (simp add: GetVarint64Ptr_def)

interpretation varint32: prefix_codec "varint_bytes :: u32 \<Rightarrow> bytes" GetVarint32Ptr "\<lambda>_. True"
  by unfold_locales simp

interpretation varint64: prefix_codec "varint_bytes :: u64 \<Rightarrow> bytes" GetVarint64Ptr "\<lambda>_. True"
  by unfold_locales simp

text \<open>A parse consumes a non-empty prefix of its input, at most one byte per shift.\<close>

lemma GetVarint32Loop_consumes:
  assumes "GetVarint32Loop (7 * i) r p = Some (v, q)"
  shows "\<exists>xs. p = xs @ q \<and> xs \<noteq> [] \<and> length xs \<le> 5 - i"
  using assms
proof (induction p arbitrary: i r)
  case (Cons b p)
  then have i: "i \<le> 4" by (auto split: if_splits)
  show ?case
  proof (cases "(ucast b :: u32) AND 0x80 \<noteq> 0")
    case True
    with Cons.prems i
    have "GetVarint32Loop (7 * Suc i) (r OR push_bit (7 * i) (ucast b AND 0x7f)) p = Some (v, q)"
      by (simp add: Let_def add.commute)
    from Cons.IH [OF this] obtain xs where "p = xs @ q \<and> xs \<noteq> [] \<and> length xs \<le> 5 - Suc i" by blast
    with i show ?thesis by (intro exI [of _ "b # xs"]) auto
  next
    case False
    with Cons.prems i show ?thesis by (intro exI [of _ "[b]"]) (auto simp: Let_def)
  qed
qed simp

lemma GetVarint32Ptr_consumes:
  assumes "GetVarint32Ptr p = Some (v, q)"
  obtains xs where "p = xs @ q" and "xs \<noteq> []" and "length xs \<le> 5"
  using GetVarint32Loop_consumes [of 0 0 p v q] assms by (auto simp: GetVarint32Ptr_def)

section \<open>The grammar of varints\<close>

text \<open>
  What the format says, without the parser: at most five bytes, all but the last with the top bit set, that
  hold the value in groups of seven bits, lowest group first (bits beyond the 32nd are lost). Encodings that are longer
  than necessary belong to it.
\<close>

fun varint_shape :: "bytes \<Rightarrow> bool" where
  "varint_shape [] \<longleftrightarrow> False"
| "varint_shape (b # bs) \<longleftrightarrow> (if bit b 7 then varint_shape bs else bs = [])"

fun varint_groups :: "bytes \<Rightarrow> u32" where
  "varint_groups [] = 0"
| "varint_groups (b # bs) = take_bit 7 (ucast b) OR push_bit 7 (varint_groups bs)"

definition varint32_code :: "u32 \<Rightarrow> bytes \<Rightarrow> bool" where
  "varint32_code v bs \<longleftrightarrow> varint_shape bs \<and> length bs \<le> 5 \<and> v = varint_groups bs"

lemma top_bit: "(ucast (b :: byte) :: u32) AND 0x80 \<noteq> 0 \<longleftrightarrow> bit b 7"
proof -
  have "(ucast b :: u32) AND 0x80 = (if bit b 7 then 0x80 else 0)"
    by (rule bit_word_eqI) (auto simp: bit_simps bit_0x80)
  then show ?thesis by simp
qed

lemma low_bits: "(ucast (b :: byte) :: u32) AND 0x7f = take_bit 7 (ucast b)"
  by (rule bit_word_eqI) (auto simp: bit_simps bit_0x7f)

lemma take_bit7_final: "\<not> bit b 7 \<Longrightarrow> take_bit 7 (ucast (b :: byte)) = (ucast b :: u32)"
proof (rule bit_word_eqI)
  fix n
  assume "\<not> bit b 7"
  then have "bit b n \<Longrightarrow> n < 7" using bit_imp_le_length [of b n] by (cases "n = 7") auto
  then show "bit (take_bit 7 (ucast b) :: u32) n = bit (ucast b :: u32) n" by (auto simp: bit_simps)
qed

lemma GetVarint32Loop_code:
  "GetVarint32Loop (7 * i) r p = Some (v, q) \<longleftrightarrow>
    (\<exists>bs. p = bs @ q \<and> varint_shape bs \<and> i + length bs \<le> 5 \<and> v = r OR push_bit (7 * i) (varint_groups bs))"
proof (induction p arbitrary: i r)
  case Nil
  then show ?case by auto
next
  case (Cons b p)
  show ?case
  proof (cases "i \<le> 4")
    case False
    then have "\<not> (varint_shape bs \<and> i + length bs \<le> 5)" for bs by (cases bs) auto
    moreover have "GetVarint32Loop (7 * i) r (b # p) = None" using False by simp
    ultimately show ?thesis by fastforce
  next
    case i: True
    show ?thesis
    proof (cases "bit b 7")
      case True
      have "GetVarint32Loop (7 * i) r (b # p) = Some (v, q) \<longleftrightarrow>
          GetVarint32Loop (7 * Suc i) (r OR push_bit (7 * i) (take_bit 7 (ucast b))) p = Some (v, q)"
        using i True by (simp add: Let_def top_bit low_bits add.commute)
      also have "\<dots> \<longleftrightarrow> (\<exists>bs. b # p = (b # bs) @ q \<and> varint_shape (b # bs) \<and> i + length (b # bs) \<le> 5 \<and>
          v = r OR push_bit (7 * i) (varint_groups (b # bs)))"
        unfolding Cons.IH using True by (simp add: push_bit_or push_bit_push_bit or.assoc add.commute)
      also have "\<dots> \<longleftrightarrow> (\<exists>bs. b # p = bs @ q \<and> varint_shape bs \<and> i + length bs \<le> 5 \<and>
          v = r OR push_bit (7 * i) (varint_groups bs))"
      proof -
        have "\<exists>cs. bs = b # cs" if "b # p = bs @ q" "varint_shape bs" for bs
          using that by (cases bs) auto
        then show ?thesis by blast
      qed
      finally show ?thesis .
    next
      case False
      have "bs = [b]" if "b # p = bs @ q" "varint_shape bs" for bs
        using that False by (cases bs) auto
      moreover have "GetVarint32Loop (7 * i) r (b # p) = Some (v, q) \<longleftrightarrow>
          b # p = [b] @ q \<and> v = r OR push_bit (7 * i) (varint_groups [b])"
        using i False by (auto simp: Let_def top_bit take_bit7_final)
      ultimately show ?thesis using i False by fastforce
    qed
  qed
qed

text \<open>The parser accepts exactly the strings of the grammar.\<close>

lemma GetVarint32Ptr_code: "GetVarint32Ptr p = Some (v, q) \<longleftrightarrow> (\<exists>bs. varint32_code v bs \<and> p = bs @ q)"
  using GetVarint32Loop_code [of 0 0 p v q] by (auto simp: GetVarint32Ptr_def varint32_code_def)

section \<open>Length-prefixed slices\<close>

definition lps_bytes :: "bytes \<Rightarrow> bytes" where
  "lps_bytes s = varint_bytes (of_nat (length s) :: u32) @ s"

definition lps_ok :: "bytes \<Rightarrow> bool" where
  "lps_ok s \<longleftrightarrow> length s < 2 ^ 32"

lemma PutLengthPrefixedSlice_eq: "PutLengthPrefixedSlice dst s = dst @ lps_bytes s"
  by (simp add: PutLengthPrefixedSlice_def PutVarint32_def lps_bytes_def)

lemma GetLengthPrefixedSlice_encoded [codec_simps]:
  "lps_ok s \<Longrightarrow> GetLengthPrefixedSlice (lps_bytes s @ rest) = Some (s, rest)"
  by (simp add: GetLengthPrefixedSlice_def lps_bytes_def lps_ok_def)

definition slice_code :: "bytes \<Rightarrow> bytes \<Rightarrow> bool" where
  "slice_code x bs \<longleftrightarrow> (\<exists>len n. varint32_code len n \<and> unat len = length x \<and> bs = n @ x)"

lemma GetLengthPrefixedSlice_code:
  "GetLengthPrefixedSlice p = Some (x, q) \<longleftrightarrow> (\<exists>bs. slice_code x bs \<and> p = bs @ q)"
proof
  assume "GetLengthPrefixedSlice p = Some (x, q)"
  then obtain len rest where v: "GetVarint32Ptr p = Some (len, rest)"
    and x: "(length p - length rest) + unat len \<le> length p" "x = take (unat len) rest" "q = drop (unat len) rest"
    by (auto simp: GetLengthPrefixedSlice_def split: option.splits if_splits)
  from v obtain n where n: "varint32_code len n" "p = n @ rest" unfolding GetVarint32Ptr_code by blast
  with x have "slice_code x (n @ x)" unfolding slice_code_def by (intro exI [of _ len] exI [of _ n]) simp
  then show "\<exists>bs. slice_code x bs \<and> p = bs @ q" using x n(2) by (intro exI [of _ "n @ x"]) simp
next
  assume "\<exists>bs. slice_code x bs \<and> p = bs @ q"
  then obtain len n where n: "varint32_code len n" "unat len = length x" "p = n @ x @ q" unfolding slice_code_def by auto
  then have "GetVarint32Ptr p = Some (len, x @ q)" unfolding GetVarint32Ptr_code by blast
  with n show "GetLengthPrefixedSlice p = Some (x, q)" by (simp add: GetLengthPrefixedSlice_def)
qed

interpretation lps: prefix_codec lps_bytes GetLengthPrefixedSlice lps_ok
  by unfold_locales (rule GetLengthPrefixedSlice_encoded)

lemma GetLengthPrefixedSlice_consumes:
  assumes "GetLengthPrefixedSlice p = Some (s, q)"
  shows "\<exists>xs. p = xs @ s @ q \<and> xs \<noteq> []"
proof -
  from assms obtain len r where v: "GetVarint32Ptr p = Some (len, r)"
    and s: "s = take (unat len) r" and q: "q = drop (unat len) r"
    by (auto simp: GetLengthPrefixedSlice_def split: option.splits if_splits)
  from v obtain xs where "p = xs @ r" and "xs \<noteq> []" by (rule GetVarint32Ptr_consumes)
  then show ?thesis by (auto simp: s q)
qed

lemma GetLengthPrefixedSlice_shorter:
  "GetLengthPrefixedSlice p = Some (s, q) \<Longrightarrow> length q < length p"
  by (auto dest!: GetLengthPrefixedSlice_consumes)

section \<open>Properties\<close>

text \<open>C37. Round trip of varints at both widths through the writers and the parsers of \<open>coding.h\<close>: appending a value to a buffer keeps
  the buffer, adds at most five (ten) bytes, the size of the local array of \<open>PutVarint32\<close> (\<open>PutVarint64\<close>), and parsing from where it
  was appended gives the value and exactly what follows.\<close>

theorem varint_roundtrip:
  "take (length dst) (PutVarint32 dst v) = dst \<and> length (PutVarint32 dst v) \<le> length dst + 5 \<and>
   GetVarint32Ptr (drop (length dst) (PutVarint32 dst v @ rest)) = Some (v, rest) \<and>
   take (length dst) (PutVarint64 dst v') = dst \<and> length (PutVarint64 dst v') \<le> length dst + 10 \<and>
   GetVarint64Ptr (drop (length dst) (PutVarint64 dst v' @ rest)) = Some (v', rest)"
  by (simp add: PutVarint32_def PutVarint64_def)

text \<open>C38. The varint parser stays inside its input on any bytes: what it returns is a proper suffix of the input, and it has consumed
  between one and five bytes.\<close>

theorem varint32_parse_bounds:
  assumes "GetVarint32Ptr p = Some (v, q)"
  shows "\<exists>used. p = used @ q \<and> 1 \<le> length used \<and> length used \<le> 5"
  using assms by (rule GetVarint32Ptr_consumes) (auto simp: Suc_le_eq)

theorem varint32_parse_bounds_witness:
  "GetVarint32Ptr [0xAC, 0x02, 0x07] = Some (300, [0x07]) \<and>
   (\<exists>used. [0xAC, 0x02, 0x07 :: byte] = used @ [0x07] \<and> 1 \<le> length used \<and> length used \<le> 5)"
proof -
  have "GetVarint32Ptr [0xAC, 0x02, 0x07] = Some (300, [0x07])"
    by (simp add: GetVarint32Ptr_def push_bit_of_1 Let_def)
  from this varint32_parse_bounds [OF this] show ?thesis by blast
qed

text \<open>Length-prefixed slices below 4 GiB survive the round trip, whatever stands before and after them.\<close>

lemma length_prefixed_roundtrip:
  assumes "length s < 2 ^ 32"
  shows "GetLengthPrefixedSlice (drop (length dst) (PutLengthPrefixedSlice dst s @ rest)) = Some (s, rest)"
  using assms by (simp add: PutLengthPrefixedSlice_eq GetLengthPrefixedSlice_encoded lps_ok_def)

text \<open>The fixed-width integers are little-endian bijections: decoding inverts encoding at both widths, and encoding inverts
  decoding on blocks of the right size.\<close>

lemma fixed_width_roundtrip:
  "DecodeFixed32 (drop (length dst) (PutFixed32 dst v @ rest)) = v \<and>
   DecodeFixed64 (drop (length dst) (PutFixed64 dst u @ rest)) = u \<and>
   PutFixed32 dst (DecodeFixed32 [b0, b1, b2, b3]) = dst @ [b0, b1, b2, b3] \<and>
   PutFixed64 dst (DecodeFixed64 [b0, b1, b2, b3, b4, b5, b6, b7]) = dst @ [b0, b1, b2, b3, b4, b5, b6, b7]"
proof -
  have "le_bytes 4 (le_word [b0, b1, b2, b3] :: u32) = [b0, b1, b2, b3]"
    using le_bytes_le_word [of "[b0, b1, b2, b3]", where 'a = 32]
    by (simp add: numeral_eq_Suc del: le_bytes.simps le_word.simps)
  moreover have "le_bytes 8 (le_word [b0, b1, b2, b3, b4, b5, b6, b7] :: u64) = [b0, b1, b2, b3, b4, b5, b6, b7]"
    using le_bytes_le_word [of "[b0, b1, b2, b3, b4, b5, b6, b7]", where 'a = 64]
    by (simp add: numeral_eq_Suc del: le_bytes.simps le_word.simps)
  moreover have "DecodeFixed32 [b0, b1, b2, b3] = le_word [b0, b1, b2, b3]"
    "DecodeFixed64 [b0, b1, b2, b3, b4, b5, b6, b7] = le_word [b0, b1, b2, b3, b4, b5, b6, b7]"
    by (simp_all add: DecodeFixed32_def DecodeFixed64_def del: le_word.simps)
  ultimately show ?thesis by (simp add: PutFixed32_def PutFixed64_def)
qed

end
