(* ===== verification/Crc32c.thy ===== *)
theory Crc32c
  imports Coding
begin

text \<open>
  \<open>class CRC32C\<close> of \<open>include/clomdb/coding.h\<close> (lines 109-151): the 256-entry table, the
  table-driven checksum loop and the masking applied before a checksum is stored. The table-driven
  loop is shown equal to the bit-serial shift register it tabulates, and from that register's
  reversibility: a change confined to one byte always changes the checksum.
\<close>

unbundle bit_operations_syntax

text \<open>One iteration of the inner loop of \<open>Table()\<close>.\<close>

definition crc_bit_step :: "u32 \<Rightarrow> u32" where
  "crc_bit_step c = (if c AND 1 \<noteq> 0 then 0x82F63B78 XOR drop_bit 1 c else drop_bit 1 c)"

definition crc_Table :: "u32 list" where
  "crc_Table = map (\<lambda>n. (crc_bit_step ^^ 8) (of_nat n)) [0..<256]"

text \<open>One iteration of the loop of \<open>Extend\<close>.\<close>

definition crc_byte_step :: "u32 \<Rightarrow> byte \<Rightarrow> u32" where
  "crc_byte_step c b = crc_Table ! unat ((c XOR ucast b) AND 0xFF) XOR drop_bit 8 c"

definition crc_Extend :: "u32 \<Rightarrow> bytes \<Rightarrow> u32" where
  "crc_Extend crc data =
     (let c = crc XOR 0xFFFFFFFF in foldl crc_byte_step c data XOR 0xFFFFFFFF)"

definition crc_Value :: "bytes \<Rightarrow> u32" where
  "crc_Value data = crc_Extend 0 data"

definition crc_Mask :: "u32 \<Rightarrow> u32" where
  "crc_Mask crc = (drop_bit 15 crc OR push_bit 17 crc) + 0xa282ead8"

definition crc_Unmask :: "u32 \<Rightarrow> u32" where
  "crc_Unmask masked =
     (let rot = masked - 0xa282ead8 in drop_bit 17 rot OR push_bit 15 rot)"

section \<open>The bit-serial register\<close>

text \<open>The reference: eight single-bit steps after the byte is mixed into the low end.\<close>

definition crc_byte_ref :: "u32 \<Rightarrow> byte \<Rightarrow> u32" where
  "crc_byte_ref c b = (crc_bit_step ^^ 8) (c XOR ucast b)"

definition crc_ref :: "bytes \<Rightarrow> u32" where
  "crc_ref data = foldl crc_byte_ref 0xFFFFFFFF data XOR 0xFFFFFFFF"

lemma crc_bit_step_odd: "crc_bit_step c = (if odd c then 0x82F63B78 XOR drop_bit 1 c else drop_bit 1 c)"
  by (simp add: crc_bit_step_def and_one_eq odd_iff_mod_2_eq_one)

lemma drop_bit_xor_word: "drop_bit n (a XOR b) = drop_bit n a XOR drop_bit n (b :: 'a::len word)"
  by (rule bit_word_eqI) (auto simp: bit_simps)

lemma odd_xor_word: "odd (a XOR b) \<longleftrightarrow> odd a \<noteq> odd (b :: 'a::len word)"
  by (simp add: even_xor_iff)

lemma crc_bit_step_xor: "crc_bit_step (a XOR b) = crc_bit_step a XOR crc_bit_step b"
  by (simp add: crc_bit_step_odd drop_bit_xor_word odd_xor_word ac_simps)

lemma crc_bit_steps_xor: "(crc_bit_step ^^ n) (a XOR b) = (crc_bit_step ^^ n) a XOR (crc_bit_step ^^ n) b"
  by (induction n) (simp_all add: crc_bit_step_xor)

lemma crc_bit_steps_low_zero:
  assumes "\<And>i. i < n \<Longrightarrow> \<not> bit c i"
  shows "(crc_bit_step ^^ n) c = drop_bit n c"
  using assms
proof (induction n arbitrary: c)
  case (Suc n)
  then have "crc_bit_step c = drop_bit 1 c"
    using Suc.prems [of 0] by (simp add: crc_bit_step_odd bit_0)
  moreover have "\<not> bit (drop_bit 1 c) i" if "i < n" for i
    using Suc.prems [of "Suc i"] that by (simp add: bit_simps)
  ultimately show ?case
    using Suc.IH [of "drop_bit 1 c"] by (simp add: funpow_Suc_right del: funpow.simps)
qed simp

text \<open>A table step is eight register steps: the low byte is looked up, the rest only shifts.\<close>

lemma crc_byte_step_ref: "crc_byte_step c b = crc_byte_ref c b"
proof -
  let ?x = "c XOR ucast b"
  let ?l = "?x AND 0xFF" and ?h = "?x XOR (?x AND 0xFF)"
  have split: "?x = ?l XOR ?h"
    by (rule bit_word_eqI) (auto simp: bit_simps)
  have "unat ?l < 256"
    using word_and_le1 [of ?x "0xFF"] by (simp add: word_le_nat_alt) 
  then have tab: "crc_Table ! unat ?l = (crc_bit_step ^^ 8) ?l"
    by (simp add: crc_Table_def del: funpow.simps)
  have "(crc_bit_step ^^ 8) ?h = drop_bit 8 ?h"
    by (rule crc_bit_steps_low_zero) (simp add: bit_simps)
  also have "\<dots> = drop_bit 8 c"
    by (rule bit_word_eqI) (auto simp: bit_simps dest: bit_imp_le_length)
  finally have "(crc_bit_step ^^ 8) ?h = drop_bit 8 c" .
  with split tab show ?thesis
    by (metis crc_byte_step_def crc_byte_ref_def crc_bit_steps_xor)
qed

lemma crc_byte_step_eq: "crc_byte_step = crc_byte_ref"
  by (intro ext) (rule crc_byte_step_ref)

lemma crc_Value_ref: "crc_Value data = crc_ref data"
  by (simp add: crc_Value_def crc_Extend_def crc_ref_def crc_byte_step_eq)

lemma crc_Extend_append: "crc_Extend (crc_Extend crc xs) ys = crc_Extend crc (xs @ ys)"
  by (simp add: crc_Extend_def Let_def xor.assoc)

section \<open>Error detection\<close>

lemma inj_crc_bit_step: "inj crc_bit_step"
proof (rule injI)
  fix a b assume e: "crc_bit_step a = crc_bit_step b"
  have top: "bit (crc_bit_step c) 31 = odd c" for c
    using bit_imp_le_length [of c 32] by (auto simp: crc_bit_step_odd bit_simps)
  have o: "odd a = odd b" using e top by metis
  with e o have "drop_bit 1 a = drop_bit 1 b"
   by (auto simp: crc_bit_step_odd split: if_splits)
  then have "a div 2 = b div 2" by (simp add: drop_bit_eq_div)
  then show "a = b" using o by (metis bit_eq_rec)
qed

lemma inj_crc_byte_ref: "crc_byte_ref c b = crc_byte_ref d b \<Longrightarrow> c = d"
  using inj_fn [OF inj_crc_bit_step, of 8] by (simp add: crc_byte_ref_def inj_eq)

lemma inj_crc_fold: "foldl crc_byte_ref c ys = foldl crc_byte_ref d ys \<Longrightarrow> c = d"
  by (induction ys arbitrary: c d) (auto dest: inj_crc_byte_ref)

text \<open>Up to four bytes enter the register as one word before the steps that shift them out.\<close>

lemma crc_fold_window:
  assumes "length us \<le> 4"
  shows "foldl crc_byte_ref c us = (crc_bit_step ^^ (8 * length us)) (c XOR le_word us)"
  using assms
proof (induction us arbitrary: c)
  case (Cons u us)
  have disj: "ucast u OR push_bit 8 (le_word us) = ucast u XOR (push_bit 8 (le_word us) :: u32)"
    by (rule bit_word_eqI) (auto simp: bit_simps dest: bit_imp_le_length)
  have "drop_bit 8 (push_bit 8 (le_word us)) = (le_word us :: u32)"
    using drop8_le_word [of us 0, where 'a = 32] Cons.prems by simp
  then have "(crc_bit_step ^^ 8) (push_bit 8 (le_word us)) = le_word us"
    using crc_bit_steps_low_zero [of 8 "push_bit 8 (le_word us)"] by (simp add: bit_simps)
  then have "crc_byte_ref c u XOR le_word us = (crc_bit_step ^^ 8) (c XOR le_word (u # us))"
    by (simp add: crc_byte_ref_def disj crc_bit_steps_xor ac_simps del: funpow.simps)
  with Cons show ?case
    by (simp add: funpow_add add.commute [of 8] del: funpow.simps le_word.simps)
qed simp

lemma crc_ref_window_inj:
  assumes "length us = length vs" and "length us \<le> 4"
    and "crc_ref (xs @ us @ ys) = crc_ref (xs @ vs @ ys)"
  shows "us = vs"
proof -
  let ?c = "foldl crc_byte_ref 0xFFFFFFFF xs"
  have "foldl crc_byte_ref ?c us = foldl crc_byte_ref ?c vs"
    by (rule inj_crc_fold [of _ ys]) (use assms(3) in \<open>simp add: crc_ref_def\<close>)
  then have "(le_word us :: u32) = le_word vs"
    unfolding crc_fold_window [OF assms(2)] crc_fold_window [OF assms(2) [unfolded assms(1)]] assms(1)
    by (simp add: inj_eq [OF inj_fn [OF inj_crc_bit_step]])
  moreover have "le_bytes (length us) (le_word us :: u32) = us"
    and "le_bytes (length vs) (le_word vs :: u32) = vs"
    by (rule le_bytes_le_word, use assms(1,2) in simp)+
  ultimately show ?thesis using assms(1) by metis
qed

section \<open>Masking\<close>

lemma crc_Unmask_Mask: "crc_Unmask (crc_Mask c) = c"
proof -
  have "15 + (n - 15) = n" if "\<not> n < 15" for n :: nat using that by simp
  then have "drop_bit 17 (drop_bit 15 c OR push_bit 17 c) OR push_bit 15 (drop_bit 15 c OR push_bit 17 c) = c"
   by (intro bit_word_eqI) (case_tac "n < 15"; auto simp: bit_simps)
  then show ?thesis by (simp add: crc_Mask_def crc_Unmask_def Let_def)
qed

section \<open>Evaluation\<close>

text \<open>Rewriting that evaluates the register on numerals, innermost first.\<close>

lemma crc_bit_step_numeral:
  "crc_bit_step (numeral k) =
    (if (numeral k :: u32) AND 1 \<noteq> 0 then 0x82F63B78 XOR drop_bit 1 (numeral k)
     else drop_bit 1 (numeral k))"
  by (rule crc_bit_step_def)

lemma crc_bit_step_0 [simp]: "crc_bit_step 0 = 0"
  by (simp add: crc_bit_step_def)

lemma crc_bit_step_1 [simp]: "crc_bit_step 1 = 0x82F63B78"
  by (simp add: crc_bit_step_def)

lemma crc_steps_8: "(crc_bit_step ^^ 8) x =
    crc_bit_step (crc_bit_step (crc_bit_step (crc_bit_step
      (crc_bit_step (crc_bit_step (crc_bit_step (crc_bit_step x)))))))"
  by (simp add: eval_nat_numeral)

lemmas crc_eval = crc_Value_ref crc_ref_def crc_byte_ref_def crc_bit_step_numeral crc_steps_8

section \<open>Properties\<close>

text \<open>C32. The table-driven checksum is CRC-32C: it equals the bit-serial computation with the reflected Castagnoli polynomial on every
  input, and gives the published check value on the nine bytes ``123456789''.\<close>

theorem crc_is_crc32c:
  "crc_Value data = crc_ref data \<and>
   crc_Value [0x31, 0x32, 0x33, 0x34, 0x35, 0x36, 0x37, 0x38, 0x39] = 0xE3069283"
  by (intro conjI crc_Value_ref) (simp add: crc_eval)

text \<open>C33. Any damage confined to four consecutive bytes, anywhere in the data, changes the checksum.\<close>

theorem crc_detects_burst:
  assumes "length us = length vs" and "length us \<le> 4" and "us \<noteq> vs"
  shows "crc_Value (xs @ us @ ys) \<noteq> crc_Value (xs @ vs @ ys)"
  using assms crc_ref_window_inj [of us vs xs ys] by (auto simp: crc_Value_ref)

theorem crc_detects_burst_witness:
  "crc_Value ([1, 2] @ [3, 4, 5, 6] @ [7]) \<noteq> crc_Value ([1, 2] @ [3, 0, 0, 6] @ [7])"
  by (rule crc_detects_burst) simp_all

text \<open>The checksum can be computed piecewise with \<open>Extend\<close>, and the stored (masked) form of a checksum loses nothing.\<close>

lemma crc_extend_mask:
  "crc_Extend (crc_Extend crc xs) ys = crc_Extend crc (xs @ ys) \<and> crc_Unmask (crc_Mask crc) = crc"
  by (intro conjI crc_Extend_append crc_Unmask_Mask)

end
