(* ===== verification/Status.thy ===== *)
theory Status
  imports Prelude
begin

text \<open>
  \<open>include/clomdb/status.h\<close> and \<open>include/clomdb/options.h\<close>: the result type every fallible
  operation returns and the configuration records. A status is its code and its message; the
  factory functions and predicates keep the source's names, prefixed by \<open>Status_\<close>.
\<close>

datatype Code = kOk | kNotFound | kCorruption | kIOError | kInvalidArgument | kNotSupported
  | kAlreadyExists

record Status =
  status_code :: Code
  status_msg :: string

definition Status_OK :: Status where
  "Status_OK = \<lparr>status_code = kOk, status_msg = []\<rparr>"

definition Status_NotFound :: "string \<Rightarrow> Status" where
  "Status_NotFound msg = \<lparr>status_code = kNotFound, status_msg = msg\<rparr>"

definition Status_Corruption :: "string \<Rightarrow> Status" where
  "Status_Corruption msg = \<lparr>status_code = kCorruption, status_msg = msg\<rparr>"

definition Status_IOError :: "string \<Rightarrow> Status" where
  "Status_IOError msg = \<lparr>status_code = kIOError, status_msg = msg\<rparr>"

definition Status_InvalidArgument :: "string \<Rightarrow> Status" where
  "Status_InvalidArgument msg = \<lparr>status_code = kInvalidArgument, status_msg = msg\<rparr>"

definition Status_NotSupported :: "string \<Rightarrow> Status" where
  "Status_NotSupported msg = \<lparr>status_code = kNotSupported, status_msg = msg\<rparr>"

definition Status_AlreadyExists :: "string \<Rightarrow> Status" where
  "Status_AlreadyExists msg = \<lparr>status_code = kAlreadyExists, status_msg = msg\<rparr>"

definition Status_ok :: "Status \<Rightarrow> bool" where
  "Status_ok s \<longleftrightarrow> status_code s = kOk"

definition Status_IsNotFound :: "Status \<Rightarrow> bool" where
  "Status_IsNotFound s \<longleftrightarrow> status_code s = kNotFound"

definition Status_IsCorruption :: "Status \<Rightarrow> bool" where
  "Status_IsCorruption s \<longleftrightarrow> status_code s = kCorruption"

definition Status_IsIOError :: "Status \<Rightarrow> bool" where
  "Status_IsIOError s \<longleftrightarrow> status_code s = kIOError"

text \<open>The table of names \<open>ToString\<close> indexes with the code.\<close>

fun code_name :: "Code \<Rightarrow> string" where
  "code_name kOk = ''OK''"
| "code_name kNotFound = ''NotFound''"
| "code_name kCorruption = ''Corruption''"
| "code_name kIOError = ''IOError''"
| "code_name kInvalidArgument = ''InvalidArgument''"
| "code_name kNotSupported = ''NotSupported''"
| "code_name kAlreadyExists = ''AlreadyExists''"

definition Status_ToString :: "Status \<Rightarrow> string" where
  "Status_ToString s = (if Status_ok s then ''OK'' else code_name (status_code s) @ '': '' @ status_msg s)"

lemmas Status_defs = Status_OK_def Status_NotFound_def Status_Corruption_def Status_IOError_def
  Status_InvalidArgument_def Status_NotSupported_def Status_AlreadyExists_def

lemma Status_ok_simps [simp]:
  "Status_ok Status_OK"
  "\<not> Status_ok (Status_NotFound m)"
  "\<not> Status_ok (Status_Corruption m)"
  "\<not> Status_ok (Status_IOError m)"
  "\<not> Status_ok (Status_InvalidArgument m)"
  "\<not> Status_ok (Status_NotSupported m)"
  "\<not> Status_ok (Status_AlreadyExists m)"
  by (simp_all add: Status_ok_def Status_defs)

lemma Status_IsNotFound_simps [simp]:
  "\<not> Status_IsNotFound Status_OK"
  "Status_IsNotFound (Status_NotFound m)"
  "\<not> Status_IsNotFound (Status_Corruption m)"
  "\<not> Status_IsNotFound (Status_IOError m)"
  by (simp_all add: Status_IsNotFound_def Status_defs)

section \<open>Options\<close>

text \<open>\<open>size_t\<close> is a 64-bit unsigned word; \<open>int\<close> options are integers in the range of a C++ int.\<close>

record Options =
  create_if_missing :: bool
  error_if_exists :: bool
  memtable_flush_bytes :: u64
  l0_compaction_trigger :: int
  level_size_multiplier :: int
  level1_target_bytes :: u64
  bloom_bits_per_key :: int
  sync_writes :: bool
  background_compaction :: bool

definition default_Options :: Options where
  "default_Options = \<lparr>create_if_missing = True, error_if_exists = False,
     memtable_flush_bytes = 4 * 1024 * 1024, l0_compaction_trigger = 4,
     level_size_multiplier = 10, level1_target_bytes = 16 * 1024 * 1024,
     bloom_bits_per_key = 10, sync_writes = False, background_compaction = True\<rparr>"

record ReadOptions =
  verify_checksums :: bool

record WriteOptions =
  sync :: bool

text \<open>A byte string used as message text.\<close>

definition bytes_to_string :: "bytes \<Rightarrow> string" where
  "bytes_to_string bs = map (\<lambda>b. char_of (unat b)) bs"

end
