(* ===== verification/Bloom.thy ===== *)
theory Bloom
  imports Prelude
begin

text \<open>
  \<open>include/clomdb/bloom.h\<close>: the Murmur-style hash, the filt builder and the membership probe,
  with the unsigned arithmetic at its width. The builder returns \<open>None\<close> where the process
  cannot go on: the filt's byte count wrapped to zero (the probe position would be computed
  modulo zero) or is larger than the address space. The theorem of the component is the
  filt's contract: a key it was built from is never reported absent.
\<close>

unbundle bit_operations_syntax

section \<open>The hash\<close>

definition bloom_seed :: u32 where "bloom_seed = 0xbc9f1d34"

definition bloom_m :: u32 where "bloom_m = 0xc6a4a793"

text \<open>The word loop: four bytes at a time; returns the state and the 0 to 3 bytes left.\<close>

fun bloom_hash_words :: "u32 \<Rightarrow> bytes \<Rightarrow> u32 \<times> bytes" where
  "bloom_hash_words h (d0 # d1 # d2 # d3 # data) =
     (let w = ucast d0 OR push_bit 8 (ucast d1) OR push_bit 16 (ucast d2) OR push_bit 24 (ucast d3);
          h1 = (h + w) * bloom_m;
          h2 = h1 XOR drop_bit 16 h1
      in bloom_hash_words h2 data)"
| "bloom_hash_words h data = (h, data)"

text \<open>The fall-through switch on the number of bytes left.\<close>

fun bloom_hash_tail :: "u32 \<Rightarrow> bytes \<Rightarrow> u32" where
  "bloom_hash_tail h [] = h"
| "bloom_hash_tail h (d0 # ds) =
     (let h3 = (case ds of [d1, d2] \<Rightarrow> h + push_bit 16 (ucast d2) | _ \<Rightarrow> h);
          h2 = (case ds of d1 # _ \<Rightarrow> h3 + push_bit 8 (ucast d1) | [] \<Rightarrow> h3);
          h1 = (h2 + ucast d0) * bloom_m
      in h1 XOR drop_bit 24 h1)"

definition BloomHash :: "bytes \<Rightarrow> u32" where
  "BloomHash key =
     (let h = bloom_seed XOR ucast (of_nat (length key) * (ucast bloom_m :: u64));
          (h', rest) = bloom_hash_words h key
      in bloom_hash_tail h' rest)"

section \<open>The filter\<close>

text \<open>
  The number of probes. \<open>static_cast<int>(bits_per_key * 0.69)\<close> truncates a double product; after
  the clamp to 1..30 it is the integer quotient below, because the product is an integer (and
  the rounding of the double could matter) only at multiples of 100, which the clamp maps to 30 or 1.
\<close>

definition bloom_k :: "int \<Rightarrow> nat" where
  "bloom_k bits_per_key =
     (let k = (if bits_per_key \<ge> 0 then bits_per_key * 69 div 100 else 0)
      in nat (if k < 1 then 1 else if k > 30 then 30 else k))"

definition bloom_bytes :: "nat \<Rightarrow> int \<Rightarrow> u64" where
  "bloom_bytes nkeys bits_per_key =
     (let bits = of_nat nkeys * (of_int bits_per_key :: u64);
          bits' = (if bits < 64 then 64 else bits)
      in (bits' + 7) div 8)"

definition bloom_delta :: "u32 \<Rightarrow> u32" where
  "bloom_delta h = drop_bit 17 h OR push_bit 15 h"

definition bloom_set_bit :: "nat \<Rightarrow> bytes \<Rightarrow> bytes" where
  "bloom_set_bit bitpos filt =
     filt[bitpos div 8 := (filt ! (bitpos div 8)) OR push_bit (bitpos mod 8) 1]"

fun bloom_add_bits :: "nat \<Rightarrow> nat \<Rightarrow> u32 \<Rightarrow> u32 \<Rightarrow> bytes \<Rightarrow> bytes" where
  "bloom_add_bits 0 bits delta h filt = filt"
| "bloom_add_bits (Suc j) bits delta h filt =
     bloom_add_bits j bits delta (h + delta) (bloom_set_bit (unat h mod bits) filt)"

definition bloom_add_key :: "nat \<Rightarrow> nat \<Rightarrow> bytes \<Rightarrow> bytes \<Rightarrow> bytes" where
  "bloom_add_key k bits key filt =
     (let h = BloomHash key in bloom_add_bits k bits (bloom_delta h) h filt)"

definition BloomFilter_Build :: "bytes list \<Rightarrow> int \<Rightarrow> bytes option" where
  "BloomFilter_Build keys bits_per_key =
     (let k = bloom_k bits_per_key;
          nbytes = unat (bloom_bytes (length keys) bits_per_key);
          bits = nbytes * 8;
          filt = replicate nbytes 0 @ [of_nat k]
      in if nbytes + 1 \<ge> addressable \<or> (bits = 0 \<and> keys \<noteq> []) then None
         else Some (fold (bloom_add_key k bits) keys filt))"

fun bloom_probe :: "nat \<Rightarrow> nat \<Rightarrow> u32 \<Rightarrow> u32 \<Rightarrow> bytes \<Rightarrow> bool" where
  "bloom_probe 0 bits delta h filt = True"
| "bloom_probe (Suc j) bits delta h filt =
     (let bitpos = unat h mod bits in
      if (filt ! (bitpos div 8)) AND push_bit (bitpos mod 8) 1 = 0 then False
      else bloom_probe j bits delta (h + delta) filt)"

definition BloomFilter_MayContain :: "bytes \<Rightarrow> bytes \<Rightarrow> bool" where
  "BloomFilter_MayContain filt key =
     (let len = length filt in
      if len < 1 then True
      else let nbytes = len - 1; bits = nbytes * 8 in
        if bits = 0 then True
        else let k = unat (filt ! (len - 1)) in
          if k > 30 then True
          else let h = BloomHash key in bloom_probe k bits (bloom_delta h) h filt)"

section \<open>No false negatives\<close>

text \<open>Bit \<open>p\<close> of the filt's bit array.\<close>

definition bloom_bit :: "bytes \<Rightarrow> nat \<Rightarrow> bool" where
  "bloom_bit filt p \<longleftrightarrow> bit (filt ! (p div 8)) (p mod 8)"

lemma and_single_bit: "(w AND 2 ^ n = 0) \<longleftrightarrow> \<not> bit w n" for w :: "'a::len word"
  using bit_iff_and_push_bit_not_eq_0 [of w n] by simp

lemma length_bloom_set_bit [simp]: "length (bloom_set_bit p f) = length f"
  by (simp add: bloom_set_bit_def)

lemma bloom_bit_set:
  assumes "p div 8 < length f"
  shows "bloom_bit (bloom_set_bit p f) q \<longleftrightarrow> bloom_bit f q \<or> q = p"
proof -
  have "q = p \<longleftrightarrow> q div 8 = p div 8 \<and> q mod 8 = p mod 8" by (metis div_mult_mod_eq)
  then show ?thesis
    using assms by (auto simp: bloom_bit_def bloom_set_bit_def nth_list_update bit_simps)
qed

lemma length_bloom_add_bits [simp]: "length (bloom_add_bits j bits d h f) = length f"
  by (induction j arbitrary: h f) auto

lemma length_bloom_add_key [simp]: "length (bloom_add_key k bits key f) = length f"
  by (simp add: bloom_add_key_def Let_def)

lemma length_bloom_fold [simp]: "length (fold (bloom_add_key k bits) keys f) = length f"
  by (induction keys arbitrary: f) auto

lemma bloom_pos: "0 < bits \<Longrightarrow> bits \<le> 8 * n \<Longrightarrow> (x mod bits) div 8 < (n :: nat)"
  using mod_less_divisor [of bits x] by linarith

text \<open>Adding bits keeps the bits that were set, the byte after the bit array, and sets its probes.\<close>

lemma bloom_add_bits_mono:
  assumes "0 < bits" and "bits \<le> 8 * n" and "n < length f" and "bloom_bit f q"
  shows "bloom_bit (bloom_add_bits j bits d h f) q"
  using assms
proof (induction j arbitrary: h f)
  case (Suc j)
  then show ?case
    using bloom_pos [of bits n "unat h"] by (simp add: bloom_bit_set)
qed simp

lemma bloom_add_bits_last:
  assumes "0 < bits" and "bits \<le> 8 * n"
  shows "bloom_add_bits j bits d h f ! n = f ! n"
  using assms
proof (induction j arbitrary: h f)
  case (Suc j)
  then show ?case
    using bloom_pos [of bits n "unat h"] by (simp add: bloom_set_bit_def)
qed simp

lemma bloom_probe_add_bits:
  assumes "0 < bits" and "bits \<le> 8 * n" and "n < length f"
    and "\<And>q. bloom_bit (bloom_add_bits j bits d h f) q \<Longrightarrow> bloom_bit g q"
  shows "bloom_probe j bits d h g"
  using assms
proof (induction j arbitrary: h f)
  case (Suc j)
  let ?p = "unat h mod bits"
  have p: "?p div 8 < length f" using bloom_pos [OF Suc.prems(1,2), of "unat h"] Suc.prems(3) by simp
  have "bloom_bit (bloom_add_bits j bits d (h + d) (bloom_set_bit ?p f)) ?p"
    using Suc.prems(1-3) p by (intro bloom_add_bits_mono [of bits n]) (simp_all add: bloom_bit_set)
  with Suc.prems(4) have "bloom_bit g ?p" by simp
  moreover have "bloom_probe j bits d (h + d) g"
    using Suc.prems by (intro Suc.IH [of "bloom_set_bit ?p f"]) simp_all
  ultimately show ?case by (simp add: bloom_bit_def and_single_bit Let_def)
qed simp

lemma bloom_fold_mono:
  assumes "0 < bits" and "bits \<le> 8 * n" and "n < length f" and "bloom_bit f q"
  shows "bloom_bit (fold (bloom_add_key k bits) keys f) q"
  using assms
proof (induction keys arbitrary: f)
  case (Cons key keys)
  then show ?case
    by (simp add: bloom_add_key_def Let_def bloom_add_bits_mono)
qed simp

lemma bloom_fold_last:
  assumes "0 < bits" and "bits \<le> 8 * n"
  shows "fold (bloom_add_key k bits) keys f ! n = f ! n"
  using assms
  by (induction keys arbitrary: f) (simp_all add: bloom_add_key_def Let_def bloom_add_bits_last)

lemma bloom_probe_fold:
  assumes "0 < bits" and "bits \<le> 8 * n" and "n < length f" and "key \<in> set keys"
  shows "bloom_probe k bits (bloom_delta (BloomHash key)) (BloomHash key)
    (fold (bloom_add_key k bits) keys f)"
proof -
  from assms(4) obtain pre post where keys: "keys = pre @ key # post" by (meson split_list)
  let ?f = "fold (bloom_add_key k bits) pre f"
  show ?thesis
    using assms(1-3)
    by (intro bloom_probe_add_bits [of bits n ?f])
      (simp_all add: keys bloom_add_key_def [of _ _ key] Let_def bloom_fold_mono)
qed

lemma bloom_k_range: "1 \<le> bloom_k b" "bloom_k b \<le> 30"
  by (auto simp: bloom_k_def Let_def)

lemma bloom_no_false_negative:
  assumes "BloomFilter_Build keys bits_per_key = Some filt" and "key \<in> set keys"
  shows "BloomFilter_MayContain filt key"
proof -
  let ?k = "bloom_k bits_per_key" and ?n = "unat (bloom_bytes (length keys) bits_per_key)"
  let ?f = "replicate ?n 0 @ [of_nat ?k] :: bytes"
  from assms have n: "0 < ?n" and filt: "filt = fold (bloom_add_key ?k (?n * 8)) keys ?f"
    by (auto simp: BloomFilter_Build_def Let_def split: if_splits)
  have "unat (filt ! ?n) = ?k"
    using n bloom_k_range [of bits_per_key] by (simp add: filt bloom_fold_last nth_append)
  moreover have "bloom_probe ?k (?n * 8) (bloom_delta (BloomHash key)) (BloomHash key) filt"
    unfolding filt using n assms(2) by (intro bloom_probe_fold [of _ ?n]) simp_all
  moreover have "length filt = Suc ?n" by (simp add: filt)
  ultimately show ?thesis by (simp add: BloomFilter_MayContain_def Let_def mult.commute)
qed

section \<open>Properties\<close>

text \<open>C27. A Bloom filter has no false negatives: whatever the bits per key, every key the filter was built from passes the test.\<close>

theorem bloom_filter_complete:
  assumes "BloomFilter_Build keys bits_per_key = Some filt" and "key \<in> set keys"
  shows "BloomFilter_MayContain filt key"
  using assms by (rule bloom_no_false_negative)

lemma bloom_sample_built: "\<exists>filt. BloomFilter_Build [[1], [2, 3]] 10 = Some filt"
  by (simp add: BloomFilter_Build_def Let_def bloom_bytes_def addressable_def word_less_nat_alt)

theorem bloom_filter_complete_witness:
  "\<exists>filt. BloomFilter_Build [[1], [2, 3]] 10 = Some filt \<and> BloomFilter_MayContain filt [2, 3]"
  using bloom_sample_built bloom_filter_complete [of "[[1], [2, 3]]" 10 _ "[2, 3]"] by auto

end
