(* ===== verification/MemTable.thy ===== *)
theory MemTable
  imports Std_Map
begin

text \<open>
  \<open>include/clomdb/memtable.h\<close>: the sorted in-memory table of live values and tombstones, with its
  running size estimate. A key maps to \<open>None\<close> (never written here), to a tombstone or to a live
  value; \<open>mem_lookup\<close> is that reading, and each operation is characterised by it.
\<close>

record MemValue =
  deleted :: bool
  mem_value :: bytes

record MemTable =
  mem_table :: "(bytes, MemValue) std_map"
  approx_bytes :: u64

definition MemTable_empty :: MemTable where
  "MemTable_empty = \<lparr>mem_table = [], approx_bytes = 0\<rparr>"

definition MemTable_Put :: "MemTable \<Rightarrow> bytes \<Rightarrow> bytes \<Rightarrow> MemTable" where
  "MemTable_Put mt key value =
     mt\<lparr>mem_table := map_assign key \<lparr>deleted = False, mem_value = value\<rparr> (mem_table mt),
        approx_bytes := approx_bytes mt + (of_nat (length key) + of_nat (length value))\<rparr>"

definition MemTable_Delete :: "MemTable \<Rightarrow> bytes \<Rightarrow> MemTable" where
  "MemTable_Delete mt key =
     mt\<lparr>mem_table := map_assign key \<lparr>deleted = True, mem_value = []\<rparr> (mem_table mt),
        approx_bytes := approx_bytes mt + of_nat (length key)\<rparr>"

text \<open>Returns whether the key was found, and the contents of the two out-parameters.\<close>

definition MemTable_Get :: "MemTable \<Rightarrow> bytes \<Rightarrow> bytes \<Rightarrow> bool \<Rightarrow> bool \<times> bytes \<times> bool" where
  "MemTable_Get mt key value del =
     (case map_find (mem_table mt) key of
        None \<Rightarrow> (False, value, del)
      | Some mv \<Rightarrow> (True, if deleted mv then value else mem_value mv, deleted mv))"

definition MemTable_ApproximateBytes :: "MemTable \<Rightarrow> u64" where
  "MemTable_ApproximateBytes mt = approx_bytes mt"

definition MemTable_EntryCount :: "MemTable \<Rightarrow> nat" where
  "MemTable_EntryCount mt = length (mem_table mt)"

definition MemTable_is_empty :: "MemTable \<Rightarrow> bool" where
  "MemTable_is_empty mt \<longleftrightarrow> mem_table mt = []"

definition MemTable_Clear :: "MemTable \<Rightarrow> MemTable" where
  "MemTable_Clear mt = mt\<lparr>mem_table := [], approx_bytes := 0\<rparr>"

section \<open>Reading of a table\<close>

text \<open>What one source of data (memtable or table file) says about a key.\<close>

datatype entry = Tombstone | Live bytes

fun mem_entry :: "MemValue \<Rightarrow> entry" where
  "mem_entry mv = (if deleted mv then Tombstone else Live (mem_value mv))"

definition mem_lookup :: "MemTable \<Rightarrow> bytes \<Rightarrow> entry option" where
  "mem_lookup mt k = map_option mem_entry (map_find (mem_table mt) k)"

text \<open>Keys in strictly increasing order; a tombstone holds no value.\<close>

definition MemTable_ok :: "MemTable \<Rightarrow> bool" where
  "MemTable_ok mt \<longleftrightarrow> std_map_ok (mem_table mt) \<and>
     (\<forall>(k, mv) \<in> set (mem_table mt). deleted mv \<longrightarrow> mem_value mv = [])"

lemma set_map_assign_subset: "set (map_assign k v m) \<subseteq> insert (k, v) (set m)"
  by (induction k v m rule: map_assign.induct) auto

lemma MemTable_ok_empty [inv_intros, simp]: "MemTable_ok MemTable_empty"
  by (simp add: MemTable_ok_def MemTable_empty_def)

lemma MemTable_ok_Put [inv_intros]: "MemTable_ok mt \<Longrightarrow> MemTable_ok (MemTable_Put mt k v)"
  using set_map_assign_subset [of k "\<lparr>deleted = False, mem_value = v\<rparr>" "mem_table mt"]
  by (fastforce simp: MemTable_ok_def MemTable_Put_def sm.invar_assign)

lemma MemTable_ok_Delete [inv_intros]: "MemTable_ok mt \<Longrightarrow> MemTable_ok (MemTable_Delete mt k)"
  using set_map_assign_subset [of k "\<lparr>deleted = True, mem_value = []\<rparr>" "mem_table mt"]
  by (fastforce simp: MemTable_ok_def MemTable_Delete_def sm.invar_assign)

lemma MemTable_ok_Clear [inv_intros, simp]: "MemTable_ok (MemTable_Clear mt)"
  by (simp add: MemTable_ok_def MemTable_Clear_def)

lemma mem_lookup_empty [simp]: "mem_lookup MemTable_empty k = None"
  by (simp add: mem_lookup_def MemTable_empty_def map_find_def)

lemma mem_lookup_Clear [simp]: "mem_lookup (MemTable_Clear mt) k = None"
  by (simp add: mem_lookup_def MemTable_Clear_def map_find_def)

lemma mem_lookup_Put:
  "mem_lookup (MemTable_Put mt k v) k' = (if k' = k then Some (Live v) else mem_lookup mt k')"
  by (simp add: mem_lookup_def MemTable_Put_def map_find_def find_map_assign)

lemma mem_lookup_Delete:
  "mem_lookup (MemTable_Delete mt k) k' = (if k' = k then Some Tombstone else mem_lookup mt k')"
  by (simp add: mem_lookup_def MemTable_Delete_def map_find_def find_map_assign)

lemma MemTable_Get_lookup:
  "MemTable_Get mt k v d =
    (case mem_lookup mt k of
       None \<Rightarrow> (False, v, d)
     | Some Tombstone \<Rightarrow> (True, v, True)
     | Some (Live x) \<Rightarrow> (True, x, False))"
  by (simp add: MemTable_Get_def mem_lookup_def split: option.splits)

lemma mem_lookup_None_iff: "mem_lookup mt k = None \<longleftrightarrow> k \<notin> set (map_keys (mem_table mt))"
  by (auto simp: mem_lookup_def map_find_def map_of_eq_None_iff)

lemma MemTable_is_empty_lookup: "MemTable_is_empty mt \<Longrightarrow> mem_lookup mt k = None"
  by (simp add: MemTable_is_empty_def mem_lookup_def map_find_def)

section \<open>Properties\<close>

text \<open>C34. The memtable is a map from keys to values and tombstones: after \<open>Put\<close> a lookup of the key finds the value, after
  \<open>Delete\<close> it finds a tombstone, every other key is as before, and a cleared table finds nothing. The table stays sorted and
  its size estimate grows by exactly the bytes written, modulo the width of \<open>size_t\<close>, and is zero again after \<open>Clear\<close>.\<close>

theorem memtable_map:
  "MemTable_Get (MemTable_Put mt k v) k' x d = (if k' = k then (True, v, False) else MemTable_Get mt k' x d) \<and>
   MemTable_Get (MemTable_Delete mt k) k' x d = (if k' = k then (True, x, True) else MemTable_Get mt k' x d) \<and>
   MemTable_Get (MemTable_Clear mt) k' x d = (False, x, d) \<and>
   (MemTable_ok mt \<longrightarrow> MemTable_ok (MemTable_Put mt k v) \<and> MemTable_ok (MemTable_Delete mt k)) \<and>
   MemTable_ApproximateBytes (MemTable_Put mt k v) =
     MemTable_ApproximateBytes mt + of_nat (length k + length v) \<and>
   MemTable_ApproximateBytes (MemTable_Delete mt k) = MemTable_ApproximateBytes mt + of_nat (length k) \<and>
   MemTable_ApproximateBytes (MemTable_Clear mt) = 0 \<and> MemTable_is_empty (MemTable_Clear mt)"
  by (auto simp: MemTable_Get_lookup mem_lookup_Put mem_lookup_Delete MemTable_ok_Put MemTable_ok_Delete
      MemTable_ApproximateBytes_def) (simp_all add: MemTable_Put_def MemTable_Delete_def MemTable_Clear_def MemTable_is_empty_def)

theorem memtable_map_witness:
  "MemTable_ok MemTable_empty \<and> MemTable_ok (MemTable_Put MemTable_empty [1] [2]) \<and>
   MemTable_Get (MemTable_Put MemTable_empty [1] [2]) [1] [] True = (True, [2], False)"
  using memtable_map [of MemTable_empty "[1]" "[2]" "[1]" "[]" True] by simp

end
