(* ===== verification/WriteBatch.thy ===== *)
theory WriteBatch
  imports Coding Status MemTable
begin

text \<open>
  \<open>include/clomdb/write_batch.h\<close>: the serialised list of operations, how it is built, and the
  parser that drives a handler. The handler is a pair of functions on a state; every run of the
  parser is shown to be the handler folded over the operations the bytes encode, so that the
  memtable, the log replay and any other handler see the same operations in the same order. Which operations
  these are is given by a grammar of the format (\<open>batch_code\<close>) that does not mention the parser.
\<close>

record WriteBatch =
  rep :: bytes
  count :: u64

text \<open>\<open>enum class RecordType : uint8_t\<close>.\<close>

definition RecordType_kPut :: byte where "RecordType_kPut = 1"

definition RecordType_kDelete :: byte where "RecordType_kDelete = 2"

definition WriteBatch_empty :: WriteBatch where
  "WriteBatch_empty = \<lparr>rep = [], count = 0\<rparr>"

definition WriteBatch_Put :: "WriteBatch \<Rightarrow> bytes \<Rightarrow> bytes \<Rightarrow> WriteBatch" where
  "WriteBatch_Put b key value =
     b\<lparr>rep := PutLengthPrefixedSlice
                (PutLengthPrefixedSlice (rep b @ [RecordType_kPut]) key) value,
       count := count b + 1\<rparr>"

definition WriteBatch_Delete :: "WriteBatch \<Rightarrow> bytes \<Rightarrow> WriteBatch" where
  "WriteBatch_Delete b key =
     b\<lparr>rep := PutLengthPrefixedSlice (rep b @ [RecordType_kDelete]) key,
       count := count b + 1\<rparr>"

definition WriteBatch_Clear :: "WriteBatch \<Rightarrow> WriteBatch" where
  "WriteBatch_Clear b = b\<lparr>rep := [], count := 0\<rparr>"

definition WriteBatch_is_empty :: "WriteBatch \<Rightarrow> bool" where
  "WriteBatch_is_empty b \<longleftrightarrow> count b = 0"

definition WriteBatch_SetData :: "WriteBatch \<Rightarrow> bytes \<Rightarrow> WriteBatch" where
  "WriteBatch_SetData b d = b\<lparr>rep := d\<rparr>"

text \<open>The parsing loop: final status, number of operations seen, final handler state.\<close>

function Iterate_loop ::
  "('s \<Rightarrow> bytes \<Rightarrow> bytes \<Rightarrow> 's) \<Rightarrow> ('s \<Rightarrow> bytes \<Rightarrow> 's) \<Rightarrow> bytes \<Rightarrow> u64 \<Rightarrow> 's \<Rightarrow> Status \<times> u64 \<times> 's" where
  "Iterate_loop put del [] seen s = (Status_OK, seen, s)"
| "Iterate_loop put del (tag # input) seen s =
     (if tag = RecordType_kPut then
        (case GetLengthPrefixedSlice input of
           None \<Rightarrow> (Status_Corruption ''malformed WriteBatch (put)'', seen, s)
         | Some (key, input1) \<Rightarrow>
             (case GetLengthPrefixedSlice input1 of
                None \<Rightarrow> (Status_Corruption ''malformed WriteBatch (put)'', seen, s)
              | Some (value, input2) \<Rightarrow>
                  Iterate_loop put del input2 (seen + 1) (put s key value)))
      else if tag = RecordType_kDelete then
        (case GetLengthPrefixedSlice input of
           None \<Rightarrow> (Status_Corruption ''malformed WriteBatch (delete)'', seen, s)
         | Some (key, input1) \<Rightarrow> Iterate_loop put del input1 (seen + 1) (del s key))
      else (Status_Corruption ''unknown WriteBatch tag'', seen, s))"
  by pat_completeness auto
termination
  by (relation "measure (\<lambda>(put, del, input, seen, s). length input)")
    (auto dest!: GetLengthPrefixedSlice_shorter)

definition WriteBatch_Iterate ::
  "WriteBatch \<Rightarrow> ('s \<Rightarrow> bytes \<Rightarrow> bytes \<Rightarrow> 's) \<Rightarrow> ('s \<Rightarrow> bytes \<Rightarrow> 's) \<Rightarrow> 's \<Rightarrow> Status \<times> 's" where
  "WriteBatch_Iterate b put del s =
     (case Iterate_loop put del (rep b) 0 s of
        (st, seen, s') \<Rightarrow>
          if \<not> Status_ok st then (st, s')
          else if seen \<noteq> count b then (Status_Corruption ''WriteBatch count mismatch'', s')
          else (Status_OK, s'))"

section \<open>Operations and their encoding\<close>

datatype batch_op = OpPut bytes bytes | OpDelete bytes

fun op_bytes :: "batch_op \<Rightarrow> bytes" where
  "op_bytes (OpPut k v) = RecordType_kPut # lps_bytes k @ lps_bytes v"
| "op_bytes (OpDelete k) = RecordType_kDelete # lps_bytes k"

fun op_ok :: "batch_op \<Rightarrow> bool" where
  "op_ok (OpPut k v) \<longleftrightarrow> lps_ok k \<and> lps_ok v"
| "op_ok (OpDelete k) \<longleftrightarrow> lps_ok k"

fun batch_add :: "batch_op \<Rightarrow> WriteBatch \<Rightarrow> WriteBatch" where
  "batch_add (OpPut k v) b = WriteBatch_Put b k v"
| "batch_add (OpDelete k) b = WriteBatch_Delete b k"

definition batch_of :: "batch_op list \<Rightarrow> WriteBatch" where
  "batch_of ops = fold batch_add ops WriteBatch_empty"

fun handle_op :: "('s \<Rightarrow> bytes \<Rightarrow> bytes \<Rightarrow> 's) \<Rightarrow> ('s \<Rightarrow> bytes \<Rightarrow> 's) \<Rightarrow> batch_op \<Rightarrow> 's \<Rightarrow> 's" where
  "handle_op put del (OpPut k v) s = put s k v"
| "handle_op put del (OpDelete k) s = del s k"

text \<open>The operations a byte string encodes, up to its first malformed record.\<close>

definition ops_of :: "bytes \<Rightarrow> batch_op list" where
  "ops_of d = snd (snd (Iterate_loop (\<lambda>l k v. l @ [OpPut k v]) (\<lambda>l k. l @ [OpDelete k]) d 0 []))"

section \<open>The parser folds the handler over the encoded operations\<close>

text \<open>What one turn of the loop parses: an error, or an operation and the remaining input.\<close>

fun next_op :: "byte \<Rightarrow> bytes \<Rightarrow> Status + batch_op \<times> bytes" where
  "next_op tag input =
     (if tag = RecordType_kPut then
        (case GetLengthPrefixedSlice input of
           None \<Rightarrow> Inl (Status_Corruption ''malformed WriteBatch (put)'')
         | Some (key, input1) \<Rightarrow>
             (case GetLengthPrefixedSlice input1 of
                None \<Rightarrow> Inl (Status_Corruption ''malformed WriteBatch (put)'')
              | Some (value, input2) \<Rightarrow> Inr (OpPut key value, input2)))
      else if tag = RecordType_kDelete then
        (case GetLengthPrefixedSlice input of
           None \<Rightarrow> Inl (Status_Corruption ''malformed WriteBatch (delete)'')
         | Some (key, input1) \<Rightarrow> Inr (OpDelete key, input1))
      else Inl (Status_Corruption ''unknown WriteBatch tag''))"

lemma Iterate_loop_Cons:
  "Iterate_loop put del (tag # input) seen s =
    (case next_op tag input of
       Inl st \<Rightarrow> (st, seen, s)
     | Inr (op, rest) \<Rightarrow> Iterate_loop put del rest (seen + 1) (handle_op put del op s))"
  by (auto split: option.splits)

lemma next_op_shorter: "next_op tag input = Inr (op, rest) \<Longrightarrow> length rest < length input"
  by (auto split: if_splits option.splits dest!: GetLengthPrefixedSlice_shorter)

declare Iterate_loop.simps(2) [simp del] next_op.simps [simp del]

lemma Iterate_loop_collect:
  "\<exists>st ops.
     Iterate_loop (\<lambda>l k v. l @ [OpPut k v]) (\<lambda>l k. l @ [OpDelete k]) d n l =
       (st, n + of_nat (length ops), l @ ops) \<and>
     Iterate_loop put del d seen s =
       (st, seen + of_nat (length ops), fold (handle_op put del) ops s)"
proof (induction d arbitrary: n l seen s rule: length_induct)
  case (1 d)
  let ?app = "Iterate_loop (\<lambda>l k v. l @ [OpPut k v]) (\<lambda>l k. l @ [OpDelete k])"
  show ?case
  proof (cases d)
    case Nil
    then show ?thesis by simp
  next
    case (Cons tag input)
    show ?thesis
    proof (cases "next_op tag input")
      case (Inl st)
      with Cons show ?thesis by (intro exI [of _ st] exI [of _ "[]"]) (simp add: Iterate_loop_Cons)
    next
      case (Inr r)
      then obtain op rest where r: "next_op tag input = Inr (op, rest)" by (cases r) auto
      with Cons have len: "length rest < length d" by (auto dest: next_op_shorter)
      have app: "handle_op (\<lambda>l k v. l @ [OpPut k v]) (\<lambda>l k. l @ [OpDelete k]) op l = l @ [op]"
        by (cases op) simp_all
      from 1 len obtain st ops where
        "?app rest (n + 1) (l @ [op]) = (st, n + 1 + of_nat (length ops), (l @ [op]) @ ops)"
        "Iterate_loop put del rest (seen + 1) (handle_op put del op s) =
          (st, seen + 1 + of_nat (length ops), fold (handle_op put del) ops (handle_op put del op s))"
        by meson
      with Cons r app show ?thesis
        by (intro exI [of _ st] exI [of _ "op # ops"]) (simp add: Iterate_loop_Cons)
    qed
  qed
qed

lemma Iterate_loop_fold:
  obtains st where "Iterate_loop put del d seen s =
    (st, seen + of_nat (length (ops_of d)), fold (handle_op put del) (ops_of d) s)"
  using Iterate_loop_collect [of d 0 "[]" put del seen s] by (auto simp: ops_of_def)

lemma Iterate_state: "snd (WriteBatch_Iterate b put del s) = fold (handle_op put del) (ops_of (rep b)) s"
  by (rule Iterate_loop_fold [of put del "rep b" 0 s]) (simp add: WriteBatch_Iterate_def)

section \<open>The grammar of batches\<close>

text \<open>
  The format as the comment on the class gives it: a type byte, 1 for a put and 2 for a delete, the key, and for a
  put the value, each after its length as a varint. A byte string is parsed into operations and a rest at which no
  further operation starts.
\<close>

fun op_code :: "batch_op \<Rightarrow> bytes \<Rightarrow> bool" where
  "op_code (OpPut k v) bs \<longleftrightarrow> (\<exists>kb vb. slice_code k kb \<and> slice_code v vb \<and> bs = 1 # kb @ vb)"
| "op_code (OpDelete k) bs \<longleftrightarrow> (\<exists>kb. slice_code k kb \<and> bs = 2 # kb)"

inductive batch_code :: "batch_op list \<Rightarrow> bytes \<Rightarrow> bool" where
  batch_code_Nil: "batch_code [] []"
| batch_code_Cons: "op_code op bs \<Longrightarrow> batch_code ops bss \<Longrightarrow> batch_code (op # ops) (bs @ bss)"

definition op_starts :: "bytes \<Rightarrow> bool" where
  "op_starts d \<longleftrightarrow> (\<exists>op bs rest. op_code op bs \<and> d = bs @ rest)"

definition batch_parses :: "bytes \<Rightarrow> batch_op list \<Rightarrow> bytes \<Rightarrow> bool" where
  "batch_parses d ops bad \<longleftrightarrow> (\<exists>enc. batch_code ops enc \<and> d = enc @ bad) \<and> \<not> op_starts bad"

text \<open>The verdict on a parse: the first byte of the rest tells which error it is.\<close>

definition batch_verdict :: "bytes \<Rightarrow> nat \<Rightarrow> u64 \<Rightarrow> Status" where
  "batch_verdict bad n cnt =
     (if bad \<noteq> [] then
        Status_Corruption
          (if hd bad = 1 then ''malformed WriteBatch (put)'' else if hd bad = 2 then ''malformed WriteBatch (delete)''
           else ''unknown WriteBatch tag'')
      else if of_nat n \<noteq> cnt then Status_Corruption ''WriteBatch count mismatch''
      else Status_OK)"

lemma next_op_code: "next_op tag input = Inr (op, rest) \<longleftrightarrow> (\<exists>bs. op_code op bs \<and> tag # input = bs @ rest)"
proof (cases op)
  case (OpPut k v)
  have "next_op tag input = Inr (op, rest) \<longleftrightarrow> tag = 1 \<and>
      (\<exists>input1. GetLengthPrefixedSlice input = Some (k, input1) \<and> GetLengthPrefixedSlice input1 = Some (v, rest))"
    by (auto simp: OpPut next_op.simps RecordType_kPut_def RecordType_kDelete_def split: option.splits if_splits)
  also have "\<dots> \<longleftrightarrow> tag = 1 \<and> (\<exists>kb vb. slice_code k kb \<and> slice_code v vb \<and> input = kb @ vb @ rest)"
    unfolding GetLengthPrefixedSlice_code by blast
  also have "\<dots> \<longleftrightarrow> (\<exists>bs. op_code op bs \<and> tag # input = bs @ rest)" by (simp add: OpPut) fastforce
  finally show ?thesis .
next
  case (OpDelete k)
  have "next_op tag input = Inr (op, rest) \<longleftrightarrow> tag = 2 \<and> GetLengthPrefixedSlice input = Some (k, rest)"
    by (auto simp: OpDelete next_op.simps RecordType_kPut_def RecordType_kDelete_def split: option.splits if_splits)
  then show ?thesis by (auto simp: OpDelete GetLengthPrefixedSlice_code)
qed

lemma next_op_error:
  "next_op tag input = Inl st \<Longrightarrow> st = batch_verdict (tag # input) n cnt"
  by (auto simp: next_op.simps batch_verdict_def RecordType_kPut_def RecordType_kDelete_def split: option.splits if_splits)

lemma op_starts_iff: "op_starts (tag # input) \<longleftrightarrow> (\<exists>op rest. next_op tag input = Inr (op, rest))"
  unfolding op_starts_def next_op_code by blast

lemma op_code_nonempty: "op_code op bs \<Longrightarrow> bs \<noteq> []"
  by (cases op) auto

lemma op_starts_Nil [simp]: "\<not> op_starts []"
  by (auto simp: op_starts_def dest: op_code_nonempty)

lemma Iterate_loop_code:
  assumes "op_code op bs"
  shows "Iterate_loop put del (bs @ rest) seen s = Iterate_loop put del rest (seen + 1) (handle_op put del op s)"
proof -
  obtain tag input where t: "bs @ rest = tag # input" using op_code_nonempty [OF assms] by (cases bs) auto
  then have "next_op tag input = Inr (op, rest)" unfolding next_op_code using assms by (metis t)
  then show ?thesis by (simp add: t Iterate_loop_Cons)
qed

lemma Iterate_loop_rest:
  "\<not> op_starts bad \<Longrightarrow> \<exists>st. Iterate_loop put del bad seen s = (st, seen, s) \<and>
    (Status_ok st \<longleftrightarrow> bad = []) \<and> (bad \<noteq> [] \<longrightarrow> st = batch_verdict bad n cnt)"
proof (cases bad)
  case (Cons tag input)
  assume "\<not> op_starts bad"
  then obtain st where "next_op tag input = Inl st" using Cons by (cases "next_op tag input") (auto simp: op_starts_iff)
  then show ?thesis using Cons next_op_error [of tag input st n cnt]
    by (auto simp: Iterate_loop_Cons batch_verdict_def)
qed simp

lemma Iterate_loop_batch:
  "batch_code ops enc \<Longrightarrow> Iterate_loop put del (enc @ bad) seen s =
    Iterate_loop put del bad (seen + of_nat (length ops)) (fold (handle_op put del) ops s)"
  by (induction arbitrary: seen s rule: batch_code.induct) (simp_all add: Iterate_loop_code add.assoc add.commute [of 1])

lemma batch_parses_exists: "\<exists>ops bad. batch_parses d ops bad"
proof (induction d rule: length_induct)
  case (1 d)
  show ?case
  proof (cases "op_starts d")
    case False
    then show ?thesis unfolding batch_parses_def by (metis append_Nil batch_code_Nil)
  next
    case True
    then obtain op bs rest where d: "op_code op bs" "d = bs @ rest" unfolding op_starts_def by blast
    then have "length rest < length d" using op_code_nonempty [OF d(1)] by simp
    with 1 obtain ops bad where "batch_parses rest ops bad" by blast
    then have "batch_parses d (op # ops) bad"
      unfolding batch_parses_def using d batch_code_Cons by (metis append_assoc)
    then show ?thesis by blast
  qed
qed

lemma Iterate_parsed:
  assumes "batch_parses (rep b) ops bad"
  shows "WriteBatch_Iterate b put del s =
    (batch_verdict bad (length ops) (count b), fold (handle_op put del) ops s)"
proof -
  obtain enc where enc: "batch_code ops enc" "rep b = enc @ bad" and bad: "\<not> op_starts bad"
    using assms unfolding batch_parses_def by blast
  obtain st where "Iterate_loop put del (rep b) 0 s = (st, of_nat (length ops), fold (handle_op put del) ops s)"
    "Status_ok st \<longleftrightarrow> bad = []" "bad \<noteq> [] \<longrightarrow> st = batch_verdict bad (length ops) (count b)"
    using Iterate_loop_batch [OF enc(1), of put del bad 0 s] enc(2) Iterate_loop_rest [OF bad] by fastforce
  then show ?thesis by (auto simp: WriteBatch_Iterate_def batch_verdict_def)
qed

section \<open>Round trip of a built batch\<close>

lemma RecordTypes_distinct [simp]: "RecordType_kDelete \<noteq> RecordType_kPut"
  by (simp add: RecordType_kPut_def RecordType_kDelete_def)

lemma Iterate_loop_op:
  assumes "op_ok op"
  shows "Iterate_loop put del (op_bytes op @ rest) seen s =
    Iterate_loop put del rest (seen + 1) (handle_op put del op s)"
  using assms
  by (cases op) (simp_all add: Iterate_loop_Cons next_op.simps GetLengthPrefixedSlice_encoded)

lemma Iterate_loop_ops:
  assumes "list_all op_ok ops"
  shows "Iterate_loop put del (concat (map op_bytes ops) @ rest) seen s =
    Iterate_loop put del rest (seen + of_nat (length ops)) (fold (handle_op put del) ops s)"
  using assms
  by (induction ops arbitrary: seen s) (simp_all add: Iterate_loop_op add.assoc add.commute [of 1])

lemma rep_batch_fold:
  "rep (fold batch_add ops b) = rep b @ concat (map op_bytes ops)"
proof (induction ops arbitrary: b)
  case (Cons op ops)
  then show ?case
    by (cases op) (simp_all add: WriteBatch_Put_def WriteBatch_Delete_def PutLengthPrefixedSlice_eq)
qed simp

lemma count_batch_fold: "count (fold batch_add ops b) = count b + of_nat (length ops)"
proof (induction ops arbitrary: b)
  case (Cons op ops)
  then show ?case
    by (cases op) (simp_all add: WriteBatch_Put_def WriteBatch_Delete_def)
qed simp

lemma rep_batch_of: "rep (batch_of ops) = concat (map op_bytes ops)"
  by (simp add: batch_of_def rep_batch_fold WriteBatch_empty_def)

lemma count_batch_of: "count (batch_of ops) = of_nat (length ops)"
  by (simp add: batch_of_def count_batch_fold WriteBatch_empty_def)

lemma Iterate_batch_of:
  assumes "list_all op_ok ops"
  shows "WriteBatch_Iterate (batch_of ops) put del s = (Status_OK, fold (handle_op put del) ops s)"
  using Iterate_loop_ops [OF assms, of put del "[]" 0 s]
  by (simp add: WriteBatch_Iterate_def rep_batch_of count_batch_of)

lemma fold_collect: "fold (handle_op (\<lambda>l k v. l @ [OpPut k v]) (\<lambda>l k. l @ [OpDelete k])) ops l = l @ ops"
proof (induction ops arbitrary: l)
  case (Cons op ops)
  then show ?case by (cases op) simp_all
qed simp

lemma ops_of_encoded: "list_all op_ok ops \<Longrightarrow> ops_of (concat (map op_bytes ops)) = ops"
  using Iterate_loop_ops [of ops "\<lambda>l k v. l @ [OpPut k v]" "\<lambda>l k. l @ [OpDelete k]" "[]" 0 "[]"]
  by (simp add: ops_of_def fold_collect)

section \<open>Applying a batch to a memtable\<close>

text \<open>\<open>MemTableHandler\<close> of \<open>src/db.cpp\<close>.\<close>

abbreviation mem_apply :: "batch_op list \<Rightarrow> MemTable \<Rightarrow> MemTable" where
  "mem_apply ops mt \<equiv> fold (handle_op MemTable_Put MemTable_Delete) ops mt"

fun op_entry :: "batch_op \<Rightarrow> bytes \<times> entry" where
  "op_entry (OpPut k v) = (k, Live v)"
| "op_entry (OpDelete k) = (k, Tombstone)"

lemma MemTable_ok_apply [inv_intros]: "MemTable_ok mt \<Longrightarrow> MemTable_ok (mem_apply ops mt)"
proof (induction ops arbitrary: mt)
  case (Cons op ops)
  then show ?case by (cases op) (simp_all add: inv_intros)
qed simp

lemma mem_lookup_apply:
  "mem_lookup (mem_apply ops mt) k =
    (case map_of (rev (map op_entry ops)) k of Some e \<Rightarrow> Some e | None \<Rightarrow> mem_lookup mt k)"
proof (induction ops arbitrary: mt)
  case (Cons op ops)
  then show ?case
    by (cases op) (auto simp: mem_lookup_Put mem_lookup_Delete map_add_def split: option.splits)
qed simp

section \<open>Properties\<close>

text \<open>C29. A batch built with \<open>Put\<close> and \<open>Delete\<close> from keys and values below 4 GiB drives any handler with exactly those operations, in
  order, and \<open>Iterate\<close> reports success.\<close>

theorem batch_roundtrip:
  assumes "list_all op_ok ops"
  shows "WriteBatch_Iterate (fold batch_add ops WriteBatch_empty) put del s =
    (Status_OK, fold (handle_op put del) ops s)"
  using Iterate_batch_of [OF assms] by (simp add: batch_of_def)

theorem batch_roundtrip_witness:
  "WriteBatch_Iterate (WriteBatch_Delete (WriteBatch_Put WriteBatch_empty [1] [2, 3]) [1]) MemTable_Put MemTable_Delete
     MemTable_empty =
   (Status_OK, MemTable_Delete (MemTable_Put MemTable_empty [1] [2, 3]) [1])"
  using batch_roundtrip [of "[OpPut [1] [2, 3], OpDelete [1]]" MemTable_Put MemTable_Delete MemTable_empty]
  by (simp add: lps_ok_def)

text \<open>C30. On arbitrary bytes the parser does exactly what the format says. Every byte string has a parse into operations of the grammar
  and a rest at which no operation starts; the handler, any handler, gets the operations of that longest well-formed prefix in order, and
  the status tells the error at which the rest begins, a wrong count, or success when nothing is left and the count is right.\<close>

theorem batch_parse_exact:
  "(\<exists>ops bad. batch_parses (rep b) ops bad) \<and>
   (\<forall>ops bad. batch_parses (rep b) ops bad \<longrightarrow>
     WriteBatch_Iterate b put del s = (batch_verdict bad (length ops) (count b), fold (handle_op put del) ops s))"
  by (simp add: batch_parses_exists Iterate_parsed)

text \<open>A put whose lengths are written in two bytes each, and a delete whose key is cut off.\<close>

theorem batch_parse_exact_witness:
  "WriteBatch_Iterate \<lparr>rep = [1, 0x81, 0, 7, 0x80, 0, 2, 9], count = 2\<rparr> MemTable_Put MemTable_Delete MemTable_empty =
    (Status_Corruption ''malformed WriteBatch (delete)'', MemTable_Put MemTable_empty [7] [])"
proof -
  let ?b = "\<lparr>rep = [1, 0x81, 0, 7, 0x80, 0, 2, 9], count = 2\<rparr>"
  have n: "varint32_code 1 [0x81, 0]" "varint32_code 0 [0x80, 0]"
    by (simp_all add: varint32_code_def bit_numeral_rec take_bit_eq_mask mask_eq_exp_minus_1)
  have "slice_code [7] [0x81, 0, 7]" "slice_code [] [0x80, 0]"
    unfolding slice_code_def by (rule exI [of _ 1], rule exI [of _ "[0x81, 0]"], simp add: n)
      (rule exI [of _ 0], rule exI [of _ "[0x80, 0]"], simp add: n)
  then have "op_code (OpPut [7] []) [1, 0x81, 0, 7, 0x80, 0]" by fastforce
  from batch_code_Cons [OF this batch_code_Nil] have "batch_code [OpPut [7] []] [1, 0x81, 0, 7, 0x80, 0]" by simp
  moreover have "\<not> op_starts [2, 9]"
    by (simp add: op_starts_iff next_op.simps RecordType_kPut_def RecordType_kDelete_def GetLengthPrefixedSlice_def
        GetVarint32Ptr_def)
  ultimately have "batch_parses (rep ?b) [OpPut [7] []] [2, 9]" by (force simp: batch_parses_def)
  then show ?thesis using batch_parse_exact [of ?b MemTable_Put MemTable_Delete MemTable_empty]
    by (simp add: batch_verdict_def)
qed

text \<open>C31. A batch filled with \<open>SetData\<close> keeps the count of an empty batch, so it counts as empty, and iterating it reports a count
  mismatch for any well-formed data that holds an operation, although every operation has been handed to the handler.\<close>

theorem set_data_miscounts:
  assumes "list_all op_ok ops" and "0 < length ops" and "length ops < 2 ^ 64"
  shows "WriteBatch_is_empty (WriteBatch_SetData WriteBatch_empty (concat (map op_bytes ops))) \<and>
    WriteBatch_Iterate (WriteBatch_SetData WriteBatch_empty (concat (map op_bytes ops))) put del s =
      (Status_Corruption ''WriteBatch count mismatch'', fold (handle_op put del) ops s)"
proof -
  have "unat (of_nat (length ops) :: u64) \<noteq> 0" using assms(2,3) by simp
  then have "(of_nat (length ops) :: u64) \<noteq> 0" by auto
  then show ?thesis
    using Iterate_loop_ops [OF assms(1), of put del "[]" 0 s]
    by (simp add: WriteBatch_Iterate_def WriteBatch_SetData_def WriteBatch_empty_def WriteBatch_is_empty_def)
qed

theorem set_data_miscounts_witness:
  "WriteBatch_Iterate (WriteBatch_SetData WriteBatch_empty (concat (map op_bytes [OpDelete [7]]))) MemTable_Put
     MemTable_Delete MemTable_empty =
   (Status_Corruption ''WriteBatch count mismatch'', MemTable_Delete MemTable_empty [7])"
  using set_data_miscounts [of "[OpDelete [7]]" MemTable_Put MemTable_Delete MemTable_empty] by (simp add: lps_ok_def)

end
