(* ===== verification/FileSystem.thy ===== *)
theory FileSystem
  imports Prelude "HOL-Library.AList"
begin

text \<open>
  The part of C stdio and \<open>std::filesystem\<close> the engine calls, as functions on an explicit world:
  the files by canonical path, the directories, a schedule of faults and whether the process has
  died. Every call that can fail takes the next item of the schedule (an empty schedule means
  success), so a statement that holds for all worlds holds for every combination of failing
  calls, short writes, unreadable file tails and crash points.

  A crash freezes the files: from then on every call fails and changes nothing, so the world
  at the end of a run is the disk the next process finds. Only a write can be torn by a crash (a prefix
  of its bytes reaches the file); the other calls happen or do not. stdio's user-space buffer is not
  a separate object: \<open>fwrite\<close> hands its bytes to the file, and \<open>fflush\<close>, \<open>fsync\<close> and
  \<open>fclose\<close> only report. An open handle is represented by the path it was opened with; a
  handle for reading carries the file's size and the prefix of it the device can deliver.
\<close>

type_synonym path = string

datatype errno = ENOENT | EIO

fun strerror :: "errno \<Rightarrow> string" where
  "strerror ENOENT = ''No such file or directory''"
| "strerror EIO = ''Input/output error''"

datatype fault = NoFault | Fail | Short nat | Crash nat

record world =
  files :: "(path \<times> bytes) list"
  dirs :: "path list"
  faults :: "fault list"
  crashed :: bool

record rfile =
  rf_size :: nat
  rf_data :: bytes

section \<open>Paths\<close>

text \<open>Repeated separators name the same file.\<close>

fun canon :: "path \<Rightarrow> path" where
  "canon [] = []"
| "canon [c] = [c]"
| "canon (c # d # s) = (if c = CHR ''/'' \<and> d = CHR ''/'' then canon (d # s) else c # canon (d # s))"

text \<open>A directory may be named with a trailing separator.\<close>

definition canon_dir :: "path \<Rightarrow> path" where
  "canon_dir p =
     (let q = canon p in if 1 < length q \<and> last q = CHR ''/'' then butlast q else q)"

text \<open>\<open>std::filesystem::path::operator/\<close>: a separator is added only where one is missing.\<close>

definition path_append :: "path \<Rightarrow> string \<Rightarrow> path" where
  "path_append dir name =
     (if dir \<noteq> [] \<and> last dir = CHR ''/'' then dir @ name else dir @ ''/'' @ name)"

text \<open>\<open>path::extension\<close> of a file name: from the last dot on, none for a leading dot.\<close>

definition path_extension :: "string \<Rightarrow> string" where
  "path_extension name =
     (let stem = rev (tl (dropWhile (\<lambda>c. c \<noteq> CHR ''.'') (rev name)))
      in if CHR ''.'' \<notin> set name \<or> stem = [] \<or> name = ''..'' then []
         else drop (length stem) name)"

section \<open>Calls\<close>

definition fget :: "world \<Rightarrow> path \<Rightarrow> bytes option" where
  "fget w p = map_of (files w) (canon p)"

definition fset :: "path \<Rightarrow> bytes \<Rightarrow> world \<Rightarrow> world" where
  "fset p d w = w\<lparr>files := AList.update (canon p) d (files w)\<rparr>"

definition fdel :: "path \<Rightarrow> world \<Rightarrow> world" where
  "fdel p w = w\<lparr>files := AList.delete (canon p) (files w)\<rparr>"

definition next_fault :: "world \<Rightarrow> fault \<times> world" where
  "next_fault w =
     (if crashed w then (Fail, w)
      else case faults w of
             [] \<Rightarrow> (NoFault, w)
           | Crash n # fs \<Rightarrow> (Crash n, w\<lparr>faults := fs, crashed := True\<rparr>)
           | f # fs \<Rightarrow> (f, w\<lparr>faults := fs\<rparr>))"

text \<open>\<open>fopen(path, "wb")\<close>: an empty file, or an error.\<close>

definition fopen_wb :: "path \<Rightarrow> world \<Rightarrow> (errno + unit) \<times> world" where
  "fopen_wb p w =
     (case next_fault w of
        (Fail, w') \<Rightarrow> (Inl EIO, w')
      | (Crash _, w') \<Rightarrow> (Inl EIO, w')
      | (_, w') \<Rightarrow> (Inr (), fset p [] w'))"

text \<open>\<open>fopen(path, "ab")\<close>: the existing contents, or a new empty file.\<close>

definition fopen_ab :: "path \<Rightarrow> world \<Rightarrow> (errno + unit) \<times> world" where
  "fopen_ab p w =
     (case next_fault w of
        (Fail, w') \<Rightarrow> (Inl EIO, w')
      | (Crash _, w') \<Rightarrow> (Inl EIO, w')
      | (_, w') \<Rightarrow> (Inr (), if fget w' p = None then fset p [] w' else w'))"

text \<open>\<open>fopen(path, "rb")\<close>; after \<open>Short n\<close> the device delivers only the first \<open>n\<close> bytes.\<close>

definition fopen_rb :: "path \<Rightarrow> world \<Rightarrow> (errno + rfile) \<times> world" where
  "fopen_rb p w =
     (case next_fault w of
        (Fail, w') \<Rightarrow> (Inl EIO, w')
      | (Crash _, w') \<Rightarrow> (Inl EIO, w')
      | (f, w') \<Rightarrow>
          ((case fget w' p of
              None \<Rightarrow> Inl ENOENT
            | Some d \<Rightarrow> Inr \<lparr>rf_size = length d,
                rf_data = (case f of Short n \<Rightarrow> take n d | _ \<Rightarrow> d)\<rparr>), w'))"

text \<open>\<open>fwrite\<close> at the end of an open file: the number of bytes it reports written.\<close>

definition fwrite :: "path \<Rightarrow> bytes \<Rightarrow> world \<Rightarrow> nat \<times> world" where
  "fwrite p d w =
     (case next_fault w of
        (NoFault, w') \<Rightarrow> (length d, fset p (the_default [] (fget w' p) @ d) w')
      | (Short n, w') \<Rightarrow> (min n (length d), fset p (the_default [] (fget w' p) @ take n d) w')
      | (Crash n, w') \<Rightarrow> (0, fset p (the_default [] (fget w' p) @ take n d) w')
      | (Fail, w') \<Rightarrow> (0, w'))"

text \<open>\<open>fflush\<close>, \<open>fsync\<close> and a checked \<open>fclose\<close>: whether the call reports success.\<close>

definition fsync_call :: "world \<Rightarrow> bool \<times> world" where
  "fsync_call w =
     (case next_fault w of
        (Fail, w') \<Rightarrow> (False, w')
      | (Crash _, w') \<Rightarrow> (False, w')
      | (_, w') \<Rightarrow> (True, w'))"

definition frename :: "path \<Rightarrow> path \<Rightarrow> world \<Rightarrow> bool \<times> world" where
  "frename p q w =
     (case next_fault w of
        (Fail, w') \<Rightarrow> (False, w')
      | (Crash _, w') \<Rightarrow> (False, w')
      | (_, w') \<Rightarrow>
          (case fget w' p of
             None \<Rightarrow> (False, w')
           | Some d \<Rightarrow> (True, fset q d (fdel p w'))))"

text \<open>\<open>std::remove\<close> and \<open>fs::remove\<close>, whose results the engine ignores.\<close>

definition fremove :: "path \<Rightarrow> world \<Rightarrow> world" where
  "fremove p w =
     (case next_fault w of
        (Fail, w') \<Rightarrow> w'
      | (Crash _, w') \<Rightarrow> w'
      | (_, w') \<Rightarrow> fdel p w')"

text \<open>\<open>fs::file_size\<close> with an error code: all ones on error.\<close>

definition fs_file_size :: "path \<Rightarrow> world \<Rightarrow> u64 \<times> world" where
  "fs_file_size p w =
     (case next_fault w of
        (Fail, w') \<Rightarrow> (-1, w')
      | (Crash _, w') \<Rightarrow> (-1, w')
      | (_, w') \<Rightarrow> ((case fget w' p of None \<Rightarrow> -1 | Some d \<Rightarrow> of_nat (length d)), w'))"

definition fs_exists :: "path \<Rightarrow> world \<Rightarrow> bool" where
  "fs_exists p w \<longleftrightarrow> canon_dir p \<in> set (dirs w) \<or> fget w p \<noteq> None"

definition fs_create_directories :: "path \<Rightarrow> world \<Rightarrow> bool \<times> world" where
  "fs_create_directories p w =
     (case next_fault w of
        (Fail, w') \<Rightarrow> (False, w')
      | (Crash _, w') \<Rightarrow> (False, w')
      | (_, w') \<Rightarrow> (True, w'\<lparr>dirs := canon_dir p # dirs w'\<rparr>))"

text \<open>\<open>fs::directory_iterator\<close>: the names of the files directly inside a directory.\<close>

definition fs_list :: "path \<Rightarrow> world \<Rightarrow> string list" where
  "fs_list dir w =
     (let pre = canon (dir @ ''/'') in
      map (drop (length pre))
        (filter (\<lambda>p. take (length pre) p = pre \<and> CHR ''/'' \<notin> set (drop (length pre) p))
          (map fst (files w))))"

text \<open>The iterator as the engine opens it, with an error code: nothing to visit on error.\<close>

definition fs_directory_iterator :: "path \<Rightarrow> world \<Rightarrow> string list \<times> world" where
  "fs_directory_iterator dir w =
     (case next_fault w of
        (Fail, w') \<Rightarrow> ([], w')
      | (Crash _, w') \<Rightarrow> ([], w')
      | (_, w') \<Rightarrow> (fs_list dir w', w'))"

text \<open>
  \<open>fs::remove_all\<close>: a file, or a directory with everything below it; false where it throws. It may fail or
  be cut off after some of the files are gone.
\<close>

definition fs_below :: "path \<Rightarrow> path \<Rightarrow> bool" where
  "fs_below p q \<longleftrightarrow> q = canon_dir p \<or> take (length (canon_dir p) + 1) q = canon_dir p @ ''/''"

definition fs_remove_files :: "path \<Rightarrow> nat \<Rightarrow> world \<Rightarrow> world" where
  "fs_remove_files p n w =
     w\<lparr>files := filter (\<lambda>(q, _). \<not> fs_below p q) (take n (files w)) @ drop n (files w)\<rparr>"

definition fs_remove_all :: "path \<Rightarrow> world \<Rightarrow> bool \<times> world" where
  "fs_remove_all p w =
     (case next_fault w of
        (NoFault, w') \<Rightarrow>
          (True, (fs_remove_files p (length (files w')) w')\<lparr>dirs := filter (\<lambda>q. \<not> fs_below p q) (dirs w')\<rparr>)
      | (Fail, w') \<Rightarrow> (False, w')
      | (Short n, w') \<Rightarrow> (False, fs_remove_files p n w')
      | (Crash n, w') \<Rightarrow> (False, fs_remove_files p n w'))"

text \<open>The next process starts on the same files with its own schedule of faults.\<close>

definition reboot :: "fault list \<Rightarrow> world \<Rightarrow> world" where
  "reboot fs w = w\<lparr>faults := fs, crashed := False\<rparr>"

text \<open>The process dies (an uncaught exception or an arithmetic trap).\<close>

definition abort_process :: "world \<Rightarrow> world" where
  "abort_process w = w\<lparr>crashed := True\<rparr>"

section \<open>Facts about paths\<close>

lemma canon_append:
  "ys \<noteq> [] \<Longrightarrow> hd ys \<noteq> CHR ''/'' \<Longrightarrow> canon (xs @ ys) = canon xs @ canon ys"
proof (induction xs rule: canon.induct)
  case (2 c)
  then show ?case by (cases ys) auto
qed auto

lemma canon_no_slash: "CHR ''/'' \<notin> set s \<Longrightarrow> canon s = s"
  by (induction s rule: canon.induct) auto

text \<open>Two plain names in the same directory are the same file only if they are the same name.\<close>

definition plain_name :: "string \<Rightarrow> bool" where
  "plain_name n \<longleftrightarrow> n \<noteq> [] \<and> CHR ''/'' \<notin> set n"

lemma canon_under: "plain_name n \<Longrightarrow> canon (d @ ''/'' @ n) = canon (d @ ''/'') @ n"
  using canon_append [of n "d @ ''/''"] by (cases n) (auto simp: plain_name_def canon_no_slash)

lemma canon_under_eq_iff:
  "plain_name n \<Longrightarrow> plain_name m \<Longrightarrow> canon (d @ ''/'' @ n) = canon (d @ ''/'' @ m) \<longleftrightarrow> n = m"
  by (simp add: canon_under del: append_Cons append_Nil)

section \<open>What a call leaves alone\<close>

text \<open>
  Between two worlds only the files of \<open>P\<close> (canonical paths) differ, the schedule has only been used
  up, and nothing at all has changed when the process was already dead.
\<close>

definition changes_only :: "path set \<Rightarrow> world \<Rightarrow> world \<Rightarrow> bool" where
  "changes_only P w w' \<longleftrightarrow>
     (\<forall>p. p \<notin> P \<longrightarrow> map_of (files w') p = map_of (files w) p) \<and> dirs w' = dirs w \<and>
     set (faults w') \<subseteq> set (faults w) \<and> (crashed w \<longrightarrow> w' = w)"

lemma changes_only_refl [simp, io_frame]: "changes_only P w w"
  by (simp add: changes_only_def)

lemma changes_only_trans:
  "changes_only P w w' \<Longrightarrow> changes_only P w' w'' \<Longrightarrow> changes_only P w w''"
  by (auto simp: changes_only_def)

lemma changes_only_mono: "changes_only P w w' \<Longrightarrow> P \<subseteq> Q \<Longrightarrow> changes_only Q w w'"
  by (auto simp: changes_only_def)

lemma changes_only_fget: "changes_only P w w' \<Longrightarrow> canon p \<notin> P \<Longrightarrow> fget w' p = fget w p"
  by (simp add: changes_only_def fget_def)

lemma changes_only_dirs: "changes_only P w w' \<Longrightarrow> dirs w' = dirs w"
  by (simp add: changes_only_def)

lemma changes_only_faults: "changes_only P w w' \<Longrightarrow> set (faults w') \<subseteq> set (faults w)"
  by (simp add: changes_only_def)

lemma changes_only_crashed: "changes_only P w w' \<Longrightarrow> crashed w \<Longrightarrow> w' = w"
  by (simp add: changes_only_def)

lemma fget_fset [simp]: "fget (fset p d w) q = (if canon q = canon p then Some d else fget w q)"
  by (simp add: fget_def fset_def update_conv')

lemma fget_fdel [simp]: "fget (fdel p w) q = (if canon q = canon p then None else fget w q)"
  by (simp add: fget_def fdel_def delete_conv')

lemma fget_reboot [simp]: "fget (reboot fs w) p = fget w p"
  by (simp add: fget_def reboot_def)

lemma fset_simps [simp]:
  "crashed (fset p d w) = crashed w" "dirs (fset p d w) = dirs w" "faults (fset p d w) = faults w"
  "crashed (fdel p w) = crashed w" "dirs (fdel p w) = dirs w" "faults (fdel p w) = faults w"
  by (simp_all add: fset_def fdel_def)

lemma next_fault_cases:
  obtains (dead) "crashed w" "next_fault w = (Fail, w)"
    | (none) "\<not> crashed w" "faults w = []" "next_fault w = (NoFault, w)"
    | (crash) n fs where "\<not> crashed w" "faults w = Crash n # fs"
        "next_fault w = (Crash n, w\<lparr>faults := fs, crashed := True\<rparr>)"
    | (item) f fs where "\<not> crashed w" "faults w = f # fs" "next_fault w = (f, w\<lparr>faults := fs\<rparr>)" "\<And>n. f \<noteq> Crash n"
proof (cases "crashed w")
  case True
  then show thesis by (intro dead) (simp_all add: next_fault_def)
next
  case alive: False
  show thesis
  proof (cases "faults w")
    case Nil
    with alive show thesis by (intro none) (simp_all add: next_fault_def)
  next
    case (Cons f fs)
    then show thesis
      by (cases f) (use alive in \<open>auto simp: next_fault_def intro: crash item\<close>)
  qed
qed

lemma fset_changes [simp]:
  "map_of (files (fset p d w)) q = (if q = canon p then Some d else map_of (files w) q)"
  by (simp add: fset_def update_conv')

lemma fdel_changes [simp]:
  "map_of (files (fdel p w)) q = (if q = canon p then None else map_of (files w) q)"
  by (simp add: fdel_def delete_conv')

lemma fget_faults [simp]: "fget (w\<lparr>faults := fs\<rparr>) p = fget w p"
  "fget (w\<lparr>crashed := c\<rparr>) p = fget w p"
  by (simp_all add: fget_def)

lemma fopen_wb_frame [io_frame]: "changes_only {canon p} w (snd (fopen_wb p w))"
  by (rule next_fault_cases [of w])
    (auto simp: fopen_wb_def changes_only_def split: fault.splits)

lemma fopen_ab_frame [io_frame]: "changes_only {canon p} w (snd (fopen_ab p w))"
  by (rule next_fault_cases [of w])
    (auto simp: fopen_ab_def changes_only_def split: fault.splits)

lemma fopen_rb_frame [io_frame]: "changes_only P w (snd (fopen_rb p w))"
  by (rule next_fault_cases [of w])
    (auto simp: fopen_rb_def changes_only_def split: fault.splits)

lemma fwrite_frame [io_frame]: "changes_only {canon p} w (snd (fwrite p d w))"
  by (rule next_fault_cases [of w])
    (auto simp: fwrite_def changes_only_def split: fault.splits)

lemma fsync_call_frame [io_frame]: "changes_only P w (snd (fsync_call w))"
  by (rule next_fault_cases [of w])
    (auto simp: fsync_call_def changes_only_def split: fault.splits)

lemma frename_frame [io_frame]: "changes_only {canon p, canon q} w (snd (frename p q w))"
  by (rule next_fault_cases [of w])
    (auto simp: frename_def changes_only_def split: fault.splits option.splits)

lemma fremove_frame [io_frame]: "changes_only {canon p} w (fremove p w)"
  by (rule next_fault_cases [of w])
    (auto simp: fremove_def changes_only_def split: fault.splits)

lemma fs_file_size_frame [io_frame]: "changes_only P w (snd (fs_file_size p w))"
  by (rule next_fault_cases [of w])
    (auto simp: fs_file_size_def changes_only_def split: fault.splits)

lemma fs_directory_iterator_frame [io_frame]: "changes_only P w (snd (fs_directory_iterator p w))"
  by (rule next_fault_cases [of w])
    (auto simp: fs_directory_iterator_def changes_only_def split: fault.splits)

lemma abort_process_frame [io_frame]: "changes_only P w (abort_process w)"
  by (simp add: abort_process_def changes_only_def)

text \<open>The same facts for a call whose result is known, for forward reasoning through a sequence.\<close>

lemma io_frameD:
  "fopen_wb p w = (a, w') \<Longrightarrow> changes_only {canon p} w w'"
  "fopen_ab p w = (a, w') \<Longrightarrow> changes_only {canon p} w w'"
  "fopen_rb p w = (b, w') \<Longrightarrow> changes_only P w w'"
  "fwrite p d w = (n, w') \<Longrightarrow> changes_only {canon p} w w'"
  "fsync_call w = (ok, w') \<Longrightarrow> changes_only P w w'"
  "frename p q w = (ok, w') \<Longrightarrow> changes_only {canon p, canon q} w w'"
  "fs_file_size p w = (sz, w') \<Longrightarrow> changes_only P w w'"
  "fs_directory_iterator p w = (ns, w') \<Longrightarrow> changes_only P w w'"
  using fopen_wb_frame [of p w] fopen_ab_frame [of p w] fopen_rb_frame [of P w p]
    fwrite_frame [of p w d] fsync_call_frame [of P w] frename_frame [of p q w]
    fs_file_size_frame [of P w p] fs_directory_iterator_frame [of P w p] by auto

section \<open>What a successful call achieves\<close>

lemma fopen_wb_ok: "fopen_wb p w = (Inr u, w') \<Longrightarrow> fget w' p = Some [] \<and> \<not> crashed w'"
  by (rule next_fault_cases [of w]) (auto simp: fopen_wb_def split: fault.splits)

lemma fopen_ab_ok:
  "fopen_ab p w = (Inr u, w') \<Longrightarrow> fget w' p = Some (the_default [] (fget w p)) \<and> \<not> crashed w'"
  by (rule next_fault_cases [of w]) (auto simp: fopen_ab_def split: fault.splits if_splits)

lemma fopen_rb_ok:
  "fopen_rb p w = (Inr r, w') \<Longrightarrow>
    \<exists>d n. fget w p = Some d \<and> r = \<lparr>rf_size = length d, rf_data = take n d\<rparr> \<and> \<not> crashed w'"
  by (rule next_fault_cases [of w])
    (auto simp: fopen_rb_def split: fault.splits option.splits, (metis order_refl take_all)+)

lemma fopen_rb_ENOENT: "fopen_rb p w = (Inl ENOENT, w') \<Longrightarrow> fget w p = None"
  by (rule next_fault_cases [of w])
    (auto simp: fopen_rb_def split: fault.splits option.splits)

lemma fwrite_prefix:
  "fwrite p d w = (n, w') \<Longrightarrow> fget w p = Some old \<Longrightarrow> \<exists>k. fget w' p = Some (old @ take k d)"
  by (rule next_fault_cases [of w])
    (auto simp: fwrite_def split: fault.splits intro: exI [of _ "length d"] exI [of _ 0])

lemma fwrite_full:
  "fwrite p d w = (length d, w') \<Longrightarrow> fget w p = Some old \<Longrightarrow> fget w' p = Some (old @ d)"
  by (rule next_fault_cases [of w])
    (auto simp: fwrite_def min_def split: fault.splits if_splits)

lemma fsync_call_ok: "fsync_call w = (True, w') \<Longrightarrow> \<not> crashed w' \<and> files w' = files w"
  by (rule next_fault_cases [of w]) (auto simp: fsync_call_def split: fault.splits)

lemma fget_fsync_call [simp]: "fget (snd (fsync_call w)) p = fget w p"
  using fsync_call_frame [of "{}" w] by (simp add: changes_only_fget)

lemma frename_ok:
  "frename p q w = (True, w') \<Longrightarrow> canon p \<noteq> canon q \<Longrightarrow>
    fget w' q = fget w p \<and> fget w p \<noteq> None \<and> fget w' p = None \<and> \<not> crashed w'"
  by (rule next_fault_cases [of w])
    (auto simp: frename_def split: fault.splits option.splits)

text \<open>A rename is atomic: the target has its old contents, or exactly the source's.\<close>

lemma frename_atomic:
  "frename p q w = (b, w') \<Longrightarrow> canon p \<noteq> canon q \<Longrightarrow> fget w' q = fget w q \<or> fget w' q = fget w p"
  by (rule next_fault_cases [of w])
    (auto simp: frename_def split: fault.splits option.splits)

section \<open>Calls in a world without faults\<close>

definition calm :: "world \<Rightarrow> bool" where
  "calm w \<longleftrightarrow> \<not> crashed w \<and> faults w = []"

lemma next_fault_calm [simp]: "calm w \<Longrightarrow> next_fault w = (NoFault, w)"
  by (simp add: calm_def next_fault_def)

lemma calm_fset [simp]: "calm (fset p d w) = calm w" "calm (fdel p w) = calm w"
  by (simp_all add: calm_def)

lemma calm_reboot [simp]: "calm (reboot [] w)"
  by (simp add: calm_def reboot_def)

lemma calm_calls [simp]:
  assumes "calm w"
  shows "fopen_wb p w = (Inr (), fset p [] w)"
    and "fopen_ab p w = (Inr (), if fget w p = None then fset p [] w else w)"
    and "fopen_rb p w = (case fget w p of None \<Rightarrow> Inl ENOENT
           | Some d \<Rightarrow> Inr \<lparr>rf_size = length d, rf_data = d\<rparr>, w)"
    and "fwrite p d w = (length d, fset p (the_default [] (fget w p) @ d) w)"
    and "fsync_call w = (True, w)"
    and "frename p q w = (case fget w p of None \<Rightarrow> (False, w) | Some d \<Rightarrow> (True, fset q d (fdel p w)))"
    and "fremove p w = fdel p w"
    and "fs_file_size p w = (case fget w p of None \<Rightarrow> -1 | Some d \<Rightarrow> of_nat (length d), w)"
    and "fs_directory_iterator p w = (fs_list p w, w)"
  using assms
  by (simp_all add: fopen_wb_def fopen_ab_def fopen_rb_def fwrite_def fsync_call_def frename_def
      fremove_def fs_file_size_def fs_directory_iterator_def split: option.splits)

end
