(* ===== verification/Wal.thy ===== *)
theory Wal
  imports Crc32c Status FileSystem
begin

text \<open>
  \<open>include/clomdb/wal.h\<close> and \<open>src/wal.cpp\<close>: appending checksummed records to the log and
  replaying them. A log is the path of its open file, if any. Replay is shown to hand the callback
  exactly the records whose frames are intact, in order, up to the first frame that is not; the
  torn-tail and corruption theorems say which frames those are.
\<close>

unbundle bit_operations_syntax

record WriteAheadLog =
  wal_file :: "path option"
  wal_path :: path

definition WriteAheadLog_new :: WriteAheadLog where
  "WriteAheadLog_new = \<lparr>wal_file = None, wal_path = []\<rparr>"

definition WriteAheadLog_Open :: "WriteAheadLog \<Rightarrow> path \<Rightarrow> world \<Rightarrow> Status \<times> WriteAheadLog \<times> world" where
  "WriteAheadLog_Open log path w =
     (case fopen_ab path w of
        (Inl e, w1) \<Rightarrow> (Status_IOError (path @ '': '' @ strerror e),
                        log\<lparr>wal_file := None, wal_path := path\<rparr>, w1)
      | (Inr _, w1) \<Rightarrow> (Status_OK, log\<lparr>wal_file := Some path, wal_path := path\<rparr>, w1))"

text \<open>The bytes \<open>AddRecord\<close> writes: masked checksum, length, payload.\<close>

definition wal_framed :: "bytes \<Rightarrow> bytes" where
  "wal_framed data = PutFixed32 [] (of_nat (length data)) @ data"

definition wal_record :: "bytes \<Rightarrow> bytes" where
  "wal_record data =
     (let framed = wal_framed data; crc = crc_Mask (crc_Value framed)
      in PutFixed32 [] crc @ framed)"

definition WriteAheadLog_Sync :: "WriteAheadLog \<Rightarrow> world \<Rightarrow> Status \<times> world" where
  "WriteAheadLog_Sync log w =
     (case wal_file log of
        None \<Rightarrow> (Status_IOError ''WAL not open'', w)
      | Some _ \<Rightarrow>
          (case fsync_call w of
             (False, w1) \<Rightarrow> (Status_IOError (wal_path log @ '': fflush failed: '' @ strerror EIO), w1)
           | (True, w1) \<Rightarrow>
               (case fsync_call w1 of
                  (False, w2) \<Rightarrow>
                    (Status_IOError (wal_path log @ '': fsync failed: '' @ strerror EIO), w2)
                | (True, w2) \<Rightarrow> (Status_OK, w2))))"

definition WriteAheadLog_AddRecord ::
  "WriteAheadLog \<Rightarrow> bytes \<Rightarrow> bool \<Rightarrow> world \<Rightarrow> Status \<times> world" where
  "WriteAheadLog_AddRecord log data do_sync w =
     (case wal_file log of
        None \<Rightarrow> (Status_IOError ''WAL not open'', w)
      | Some f \<Rightarrow>
          (let rec = wal_record data; (written, w1) = fwrite f rec w in
           if written \<noteq> length rec
           then (Status_IOError (wal_path log @ '': short write to WAL''), w1)
           else if do_sync then WriteAheadLog_Sync log w1
           else (case fsync_call w1 of
                   (False, w2) \<Rightarrow>
                     (Status_IOError (wal_path log @ '': fflush failed: '' @ strerror EIO), w2)
                 | (True, w2) \<Rightarrow> (Status_OK, w2))))"

definition WriteAheadLog_Close ::
  "WriteAheadLog \<Rightarrow> world \<Rightarrow> Status \<times> WriteAheadLog \<times> world" where
  "WriteAheadLog_Close log w =
     (case wal_file log of
        None \<Rightarrow> (Status_OK, log, w)
      | Some _ \<Rightarrow>
          (let (s, w1) = WriteAheadLog_Sync log w; (closed, w2) = fsync_call w1 in
           (if \<not> closed \<and> Status_ok s
            then Status_IOError (wal_path log @ '': fclose failed: '' @ strerror EIO) else s,
            log\<lparr>wal_file := None\<rparr>, w2)))"

text \<open>The read loop of \<open>ReplayAll\<close> over what is left of the file.\<close>

function ReplayAll_loop :: "('s \<Rightarrow> bytes \<Rightarrow> 's) \<Rightarrow> bytes \<Rightarrow> 's \<Rightarrow> 's" where
  "ReplayAll_loop callback rest s =
     (let header = take 8 rest in
      if length header < 8 then s
      else
        let stored_crc = crc_Unmask (DecodeFixed32 header);
            len = DecodeFixed32 (drop 4 header);
            buf = take (unat len) (drop 8 rest)
        in if length buf < unat len then s
           else
             let framed = PutFixed32 [] len @ buf;
                 computed_crc = crc_Value framed
             in if computed_crc \<noteq> stored_crc then s
                else ReplayAll_loop callback (drop (unat len) (drop 8 rest)) (callback s buf))"
  by pat_completeness auto
termination
  by (relation "measure (\<lambda>(callback, rest, s). length rest)") auto

declare ReplayAll_loop.simps [simp del]

definition WriteAheadLog_ReplayAll ::
  "path \<Rightarrow> ('s \<Rightarrow> bytes \<Rightarrow> 's) \<Rightarrow> 's \<Rightarrow> world \<Rightarrow> Status \<times> 's \<times> world" where
  "WriteAheadLog_ReplayAll path callback s w =
     (case fopen_rb path w of
        (Inl ENOENT, w1) \<Rightarrow> (Status_OK, s, w1)
      | (Inl e, w1) \<Rightarrow> (Status_IOError (path @ '': '' @ strerror e), s, w1)
      | (Inr r, w1) \<Rightarrow> (Status_OK, ReplayAll_loop callback (rf_data r) s, w1))"

section \<open>Replay as a fold over the intact records\<close>

text \<open>One turn of the loop: the payload of an intact frame and the rest of the file.\<close>

definition next_record :: "bytes \<Rightarrow> (bytes \<times> bytes) option" where
  "next_record rest =
     (let len = DecodeFixed32 (take 4 (drop 4 rest)); buf = take (unat len) (drop 8 rest) in
      if 8 \<le> length rest \<and> unat len \<le> length (drop 8 rest) \<and>
         crc_Value (PutFixed32 [] len @ buf) = crc_Unmask (DecodeFixed32 (take 8 rest))
      then Some (buf, drop (unat len) (drop 8 rest)) else None)"

definition wal_records :: "bytes \<Rightarrow> bytes list" where
  "wal_records d = ReplayAll_loop (\<lambda>l r. l @ [r]) d []"

lemma ReplayAll_loop_step:
  "ReplayAll_loop cb d s =
    (case next_record d of None \<Rightarrow> s | Some (r, rest) \<Rightarrow> ReplayAll_loop cb rest (cb s r))"
  by (subst ReplayAll_loop.simps) (auto simp: next_record_def Let_def drop_take min_def)

lemma next_record_shorter: "next_record d = Some (r, rest) \<Longrightarrow> length rest < length d"
  by (auto simp: next_record_def Let_def split: if_splits)

lemma ReplayAll_loop_collect: "\<exists>rs. \<forall>l. ReplayAll_loop (\<lambda>l r. l @ [r]) d l = l @ rs"
proof (induction d rule: length_induct)
  case (1 d)
  show ?case
  proof (cases "next_record d")
    case None
    then show ?thesis by (simp add: ReplayAll_loop_step [of _ d])
  next
    case (Some x)
    then obtain r rest where x: "next_record d = Some (r, rest)" by (cases x) auto
    from "1.IH" [rule_format, OF next_record_shorter [OF x]]
    obtain rs where "\<And>l. ReplayAll_loop (\<lambda>l r. l @ [r]) rest l = l @ rs" by blast
    then show ?thesis by (intro exI [of _ "r # rs"]) (simp add: ReplayAll_loop_step [of _ d] x)
  qed
qed

lemma ReplayAll_loop_append: "ReplayAll_loop (\<lambda>l r. l @ [r]) d l = l @ wal_records d"
  using ReplayAll_loop_collect [of d] by (auto simp: wal_records_def)

lemma wal_records_step:
  "wal_records d = (case next_record d of None \<Rightarrow> [] | Some (r, rest) \<Rightarrow> r # wal_records rest)"
  unfolding wal_records_def [of d] ReplayAll_loop_step [of _ d]
  by (simp add: ReplayAll_loop_append split: option.splits)

lemma ReplayAll_loop_fold: "ReplayAll_loop cb d s = fold (\<lambda>r s. cb s r) (wal_records d) s"
proof (induction d arbitrary: s rule: length_induct)
  case (1 d)
  then show ?case
    by (auto simp: ReplayAll_loop_step [of _ d] wal_records_step [of d] next_record_shorter
        split: option.splits)
qed

section \<open>Intact, torn and damaged frames\<close>

definition wal_ok :: "bytes \<Rightarrow> bool" where
  "wal_ok r \<longleftrightarrow> length r < 2 ^ 32"

lemma wal_framed_eq: "wal_framed r = le_bytes 4 (of_nat (length r) :: u32) @ r"
  by (simp add: wal_framed_def PutFixed32_def)

lemma wal_record_eq:
  "wal_record r = le_bytes 4 (crc_Mask (crc_Value (wal_framed r))) @ wal_framed r"
  by (simp add: wal_record_def Let_def PutFixed32_def)

lemma length_wal_record [simp]: "length (wal_record r) = 8 + length r"
  by (simp add: wal_record_eq wal_framed_eq)

text \<open>A frame with its three fields: replay accepts it exactly when the checksum matches.\<close>

lemma next_record_frame:
  fixes c len :: u32
  assumes "unat len = length buf"
  shows "next_record (le_bytes 4 c @ le_bytes 4 len @ buf @ rest) =
    (if crc_Value (le_bytes 4 len @ buf) = crc_Unmask c then Some (buf, rest) else None)"
proof -
  have "DecodeFixed32 (take 4 (drop 4 (le_bytes 4 c @ le_bytes 4 len @ buf @ rest))) = len"
    using DecodeFixed32_encoded [of len "[]"] by simp
  moreover have "DecodeFixed32 (take 8 (le_bytes 4 c @ le_bytes 4 len @ buf @ rest)) = c"
    using DecodeFixed32_encoded [of c "le_bytes 4 len"] by simp
  ultimately show ?thesis
    using assms by (simp add: next_record_def Let_def PutFixed32_def)
qed

lemma next_record_intact:
  assumes "wal_ok r"
  shows "next_record (wal_record r @ rest) = Some (r, rest)"
  using assms next_record_frame [of "of_nat (length r)" r "crc_Mask (crc_Value (wal_framed r))" rest]
  by (simp add: wal_record_eq wal_framed_eq wal_ok_def crc_Unmask_Mask)

interpretation wal_codec: prefix_codec wal_record next_record wal_ok
  by unfold_locales (rule next_record_intact)

lemma wal_records_intact:
  "list_all wal_ok rs \<Longrightarrow> wal_records (concat (map wal_record rs) @ rest) = rs @ wal_records rest"
proof (induction rs)
  case (Cons r rs)
  then show ?case by (simp add: wal_records_step [of "wal_record r @ _"] next_record_intact)
qed simp

lemma wal_records_Nil [simp]: "wal_records [] = []"
  by (subst wal_records_step) (simp add: next_record_def Let_def)

lemma next_record_torn:
  assumes "wal_ok r" and "k < length (wal_record r)"
  shows "next_record (take k (wal_record r)) = None"
proof (cases "k < 8")
  case True
  then show ?thesis by (simp add: next_record_def Let_def)
next
  case False
  then have "take k (wal_record r) =
      le_bytes 4 (crc_Mask (crc_Value (wal_framed r))) @ le_bytes 4 (of_nat (length r) :: u32) @ take (k - 8) r"
    by (simp add: wal_record_eq wal_framed_eq)
  moreover have "DecodeFixed32 (take 4 (le_bytes 4 (of_nat (length r) :: u32) @ x)) = of_nat (length r)" for x
    using DecodeFixed32_encoded [of "of_nat (length r)" "[]"] by simp
  ultimately show ?thesis
    using assms False by (auto simp: next_record_def Let_def wal_ok_def)
qed

text \<open>Damage confined to four consecutive payload bytes is always noticed.\<close>

lemma next_record_damaged:
  assumes "wal_ok (xs @ us @ ys)" and "length vs = length us" and "length us \<le> 4" and "vs \<noteq> us"
  shows "next_record (le_bytes 4 (crc_Mask (crc_Value (wal_framed (xs @ us @ ys)))) @
    le_bytes 4 (of_nat (length (xs @ us @ ys)) :: u32) @ (xs @ vs @ ys) @ rest) = None"
proof -
  let ?len = "of_nat (length (xs @ us @ ys)) :: u32"
  have "crc_ref ((le_bytes 4 ?len @ xs) @ vs @ ys) \<noteq> crc_ref ((le_bytes 4 ?len @ xs) @ us @ ys)"
    using crc_ref_window_inj [of vs us "le_bytes 4 ?len @ xs" ys] assms(2-4) by auto
  moreover have len: "unat ?len = length (xs @ vs @ ys)"
    using assms(1,2) by (simp only: wal_ok_def length_append unat_of_nat_bound len_num1 len_bit0 semiring_norm)
  ultimately show ?thesis
    unfolding next_record_frame [OF len] by (simp add: crc_Unmask_Mask wal_framed_eq crc_Value_ref)
qed

section \<open>The log file\<close>

definition wal_opened :: "path \<Rightarrow> WriteAheadLog" where
  "wal_opened path = \<lparr>wal_file = Some path, wal_path = path\<rparr>"

lemma WriteAheadLog_Sync_frame:
  "WriteAheadLog_Sync log w = (s, w') \<Longrightarrow> changes_only P w w'"
  unfolding WriteAheadLog_Sync_def
  by (auto split: option.splits prod.splits bool.splits dest!: io_frameD(5) [where P = P])
    (meson changes_only_trans)+

lemma WriteAheadLog_Close_frame:
  "WriteAheadLog_Close log w = (s, log', w') \<Longrightarrow> changes_only P w w' \<and> wal_file log' = None"
  unfolding WriteAheadLog_Close_def Let_def
  by (auto split: option.splits prod.splits dest!: io_frameD(5) [where P = P] WriteAheadLog_Sync_frame [where P = P])
    (meson changes_only_trans)+

lemma WriteAheadLog_Open_frame:
  "WriteAheadLog_Open log path w = (s, log', w') \<Longrightarrow> changes_only {canon path} w w'"
  unfolding WriteAheadLog_Open_def by (auto split: sum.splits prod.splits dest!: io_frameD(2))

lemma WriteAheadLog_Open_ok:
  assumes "WriteAheadLog_Open log path w = (s, log', w')" and "Status_ok s"
  shows "log' = wal_opened path \<and> fget w' path = Some (the_default [] (fget w path)) \<and> \<not> crashed w'"
  using assms fopen_ab_ok [of path w]
  by (auto simp: WriteAheadLog_Open_def wal_opened_def split: sum.splits prod.splits)

text \<open>A log that fails to open leaves the file as it was.\<close>

lemma WriteAheadLog_Open_fail:
  assumes "WriteAheadLog_Open log path w = (s, log', w')" and "\<not> Status_ok s"
  shows "fget w' p = fget w p"
  using assms
  by (rule_tac next_fault_cases [of w])
    (auto simp: WriteAheadLog_Open_def fopen_ab_def split: sum.splits prod.splits fault.splits)

lemma WriteAheadLog_Open_closed:
  "WriteAheadLog_Open log path w = (s, log', w') \<Longrightarrow> \<not> Status_ok s \<Longrightarrow> wal_file log' = None"
  by (auto simp: WriteAheadLog_Open_def split: sum.splits prod.splits)

text \<open>An append adds a prefix of the record, and all of it when it reports success.\<close>

lemma WriteAheadLog_AddRecord_effect:
  assumes add: "WriteAheadLog_AddRecord (wal_opened path) data do_sync w = (s, w')"
    and old: "fget w path = Some old"
  obtains k where "fget w' path = Some (old @ take k (wal_record data))"
    and "Status_ok s \<Longrightarrow> fget w' path = Some (old @ wal_record data) \<and> \<not> crashed w'"
    and "changes_only {canon path} w w'"
proof -
  obtain n w1 where w1: "fwrite path (wal_record data) w = (n, w1)" by fastforce
  obtain k where k: "fget w1 path = Some (old @ take k (wal_record data))"
    using fwrite_prefix [OF w1 old] by blast
  have frame1: "changes_only {canon path} w w1" using io_frameD(4) [OF w1] .
  show thesis
  proof (cases "n = length (wal_record data)")
    case False
    then have "w' = w1" "\<not> Status_ok s"
      using add w1 by (auto simp: WriteAheadLog_AddRecord_def wal_opened_def Let_def)
    with k frame1 show thesis by (intro that) simp_all
  next
    case True
    then have sync: "(s, w') = (if do_sync then WriteAheadLog_Sync (wal_opened path) w1
        else case fsync_call w1 of
          (False, w2) \<Rightarrow> (Status_IOError (path @ '': fflush failed: '' @ strerror EIO), w2)
        | (True, w2) \<Rightarrow> (Status_OK, w2))"
      using add w1 by (auto simp: WriteAheadLog_AddRecord_def wal_opened_def Let_def
          split: if_splits prod.splits bool.splits)
    have w': "changes_only {} w1 w'"
      using sync by (auto split: if_splits prod.splits bool.splits
          dest!: sym [of "(s, w')"] WriteAheadLog_Sync_frame [where P = "{}"] io_frameD(5) [where P = "{}"])
    have alive: "\<not> crashed w'" if "Status_ok s"
      using sync that by (auto simp: WriteAheadLog_Sync_def wal_opened_def
          split: if_splits prod.splits bool.splits dest: fsync_call_ok)
    have "changes_only {canon path} w1 w'" using w' by (rule changes_only_mono) simp
    note w' = w' this alive
    have "fget w' path = fget w1 path" using w' by (simp add: changes_only_fget)
    then show thesis
      using k frame1 w' fwrite_full [OF w1 [unfolded True] old]
      by (intro that) (auto intro: changes_only_trans)
  qed
qed

lemma WriteAheadLog_ReplayAll_frame:
  "WriteAheadLog_ReplayAll path cb s0 w = (s, st, w') \<Longrightarrow> changes_only P w w'"
  unfolding WriteAheadLog_ReplayAll_def
  by (auto split: sum.splits prod.splits errno.splits dest!: io_frameD(3) [where P = P])

text \<open>
  A replay that reports success folds the callback over the intact records of what the device
  delivered; without a read fault that is the whole file.
\<close>

lemma WriteAheadLog_ReplayAll_calm:
  assumes "calm w"
  shows "WriteAheadLog_ReplayAll path cb s0 w =
    (Status_OK, fold (\<lambda>r s. cb s r) (wal_records (the_default [] (fget w path))) s0, w)"
  using assms by (simp add: WriteAheadLog_ReplayAll_def ReplayAll_loop_fold split: option.splits)

section \<open>Properties\<close>

text \<open>The file a single fault-free process left behind.\<close>

definition world_with :: "path \<Rightarrow> bytes \<Rightarrow> world" where
  "world_with p d = \<lparr>files = [(canon p, d)], dirs = [], faults = [], crashed = False\<rparr>"

lemma world_with_simps [simp]: "calm (world_with p d)" "fget (world_with p d) p = Some d"
  by (simp_all add: world_with_def calm_def fget_def)

text \<open>C23. Replaying a log that ends in a torn record (any proper prefix of one, including nothing) hands the callback exactly the records
  before it, in order, and reports success.\<close>

theorem replay_stops_at_torn_tail:
  assumes "calm w" and "list_all wal_ok rs" and "wal_ok r" and "k < length (wal_record r)"
    and "fget w path = Some (concat (map wal_record rs) @ take k (wal_record r))"
  shows "WriteAheadLog_ReplayAll path callback s w = (Status_OK, fold (\<lambda>r s. callback s r) rs s, w)"
proof -
  have "wal_records (take k (wal_record r)) = []"
    by (subst wal_records_step) (simp add: next_record_torn [OF assms(3,4)])
  then show ?thesis
    using assms(1,2,5) by (simp add: WriteAheadLog_ReplayAll_calm wal_records_intact del: calm_calls)
qed

theorem replay_stops_at_torn_tail_witness:
  "WriteAheadLog_ReplayAll ''log'' (\<lambda>l r. l @ [r]) []
     (world_with ''log'' (concat (map wal_record [[1, 2], []]) @ take 9 (wal_record [3, 4]))) =
   (Status_OK, [[1, 2], []],
     world_with ''log'' (concat (map wal_record [[1, 2], []]) @ take 9 (wal_record [3, 4])))"
  using replay_stops_at_torn_tail [of "world_with ''log'' (concat (map wal_record [[1, 2], []]) @ take 9 (wal_record [3, 4]))"
      "[[1, 2], []]" "[3, 4]" 9 "''log''" "\<lambda>l r. l @ [r]" "[]"]
  by (simp add: wal_ok_def)

text \<open>Records appended after a torn one are lost: when a log whose last record lacks one to four bytes is appended to, as
  \<open>WriteAheadLog::Open\<close> does after a crash, and the next bytes differ from the missing ones, replay delivers nothing from the torn record on,
  however many complete records follow.\<close>

lemma append_after_torn_tail_lost:
  assumes "calm w" and "list_all wal_ok rs" and "wal_ok (xs @ us)" and "length us \<le> 4"
    and "length vs = length us" and "vs \<noteq> us" and "concat (map wal_record later) = vs @ ys"
    and "fget w path = Some (concat (map wal_record rs) @
      take (length (wal_record (xs @ us)) - length us) (wal_record (xs @ us)) @ concat (map wal_record later))"
  shows "WriteAheadLog_ReplayAll path callback s w = (Status_OK, fold (\<lambda>r s. callback s r) rs s, w)"
proof -
  let ?torn = "take (length (wal_record (xs @ us)) - length us) (wal_record (xs @ us))"
  let ?c = "le_bytes 4 (crc_Mask (crc_Value (wal_framed (xs @ us))))"
    and ?l = "le_bytes 4 (of_nat (length (xs @ us)) :: u32)"
  have "?torn = ?c @ ?l @ xs" by (simp add: wal_record_eq wal_framed_eq)
  then have "?torn @ concat (map wal_record later) = ?c @ ?l @ (xs @ vs @ []) @ ys"
    using assms(7) by simp
  moreover have "next_record (?c @ ?l @ (xs @ vs @ []) @ ys) = None"
    using next_record_damaged [of xs us "[]" vs ys] assms(3-6) by simp
  ultimately have "wal_records (?torn @ concat (map wal_record later)) = []"
    by (subst wal_records_step) simp
  then show ?thesis
    using assms(1,2,8) by (simp add: WriteAheadLog_ReplayAll_calm wal_records_intact del: calm_calls)
qed

end
