(* ===== verification/SSTable.thy ===== *)
theory SSTable
  imports Crc32c Status Bloom FileSystem Slice MemTable
begin

text \<open>
  \<open>include/clomdb/sstable_format.h\<close>, \<open>include/clomdb/sstable.h\<close> and \<open>src/sstable.cpp\<close>: writing a
  table file from sorted entries, opening it, point lookups and the full scan. An open file
  handle is the readable part of the file; a read past it comes back short, and each of the
  source's early returns on a short read is a branch here. An allocation sized by a
  damaged footer that exceeds the address space ends the process, as \<open>std::bad_alloc\<close> would.
\<close>

unbundle bit_operations_syntax

section \<open>Format\<close>

definition EntryType_kPut :: byte where "EntryType_kPut = 1"

definition EntryType_kDelete :: byte where "EntryType_kDelete = 2"

definition kSSTableMagic :: u64 where "kSSTableMagic = 0x436c6f6d44420001"

definition kSSTableFooterSize :: nat where "kSSTableFooterSize = 5 * 8"

text \<open>The type is the raw byte: the enumeration has a fixed underlying type and holds any value.\<close>

record SSTableEntry =
  e_key :: bytes
  e_type :: byte
  e_value :: bytes

section \<open>Writer\<close>

definition EncodeEntry :: "bytes \<Rightarrow> SSTableEntry \<Rightarrow> bytes" where
  "EncodeEntry dst e =
     (let dst1 = dst @ [e_type e];
          dst2 = PutVarint32 dst1 (of_nat (length (e_key e))) @ e_key e
      in if e_type e = EntryType_kPut
         then PutVarint32 dst2 (of_nat (length (e_value e))) @ e_value e
         else dst2)"

text \<open>The loop that lays out the data section: bytes, offsets, next offset, keys.\<close>

fun Write_layout ::
  "SSTableEntry list \<Rightarrow> bytes \<times> (bytes \<times> u64) list \<times> u64 \<times> bytes list \<Rightarrow>
   bytes \<times> (bytes \<times> u64) list \<times> u64 \<times> bytes list" where
  "Write_layout [] acc = acc"
| "Write_layout (e # es) (data, offsets, offset, keys) =
     (let enc = EncodeEntry [] e in
      Write_layout es (data @ enc, offsets @ [(e_key e, offset)], offset + of_nat (length enc),
        keys @ [e_key e]))"

fun Write_index :: "(bytes \<times> u64) list \<Rightarrow> bytes \<Rightarrow> bytes" where
  "Write_index [] index = index"
| "Write_index ((key, off) # offsets) index =
     Write_index offsets (PutFixed64 (PutVarint32 index (of_nat (length key)) @ key) off)"

definition Write_footer :: "u64 \<Rightarrow> u64 \<Rightarrow> u64 \<Rightarrow> u64 \<Rightarrow> bytes" where
  "Write_footer index_offset index_size filter_offset filter_size =
     PutFixed64 (PutFixed64 (PutFixed64 (PutFixed64 (PutFixed64 []
       index_offset) index_size) filter_offset) filter_size) kSSTableMagic"

definition SSTableWriter_Write ::
  "path \<Rightarrow> SSTableEntry list \<Rightarrow> int \<Rightarrow> world \<Rightarrow> Status \<times> world" where
  "SSTableWriter_Write path entries bits_per_key w =
     (if entries = [] then (Status_InvalidArgument ''refusing to write an empty SSTable'', w)
      else case fopen_wb path w of
        (Inl e, w1) \<Rightarrow> (Status_IOError (path @ '': '' @ strerror e), w1)
      | (Inr _, w1) \<Rightarrow>
          (let (data, offsets, offset, keys_for_filter) = Write_layout entries ([], [], 0, []);
               (n1, w2) = fwrite path data w1
           in if n1 \<noteq> length data then (Status_IOError (path @ '': short write (data)''), w2)
              else let index = Write_index offsets [];
                       index_offset = offset;
                       (n2, w3) = fwrite path index w2
           in if n2 \<noteq> length index then (Status_IOError (path @ '': short write (index)''), w3)
              else case BloomFilter_Build keys_for_filter bits_per_key of
                None \<Rightarrow> (Status_IOError (path @ '': terminated''), abort_process w3)
              | Some filt \<Rightarrow>
                  let filter_offset = index_offset + of_nat (length index);
                      (n3, w4) = fwrite path filt w3
                  in if n3 \<noteq> length filt then (Status_IOError (path @ '': short write (filter)''), w4)
                     else let footer = Write_footer index_offset (of_nat (length index))
                                         filter_offset (of_nat (length filt));
                              (n4, w5) = fwrite path footer w4
                  in if n4 \<noteq> length footer then (Status_IOError (path @ '': short write (footer)''), w5)
                     else case fsync_call w5 of
                       (False, w6) \<Rightarrow> (Status_IOError (path @ '': fflush failed''), w6)
                     | (True, w6) \<Rightarrow> (Status_OK, w6)))"

section \<open>Reader\<close>

record SSTableReader =
  r_path :: path
  r_index :: "(bytes \<times> u64) list"
  r_filter :: bytes
  r_min_key :: bytes
  r_max_key :: bytes
  r_file_size :: nat
  r_file :: "rfile option"

definition SSTableReader_new :: SSTableReader where
  "SSTableReader_new = \<lparr>r_path = [], r_index = [], r_filter = [], r_min_key = [], r_max_key = [],
     r_file_size = 0, r_file = None\<rparr>"

text \<open>\<open>fseek(f, (long)off, SEEK_SET)\<close> fails on a negative position; \<open>fread\<close> comes back short at the
  end of what can be read.\<close>

definition fseek_set :: "u64 \<Rightarrow> nat option" where
  "fseek_set off = (if sint off < 0 then None else Some (unat off))"

definition fread_at :: "rfile \<Rightarrow> nat \<Rightarrow> nat \<Rightarrow> bytes" where
  "fread_at f pos n = take n (drop pos (rf_data f))"

text \<open>The index loop of \<open>Open\<close>; \<open>None\<close> is the malformed-entry return.\<close>

function Open_index :: "bytes \<Rightarrow> (bytes \<times> u64) list \<Rightarrow> (bytes \<times> u64) list option" where
  "Open_index input index =
     (if input = [] then Some index
      else case GetVarint32Ptr input of
        None \<Rightarrow> None
      | Some (klen, p) \<Rightarrow>
          if (length input - length p) + unat klen + 8 > length input then None
          else let key = take (unat klen) p;
                   off = DecodeFixed64 (drop (unat klen) p)
               in Open_index (drop (unat klen + 8) p) (index @ [(key, off)]))"
  by pat_completeness auto
termination
  by (relation "measure (\<lambda>(input, index). length input)")
    (auto elim!: GetVarint32Ptr_consumes)

declare Open_index.simps [simp del]

text \<open>A block of \<open>sz\<close> bytes at \<open>off\<close>, read only when it is not empty; \<open>None\<close> is a failed read.\<close>

definition Open_block :: "rfile \<Rightarrow> u64 \<Rightarrow> u64 \<Rightarrow> bytes option" where
  "Open_block f off sz =
     (if unat sz > 0 then
        (case fseek_set off of
           None \<Rightarrow> None
         | Some pos \<Rightarrow>
             let b = fread_at f pos (unat sz) in
             if length b \<noteq> unat sz then None else Some b)
      else Some [])"

definition SSTableReader_Open :: "path \<Rightarrow> world \<Rightarrow> Status \<times> SSTableReader \<times> world" where
  "SSTableReader_Open path w =
     (let r0 = SSTableReader_new\<lparr>r_path := path\<rparr> in
      case fopen_rb path w of
        (Inl e, w1) \<Rightarrow> (Status_IOError (path @ '': '' @ strerror e), r0, w1)
      | (Inr f, w1) \<Rightarrow>
          if rf_size f < kSSTableFooterSize
          then (Status_Corruption (path @ '': file too small to contain a valid footer''), r0, w1)
          else
            let r1 = r0\<lparr>r_file_size := rf_size f\<rparr>;
                footer = fread_at f (rf_size f - kSSTableFooterSize) kSSTableFooterSize
            in if length footer \<noteq> kSSTableFooterSize
               then (Status_Corruption (path @ '': failed to read footer''), r1, w1)
               else
                 let index_offset = DecodeFixed64 footer;
                     index_size = DecodeFixed64 (drop 8 footer);
                     filter_offset = DecodeFixed64 (drop 16 footer);
                     filter_size = DecodeFixed64 (drop 24 footer);
                     magic = DecodeFixed64 (drop 32 footer)
                 in if magic \<noteq> kSSTableMagic
                    then (Status_Corruption (path @ '': bad magic number, not a ClomDB SSTable''), r1, w1)
                    else if unat index_size \<ge> addressable
                    then (Status_Corruption (path @ '': terminated''), r1, abort_process w1)
                    else case Open_block f index_offset index_size of
                      None \<Rightarrow> (Status_Corruption (path @ '': failed to read index block''), r1, w1)
                    | Some index_buf \<Rightarrow>
                        case Open_index index_buf [] of
                          None \<Rightarrow> (Status_Corruption (path @ '': malformed index entry''), r1, w1)
                        | Some index \<Rightarrow>
                            let r2 = r1\<lparr>r_index := index,
                                   r_min_key := (if index = [] then [] else fst (hd index)),
                                   r_max_key := (if index = [] then [] else fst (last index))\<rparr>
                            in if unat filter_size \<ge> addressable
                               then (Status_Corruption (path @ '': terminated''), r2, abort_process w1)
                               else case Open_block f filter_offset filter_size of
                                 None \<Rightarrow> (Status_Corruption (path @ '': failed to read filter block''), r2, w1)
                               | Some filt \<Rightarrow>
                                   (Status_OK, r2\<lparr>r_filter := filt, r_file := Some f\<rparr>, w1))"

text \<open>
  The incremental varint read, byte by byte, at most five: the bytes kept in \<open>tmp\<close> and
  the rest of the file, \<open>None\<close> when a byte cannot be read.
\<close>

fun read_varint_bytes :: "nat \<Rightarrow> bytes \<Rightarrow> (bytes \<times> bytes) option" where
  "read_varint_bytes 0 rest = Some ([], rest)"
| "read_varint_bytes (Suc n) [] = None"
| "read_varint_bytes (Suc n) (b # rest) =
     (if b AND 0x80 = 0 then Some ([b], rest)
      else map_option (\<lambda>(tmp, r). (b # tmp, r)) (read_varint_bytes n rest))"

text \<open>
  The part of \<open>Get\<close> after the index lookup, from the entry's position in the file: found, the new
  contents of \<open>*value\<close> and of \<open>*deleted\<close>.
\<close>

definition Get_at :: "bytes \<Rightarrow> bytes \<Rightarrow> bool \<Rightarrow> bool \<times> bytes \<times> bool" where
  "Get_at rest value del =
     (case rest of
        [] \<Rightarrow> (False, value, del)
      | type_byte # rest1 \<Rightarrow>
        (case read_varint_bytes 5 rest1 of
           None \<Rightarrow> (False, value, del)
         | Some (tmp, rest2) \<Rightarrow>
           (case GetVarint32Ptr tmp of
              None \<Rightarrow> (False, value, del)
            | Some (klen, _) \<Rightarrow>
              if length (take (unat klen) rest2) \<noteq> unat klen then (False, value, del)
              else if type_byte = EntryType_kDelete then (True, value, True)
              else
                (case read_varint_bytes 5 (drop (unat klen) rest2) of
                   None \<Rightarrow> (False, value, del)
                 | Some (tmp2, rest3) \<Rightarrow>
                   (case GetVarint32Ptr tmp2 of
                      None \<Rightarrow> (False, value, del)
                    | Some (vlen, _) \<Rightarrow>
                      let got = take (unat vlen) rest3;
                          value' = got @ replicate (unat vlen - length got) 0
                      in if length got \<noteq> unat vlen then (False, value', del)
                         else (True, value', False))))))"

text \<open>
  \<open>std::lower_bound\<close> on the index. The index of a table the engine has written is sorted by key; for one that is not, the
  standard leaves the result open and this is one possibility.
\<close>

definition index_lower_bound :: "(bytes \<times> u64) list \<Rightarrow> bytes \<Rightarrow> (bytes \<times> u64) list" where
  "index_lower_bound index key = dropWhile (\<lambda>(k, _). slice_less k key) index"

definition SSTableReader_Get ::
  "SSTableReader \<Rightarrow> bytes \<Rightarrow> bytes \<Rightarrow> bool \<Rightarrow> ReadOptions \<Rightarrow> bool \<times> bytes \<times> bool" where
  "SSTableReader_Get r key value del opts =
     (if r_filter r \<noteq> [] \<and> \<not> BloomFilter_MayContain (r_filter r) key then (False, value, del)
      else case index_lower_bound (r_index r) key of
        [] \<Rightarrow> (False, value, del)
      | (k, off) # _ \<Rightarrow>
          if slice_neq k key then (False, value, del)
          else (case (fseek_set off, r_file r) of
                  (Some pos, Some f) \<Rightarrow> Get_at (drop pos (rf_data f)) value del
                | _ \<Rightarrow> (False, value, del)))"

text \<open>One turn of the loop of \<open>ReadAll\<close>: an error, or the entry and the rest of the file.\<close>

definition ReadAll_entry :: "path \<Rightarrow> bytes \<Rightarrow> Status + SSTableEntry \<times> bytes" where
  "ReadAll_entry path rest =
     (case rest of
        [] \<Rightarrow> Inl (Status_Corruption (path @ '': truncated data section''))
      | type_byte # rest1 \<Rightarrow>
        (case read_varint_bytes 5 rest1 of
           None \<Rightarrow> Inl (Status_Corruption (path @ '': truncated key length''))
         | Some (tmp, rest2) \<Rightarrow>
           (case GetVarint32Ptr tmp of
              None \<Rightarrow> Inl (Status_Corruption (path @ '': bad varint (key len)''))
            | Some (klen, _) \<Rightarrow>
              let key = take (unat klen) rest2; rest3 = drop (unat klen) rest2 in
              if length key \<noteq> unat klen then Inl (Status_Corruption (path @ '': truncated key''))
              else if type_byte = EntryType_kPut then
                (case read_varint_bytes 5 rest3 of
                   None \<Rightarrow> Inl (Status_Corruption (path @ '': truncated value length''))
                 | Some (tmp2, rest4) \<Rightarrow>
                   (case GetVarint32Ptr tmp2 of
                      None \<Rightarrow> Inl (Status_Corruption (path @ '': bad varint (value len)''))
                    | Some (vlen, _) \<Rightarrow>
                      let value = take (unat vlen) rest4 in
                      if length value \<noteq> unat vlen
                      then Inl (Status_Corruption (path @ '': truncated value''))
                      else Inr (\<lparr>e_key = key, e_type = type_byte, e_value = value\<rparr>,
                                drop (unat vlen) rest4)))
              else Inr (\<lparr>e_key = key, e_type = type_byte, e_value = []\<rparr>, rest3))))"

fun ReadAll_loop ::
  "path \<Rightarrow> nat \<Rightarrow> bytes \<Rightarrow> SSTableEntry list \<Rightarrow> Status \<times> SSTableEntry list" where
  "ReadAll_loop path 0 rest out = (Status_OK, out)"
| "ReadAll_loop path (Suc n) rest out =
     (case ReadAll_entry path rest of
        Inl s \<Rightarrow> (s, out)
      | Inr (entry, rest') \<Rightarrow> ReadAll_loop path n rest' (out @ [entry]))"

definition SSTableReader_ReadAll :: "SSTableReader \<Rightarrow> Status \<times> SSTableEntry list" where
  "SSTableReader_ReadAll r =
     (case r_file r of
        None \<Rightarrow> (Status_IOError (r_path r @ '': fseek failed''), [])
      | Some f \<Rightarrow> ReadAll_loop (r_path r) (length (r_index r)) (rf_data f) [])"

section \<open>Entries on disk\<close>

text \<open>What a written entry looks like, and which entries the format can represent.\<close>

abbreviation entry_bytes :: "SSTableEntry \<Rightarrow> bytes" where
  "entry_bytes e \<equiv> EncodeEntry [] e"

definition entry_ok :: "SSTableEntry \<Rightarrow> bool" where
  "entry_ok e \<longleftrightarrow> lps_ok (e_key e) \<and> lps_ok (e_value e) \<and>
     (e_type e = EntryType_kPut \<or> e_type e = EntryType_kDelete \<and> e_value e = [])"

lemma EntryTypes_distinct [simp]:
  "EntryType_kDelete \<noteq> EntryType_kPut" "EntryType_kPut \<noteq> EntryType_kDelete"
  by (simp_all add: EntryType_kPut_def EntryType_kDelete_def)

lemma entry_bytes_eq:
  "entry_bytes e = e_type e # lps_bytes (e_key e) @
    (if e_type e = EntryType_kPut then lps_bytes (e_value e) else [])"
  by (simp add: EncodeEntry_def PutVarint32_def lps_bytes_def Let_def)

lemma read_varint_encoded:
  assumes "length (varint_bytes v) \<le> n"
  shows "read_varint_bytes n (varint_bytes v @ rest) = Some (varint_bytes v, rest)"
  using assms
proof (induction v arbitrary: n rule: varint_bytes.induct)
  case (1 v)
  then obtain m where n: "n = Suc m" by (cases n) auto
  have flag: "(ucast v OR 0x80 :: byte) AND 0x80 \<noteq> 0"
    by (auto simp: bit_eq_iff bit_simps intro!: exI [of _ 7])
  show ?case
  proof (cases "unat v \<ge> 0x80")
    case True
    with 1 n flag show ?thesis by (simp add: varint_bytes.simps [of v])
  next
    case False
    with n show ?thesis by (simp add: varint_bytes.simps [of v] final_byte)
  qed
qed

lemma read_varint32 [simp]:
  "read_varint_bytes 5 (varint_bytes (v :: u32) @ rest) = Some (varint_bytes v, rest)"
  by (rule read_varint_encoded) simp

lemma GetVarint32Ptr_exact [simp]: "GetVarint32Ptr (varint_bytes (v :: u32)) = Some (v, [])"
  using varint32.dec_enc_nil by simp

lemma ReadAll_entry_encoded:
  assumes "entry_ok e"
  shows "ReadAll_entry path (entry_bytes e @ rest) = Inr (e, rest)"
  using assms by (auto simp: ReadAll_entry_def entry_bytes_eq entry_ok_def lps_bytes_def lps_ok_def)

lemma Get_at_encoded:
  assumes "entry_ok e"
  shows "Get_at (entry_bytes e @ rest) value del =
    (if e_type e = EntryType_kDelete then (True, value, True) else (True, e_value e, False))"
  using assms by (auto simp: Get_at_def entry_bytes_eq entry_ok_def lps_bytes_def lps_ok_def)

section \<open>The file image\<close>

definition data_bytes :: "SSTableEntry list \<Rightarrow> bytes" where
  "data_bytes es = concat (map entry_bytes es)"

fun table_offsets :: "u64 \<Rightarrow> SSTableEntry list \<Rightarrow> (bytes \<times> u64) list" where
  "table_offsets off [] = []"
| "table_offsets off (e # es) =
     (e_key e, off) # table_offsets (off + of_nat (length (entry_bytes e))) es"

fun index_entry_bytes :: "bytes \<times> u64 \<Rightarrow> bytes" where
  "index_entry_bytes (key, off) = lps_bytes key @ le_bytes 8 off"

definition index_bytes :: "SSTableEntry list \<Rightarrow> bytes" where
  "index_bytes es = concat (map index_entry_bytes (table_offsets 0 es))"

definition table_bytes :: "SSTableEntry list \<Rightarrow> bytes \<Rightarrow> bytes" where
  "table_bytes es filt =
     data_bytes es @ index_bytes es @ filt @
     Write_footer (of_nat (length (data_bytes es))) (of_nat (length (index_bytes es)))
       (of_nat (length (data_bytes es)) + of_nat (length (index_bytes es))) (of_nat (length filt))"

definition table_reader :: "path \<Rightarrow> SSTableEntry list \<Rightarrow> bytes \<Rightarrow> SSTableReader" where
  "table_reader path es filt =
     \<lparr>r_path = path, r_index = table_offsets 0 es, r_filter = filt,
      r_min_key = e_key (hd es), r_max_key = e_key (last es),
      r_file_size = length (table_bytes es filt),
      r_file = Some \<lparr>rf_size = length (table_bytes es filt), rf_data = table_bytes es filt\<rparr>\<rparr>"

lemma data_bytes_simps [simp]:
  "data_bytes [] = []" "data_bytes (e # es) = entry_bytes e @ data_bytes es"
  "data_bytes (es @ es') = data_bytes es @ data_bytes es'"
  by (simp_all add: data_bytes_def)

lemma Write_layout_eq:
  "Write_layout es (data, offsets, offset, keys) =
    (data @ data_bytes es, offsets @ table_offsets offset es,
     offset + of_nat (length (data_bytes es)), keys @ map e_key es)"
  by (induction es arbitrary: data offsets offset keys) (simp_all add: Let_def add.assoc)

lemma Write_index_eq: "Write_index offsets index = index @ concat (map index_entry_bytes offsets)"
  by (induction offsets index rule: Write_index.induct)
    (simp_all add: PutFixed64_def PutVarint32_def lps_bytes_def)

lemma Write_footer_eq:
  "Write_footer a b c d = le_bytes 8 a @ le_bytes 8 b @ le_bytes 8 c @ le_bytes 8 d @ le_bytes 8 kSSTableMagic"
  by (simp add: Write_footer_def PutFixed64_def)

lemma length_Write_footer [simp]: "length (Write_footer a b c d) = kSSTableFooterSize"
  by (simp add: Write_footer_eq kSSTableFooterSize_def)

lemma map_fst_table_offsets [simp]: "map fst (table_offsets off es) = map e_key es"
  by (induction off es rule: table_offsets.induct) auto

lemma length_table_offsets [simp]: "length (table_offsets off es) = length es"
  by (induction off es rule: table_offsets.induct) auto

lemma table_offsets_append:
  "table_offsets off (pre @ es) =
    table_offsets off pre @ table_offsets (off + of_nat (length (data_bytes pre))) es"
  by (induction pre arbitrary: off) (simp_all add: add.assoc)

lemma Open_index_Nil [simp]: "Open_index [] index = Some index"
  by (subst Open_index.simps) simp

lemma Open_index_entry:
  assumes "lps_ok key"
  shows "Open_index (index_entry_bytes (key, off) @ rest) index = Open_index rest (index @ [(key, off)])"
  using assms DecodeFixed64_encoded [of off rest]
  by (subst Open_index.simps) (auto simp: lps_bytes_def lps_ok_def)

lemma Open_index_encoded:
  assumes "list_all (\<lambda>(key, off). lps_ok key) offsets"
  shows "Open_index (concat (map index_entry_bytes offsets)) index = Some (index @ offsets)"
  using assms
proof (induction offsets arbitrary: index)
  case (Cons x xs)
  then show ?case by (cases x) (simp add: Open_index_entry del: index_entry_bytes.simps)
qed simp

lemma ReadAll_loop_encoded:
  assumes "list_all entry_ok es"
  shows "ReadAll_loop path (length es) (data_bytes es @ rest) out = (Status_OK, out @ es)"
  using assms by (induction es arbitrary: out) (simp_all add: ReadAll_entry_encoded)

lemma fseek_set_of_nat [simp]: "n < 2 ^ 63 \<Longrightarrow> fseek_set (of_nat n) = Some n"
proof -
  assume n: "n < 2 ^ 63"
  then have "sint (of_nat n :: u64) = int n"
    by (simp add: signed_of_nat signed_take_bit_int_eq_self)
  with n show ?thesis by (simp add: fseek_set_def)
qed

section \<open>Well-formed tables\<close>

text \<open>Strictly sorted, representable, non-empty: what flush and compaction pass to the writer.\<close>

definition table_ok :: "SSTableEntry list \<Rightarrow> bool" where
  "table_ok es \<longleftrightarrow> es \<noteq> [] \<and> list_all entry_ok es \<and> sorted_wrt (<) (map e_key es)"

definition table_fits :: "SSTableEntry list \<Rightarrow> bytes \<Rightarrow> bool" where
  "table_fits es filt \<longleftrightarrow> length (data_bytes es) < addressable \<and> length (index_bytes es) < addressable \<and>
     length filt < addressable"

definition entry_of :: "SSTableEntry \<Rightarrow> entry" where
  "entry_of e = (if e_type e = EntryType_kDelete then Tombstone else Live (e_value e))"

definition table_lookup :: "SSTableEntry list \<Rightarrow> bytes \<Rightarrow> entry option" where
  "table_lookup es k = map_of (map (\<lambda>e. (e_key e, entry_of e)) es) k"

text \<open>The reader that \<open>Open\<close> returns for a table \<open>Write\<close> produced from \<open>es\<close>.\<close>

definition reader_for :: "SSTableReader \<Rightarrow> SSTableEntry list \<Rightarrow> bool" where
  "reader_for r es \<longleftrightarrow> table_ok es \<and>
     (\<exists>path filt bits_per_key. r = table_reader path es filt \<and> table_fits es filt \<and>
        BloomFilter_Build (map e_key es) bits_per_key = Some filt)"

lemma table_lookup_None_iff: "table_lookup es k = None \<longleftrightarrow> k \<notin> set (map e_key es)"
  by (force simp: table_lookup_def map_of_eq_None_iff)

lemma table_lookup_split:
  assumes "table_ok (pre @ e # post)"
  shows "table_lookup (pre @ e # post) (e_key e) = Some (entry_of e)"
proof -
  from assms have "e_key e \<notin> set (map e_key pre)"
    by (auto simp: table_ok_def sorted_wrt_append)
  then have "table_lookup pre (e_key e) = None" by (simp add: table_lookup_None_iff)
  then show ?thesis by (simp add: table_lookup_def map_add_def)
qed

lemma ReadAll_reader:
  assumes "reader_for r es"
  shows "SSTableReader_ReadAll r = (Status_OK, es)"
  using assms ReadAll_loop_encoded [of es]
  by (auto simp: reader_for_def table_ok_def SSTableReader_ReadAll_def table_reader_def table_bytes_def)

lemma index_lower_bound_hit:
  assumes "sorted_wrt (<) (map e_key (pre @ e # post))"
  shows "index_lower_bound (table_offsets 0 (pre @ e # post)) (e_key e) =
    (e_key e, of_nat (length (data_bytes pre))) #
      table_offsets (of_nat (length (data_bytes pre)) + of_nat (length (entry_bytes e))) post"
proof -
  have "k < e_key e" if "(k, off) \<in> set (table_offsets 0 pre)" for k off
  proof -
    from that have "k \<in> set (map fst (table_offsets 0 pre))" by (metis fst_conv image_eqI list.set_map)
    with assms show ?thesis by (auto simp: sorted_wrt_append)
  qed
  then have "dropWhile (\<lambda>(k, _). k < e_key e) (table_offsets 0 pre @ xs) =
      dropWhile (\<lambda>(k, _). k < e_key e) xs" for xs
    by (intro dropWhile_append2) auto
  then show ?thesis by (simp add: index_lower_bound_def table_offsets_append)
qed

lemma index_lower_bound_miss:
  assumes "key \<notin> set (map fst index)" and "index_lower_bound index key = (k, off) # rest"
  shows "k \<noteq> key"
proof -
  have "(k, off) \<in> set (index_lower_bound index key)" using assms(2) by simp
  then have "(k, off) \<in> set index"
    unfolding index_lower_bound_def by (rule set_dropWhileD)
  with assms(1) show ?thesis by force
qed

lemma Get_reader:
  assumes "reader_for r es"
  shows "SSTableReader_Get r key value del opts =
    (case table_lookup es key of
       None \<Rightarrow> (False, value, del)
     | Some Tombstone \<Rightarrow> (True, value, True)
     | Some (Live v) \<Rightarrow> (True, v, False))"
proof -
  from assms obtain path filt bits where ok: "table_ok es" and r: "r = table_reader path es filt"
    and fits: "table_fits es filt" and filt: "BloomFilter_Build (map e_key es) bits = Some filt"
    by (auto simp: reader_for_def)
  show ?thesis
  proof (cases "key \<in> set (map e_key es)")
    case False
    then have miss: "index_lower_bound (table_offsets 0 es) key \<noteq> (key, off) # rest" for off rest
      using index_lower_bound_miss [of key "table_offsets 0 es"] by fastforce
    then have "SSTableReader_Get r key value del opts = (False, value, del)"
      by (auto simp: SSTableReader_Get_def r table_reader_def split: list.splits)
    with False show ?thesis by (simp add: table_lookup_None_iff [THEN iffD2])
  next
    case True
    then obtain pre e post where es: "es = pre @ e # post" and key: "key = e_key e"
      by (auto dest!: split_list)
    have may: "BloomFilter_MayContain filt key"
      using bloom_no_false_negative [OF filt] True by blast
    have "length (data_bytes pre) < 2 ^ 63"
      using fits by (simp add: table_fits_def addressable_def es)
    moreover have "entry_ok e" using ok by (simp add: table_ok_def es)
    ultimately have "SSTableReader_Get r key value del opts =
        (if e_type e = EntryType_kDelete then (True, value, True) else (True, e_value e, False))"
      using may ok index_lower_bound_hit [of pre e post]
      by (simp add: SSTableReader_Get_def r table_reader_def es key table_ok_def table_bytes_def
          Get_at_encoded)
    with ok show ?thesis by (simp add: es key table_lookup_split entry_of_def)
  qed
qed

section \<open>Writing and opening through the file system\<close>

lemma SSTableWriter_Write_frame:
  "SSTableWriter_Write path es bits w = (s, w') \<Longrightarrow> changes_only {canon path} w w'"
  unfolding SSTableWriter_Write_def Let_def
  by (auto split: prod.splits sum.splits option.splits bool.splits if_splits
      dest!: io_frameD(1) io_frameD(4) io_frameD(5) [where P = "{canon path}"])
    (meson changes_only_trans abort_process_frame)+

lemma SSTableWriter_Write_ok:
  assumes "SSTableWriter_Write path es bits w = (s, w')" and "Status_ok s"
  shows "\<exists>filt. BloomFilter_Build (map e_key es) bits = Some filt \<and>
    fget w' path = Some (table_bytes es filt) \<and> \<not> crashed w' \<and> es \<noteq> []"
proof -
  from assms obtain filt w1 w2 w3 w4 w5 where es: "es \<noteq> []"
    and w1: "fopen_wb path w = (Inr (), w1)"
    and w2: "fwrite path (data_bytes es) w1 = (length (data_bytes es), w2)"
    and w3: "fwrite path (index_bytes es) w2 = (length (index_bytes es), w3)"
    and filt: "BloomFilter_Build (map e_key es) bits = Some filt"
    and w4: "fwrite path filt w3 = (length filt, w4)"
    and w5: "fwrite path (Write_footer (of_nat (length (data_bytes es))) (of_nat (length (index_bytes es)))
       (of_nat (length (data_bytes es)) + of_nat (length (index_bytes es))) (of_nat (length filt))) w4
       = (kSSTableFooterSize, w5)"
    and w6: "fsync_call w5 = (True, w')"
    by (auto simp: SSTableWriter_Write_def Let_def Write_layout_eq Write_index_eq index_bytes_def
      split: prod.splits sum.splits option.splits bool.splits if_splits)
  from w5 have "fwrite path (Write_footer (of_nat (length (data_bytes es))) (of_nat (length (index_bytes es)))
       (of_nat (length (data_bytes es)) + of_nat (length (index_bytes es))) (of_nat (length filt))) w4
       = (length (Write_footer (of_nat (length (data_bytes es))) (of_nat (length (index_bytes es)))
       (of_nat (length (data_bytes es)) + of_nat (length (index_bytes es))) (of_nat (length filt))), w5)" by simp
  from fwrite_full [OF this fwrite_full [OF w4 fwrite_full [OF w3 fwrite_full [OF w2]]], of "[]"] fopen_wb_ok [OF w1]
  have "fget w5 path = Some (table_bytes es filt)" by (simp add: table_bytes_def)
  moreover have "\<not> crashed w'" "fget w' path = fget w5 path"
    using fsync_call_ok [OF w6] by (auto simp: fget_def)
  ultimately show ?thesis using filt es by simp
qed

lemma SSTableReader_Open_frame:
  "SSTableReader_Open path w = (s, r, w') \<Longrightarrow> changes_only P w w'"
  unfolding SSTableReader_Open_def Let_def
  by (auto split: prod.splits sum.splits option.splits bool.splits if_splits
      dest!: io_frameD(3) [where P = P])
    (meson changes_only_trans abort_process_frame)+

lemma footer_decode:
  "DecodeFixed64 (Write_footer a b c d) = a"
  "DecodeFixed64 (drop 8 (Write_footer a b c d)) = b"
  "DecodeFixed64 (drop 16 (Write_footer a b c d)) = c"
  "DecodeFixed64 (drop 24 (Write_footer a b c d)) = d"
  "DecodeFixed64 (drop 32 (Write_footer a b c d)) = kSSTableMagic"
  using DecodeFixed64_encoded [of kSSTableMagic "[]"]
  by (simp_all add: Write_footer_eq codec_simps)

lemma Open_block_mid:
  assumes "rf_data f = xs @ ys @ zs" "length (xs @ ys @ zs) < 2 ^ 63" "0 < length ys"
  shows "Open_block f (of_nat (length xs)) (of_nat (length ys)) = Some ys"
proof -
  have "unat (of_nat (length ys) :: u64) = length ys" using assms(2) by simp
  then show ?thesis using assms by (simp add: Open_block_def fread_at_def)
qed

lemma index_bytes_nonempty: "es \<noteq> [] \<Longrightarrow> index_bytes es \<noteq> []"
  by (cases es) (simp_all add: index_bytes_def lps_bytes_def)

lemma Build_nonempty: "BloomFilter_Build keys bits = Some filt \<Longrightarrow> filt \<noteq> []"
  by (auto simp: BloomFilter_Build_def Let_def split: if_splits dest: arg_cong [where f = length])

lemma hd_table_offsets: "es \<noteq> [] \<Longrightarrow> fst (hd (table_offsets off es)) = e_key (hd es)"
  by (cases es) simp_all

lemma last_table_offsets: "es \<noteq> [] \<Longrightarrow> fst (last (table_offsets off es)) = e_key (last es)"
proof -
  assume "es \<noteq> []"
  then have "fst (last (table_offsets off es)) = last (map fst (table_offsets off es))"
    by (subst last_map) (auto simp flip: length_greater_0_conv)
  then show ?thesis using \<open>es \<noteq> []\<close> by (simp add: last_map)
qed

lemma table_offsets_keys_ok:
  "list_all entry_ok es \<Longrightarrow> list_all (\<lambda>(key, off). lps_ok key) (table_offsets off es)"
  by (induction off es rule: table_offsets.induct) (auto simp: entry_ok_def)

lemma SSTableReader_Open_image:
  assumes "table_ok es" and fits: "table_fits es filt" and filt: "filt \<noteq> []"
    and "fopen_rb path w = (Inr \<lparr>rf_size = length (table_bytes es filt), rf_data = table_bytes es filt\<rparr>, w1)"
  shows "SSTableReader_Open path w = (Status_OK, table_reader path es filt, w1)"
proof -
  let ?D = "data_bytes es" and ?I = "index_bytes es"
  let ?ft = "Write_footer (of_nat (length ?D)) (of_nat (length ?I))
       (of_nat (length ?D) + of_nat (length ?I)) (of_nat (length filt))"
  let ?f = "\<lparr>rf_size = length (table_bytes es filt), rf_data = table_bytes es filt\<rparr>"
  have es: "es \<noteq> []" and ok: "list_all entry_ok es" using assms(1) by (simp_all add: table_ok_def)
  have len: "length ?D + length ?I + length filt + 40 < 2 ^ 63"
    using fits by (simp add: table_fits_def addressable_def)
  have footer: "fread_at ?f (length (table_bytes es filt) - kSSTableFooterSize) kSSTableFooterSize = ?ft"
    by (simp add: fread_at_def table_bytes_def)
  have index: "Open_block ?f (of_nat (length ?D)) (of_nat (length ?I)) = Some ?I"
    using len index_bytes_nonempty [OF es]
    by (intro Open_block_mid [of _ _ _ "filt @ ?ft"]) (simp_all add: table_bytes_def kSSTableFooterSize_def)
  have "Open_block ?f (of_nat (length (?D @ ?I))) (of_nat (length filt)) = Some filt"
    using len filt
    by (intro Open_block_mid [of _ _ _ ?ft]) (simp_all add: table_bytes_def kSSTableFooterSize_def)
  then have filter: "Open_block ?f (of_nat (length ?D) + of_nat (length ?I)) (of_nat (length filt)) = Some filt"
    by simp
  have "list_all (\<lambda>(key, off). lps_ok key) (table_offsets 0 es)"
    using ok by (rule table_offsets_keys_ok)
  then have "Open_index ?I [] = Some (table_offsets 0 es)"
    by (simp add: index_bytes_def Open_index_encoded)
  moreover have "unat (of_nat (length ?I) :: u64) < addressable" "unat (of_nat (length filt) :: u64) < addressable"
    using fits by (simp_all add: table_fits_def addressable_def)
  moreover have "length (table_bytes es filt) \<ge> kSSTableFooterSize" by (simp add: table_bytes_def)
  moreover have "table_offsets 0 es \<noteq> []" using es by (cases es) simp_all
  ultimately show ?thesis
    using assms(4) footer index filter es
    by (simp add: SSTableReader_Open_def Let_def footer_decode hd_table_offsets last_table_offsets
       table_reader_def SSTableReader_new_def)
qed

lemma SSTableReader_Open_calm:
  assumes "table_ok es" and "table_fits es filt" and "filt \<noteq> []" and "calm w"
    and "fget w path = Some (table_bytes es filt)"
  shows "SSTableReader_Open path w = (Status_OK, table_reader path es filt, w)"
  using assms by (intro SSTableReader_Open_image) simp_all

text \<open>Whatever the device did, an \<open>Open\<close> that reports success has read the whole table.\<close>

lemma SSTableReader_Open_ok:
  assumes "table_ok es" and "table_fits es filt" and "filt \<noteq> []"
    and d: "fget w path = Some (table_bytes es filt)"
    and r: "SSTableReader_Open path w = (s, r, w')" and "Status_ok s"
  shows "r = table_reader path es filt \<and> \<not> crashed w'"
proof -
  from r \<open>Status_ok s\<close> obtain f w1 where f: "fopen_rb path w = (Inr f, w1)"
    and footer: "length (fread_at f (rf_size f - kSSTableFooterSize) kSSTableFooterSize) = kSSTableFooterSize"
    by (auto simp: SSTableReader_Open_def Let_def split: prod.splits sum.splits if_splits)
  from fopen_rb_ok [OF f] d obtain n
    where n: "f = \<lparr>rf_size = length (table_bytes es filt), rf_data = take n (table_bytes es filt)\<rparr>"
      and "\<not> crashed w1" by auto
  have "length (table_bytes es filt) \<le> n"
    using footer by (auto simp: n fread_at_def kSSTableFooterSize_def min_def split: if_splits)
  then have "SSTableReader_Open path w = (Status_OK, table_reader path es filt, w1)"
    using f n assms(1-3) by (intro SSTableReader_Open_image) simp_all
  with r \<open>\<not> crashed w1\<close> show ?thesis by simp
qed

section \<open>Reads that stop being served\<close>

text \<open>
  An open handle from which the device delivers only the first \<open>n\<close> bytes. A call reads forwards from one position and
  returns at its first failing read, so every failure inside one call of \<open>Get\<close> or \<open>ReadAll\<close> is the failure of a handle cut there.
\<close>

definition cut_reader :: "nat \<Rightarrow> SSTableReader \<Rightarrow> SSTableReader" where
  "cut_reader n r = r\<lparr>r_file := map_option (\<lambda>f. f\<lparr>rf_data := take n (rf_data f)\<rparr>) (r_file r)\<rparr>"

lemma take_of_take: "length (take k (take n d)) = k \<Longrightarrow> take k (take n d) = take k d \<and> drop k (take n d) = take (n - k) (drop k d)"
  by (auto simp: drop_take min_def split: if_splits)

lemma read_varint_take:
  "read_varint_bytes k (take n d) = Some (tmp, r) \<Longrightarrow> \<exists>m r'. read_varint_bytes k d = Some (tmp, r') \<and> r = take m r'"
proof (induction k arbitrary: n d tmp)
  case (Suc k)
  then obtain b d' m where d: "d = b # d'" "n = Suc m" by (cases d; cases n) auto
  show ?case
  proof (cases "b AND 0x80 = 0")
    case True
    then show ?thesis using Suc.prems by (auto simp: d)
  next
    case False
    then obtain tmp' where "read_varint_bytes k (take m d') = Some (tmp', r)" "tmp = b # tmp'"
      using Suc.prems by (auto simp: d)
    with Suc.IH [of m d' tmp'] False show ?thesis by (auto simp: d)
  qed
qed auto

lemma Get_at_take:
  assumes "Get_at (take n d) value del = (True, v, e)"
  shows "Get_at d value del = (True, v, e)"
proof -
  obtain b d1 m where d: "d = b # d1" "n = Suc m"
    using assms by (cases d; cases n) (auto simp: Get_at_def)
  obtain tmp r2 klen q where v1: "read_varint_bytes 5 (take m d1) = Some (tmp, r2)" "GetVarint32Ptr tmp = Some (klen, q)"
    and l1: "length (take (unat klen) r2) = unat klen"
    using assms by (auto simp: Get_at_def d split: option.splits if_splits)
  obtain m2 d2 where d2: "read_varint_bytes 5 d1 = Some (tmp, d2)" "r2 = take m2 d2" using read_varint_take [OF v1(1)] by blast
  note t1 = take_of_take [OF l1 [unfolded d2(2)]]
  then have l1': "length (take (unat klen) d2) = unat klen" using l1 d2(2) by metis
  show ?thesis
  proof (cases "b = EntryType_kDelete")
    case True
    then show ?thesis using assms v1 l1 d2(1) l1' by (simp add: Get_at_def d)
  next
    case False
    obtain tmp2 r3 vlen q2 where v2: "read_varint_bytes 5 (drop (unat klen) r2) = Some (tmp2, r3)"
        "GetVarint32Ptr tmp2 = Some (vlen, q2)"
      and l2: "length (take (unat vlen) r3) = unat vlen" and res: "v = take (unat vlen) r3" "e = False"
      using assms v1 l1 False by (auto simp: Get_at_def d Let_def split: option.splits if_splits)
    obtain m3 d3 where d3: "read_varint_bytes 5 (drop (unat klen) d2) = Some (tmp2, d3)" "r3 = take m3 d3"
      using read_varint_take [of 5 "m2 - unat klen"] v2(1) t1 d2(2) by metis
    have "take (unat vlen) r3 = take (unat vlen) d3" using take_of_take [OF l2 [unfolded d3(2)]] d3(2) by simp
    then show ?thesis using v1(2) d2(1) l1' False d3(1) v2(2) l2 res by (simp add: Get_at_def d Let_def)
  qed
qed

lemma Get_at_miss: "Get_at d value del = (False, v, e) \<Longrightarrow> e = del"
  by (auto simp: Get_at_def Let_def split: list.splits option.splits if_splits)

lemma Get_cut:
  "SSTableReader_Get (cut_reader n r) key value del opts = SSTableReader_Get r key value del opts \<or>
    (\<exists>v. SSTableReader_Get (cut_reader n r) key value del opts = (False, v, del))"
proof -
  have cut: "Get_at (drop pos (take n d)) value del = Get_at (drop pos d) value del \<or>
      (\<exists>v. Get_at (drop pos (take n d)) value del = (False, v, del))" for pos d
    using Get_at_take [of "n - pos" "drop pos d" "value" del] Get_at_miss [of "take (n - pos) (drop pos d)" "value" del]
    unfolding drop_take by (metis (full_types) prod_cases3)
  then show ?thesis
    by (auto simp: SSTableReader_Get_def cut_reader_def simp del: drop_take split: list.splits option.splits)
qed

lemma ReadAll_entry_take:
  assumes "ReadAll_entry path (take n d) = Inr (e, r)"
  shows "\<exists>m r'. ReadAll_entry path d = Inr (e, r') \<and> r = take m r'"
proof -
  obtain b d1 m where d: "d = b # d1" "n = Suc m"
    using assms by (cases d; cases n) (auto simp: ReadAll_entry_def)
  obtain tmp r2 klen q where v1: "read_varint_bytes 5 (take m d1) = Some (tmp, r2)" "GetVarint32Ptr tmp = Some (klen, q)"
    and l1: "length (take (unat klen) r2) = unat klen"
    using assms by (auto simp: ReadAll_entry_def Let_def d split: option.splits if_splits)
  obtain m2 d2 where d2: "read_varint_bytes 5 d1 = Some (tmp, d2)" "r2 = take m2 d2" using read_varint_take [OF v1(1)] by blast
  note t1 = take_of_take [OF l1 [unfolded d2(2)]]
  then have l1': "length (take (unat klen) d2) = unat klen" using l1 d2(2) by metis
  show ?thesis
  proof (cases "b = EntryType_kPut")
    case False
    then have "r = drop (unat klen) r2 \<and> e = \<lparr>e_key = take (unat klen) r2, e_type = b, e_value = []\<rparr>"
      using assms v1 l1 by (simp add: ReadAll_entry_def Let_def d)
    then have e: "r = take (m2 - unat klen) (drop (unat klen) d2)"
        "e = \<lparr>e_key = take (unat klen) d2, e_type = b, e_value = []\<rparr>"
      using t1 by (simp_all add: d2(2) del: take_take)
    from False have "ReadAll_entry path d = Inr (e, drop (unat klen) d2)"
      using v1(2) d2(1) l1' by (simp add: ReadAll_entry_def Let_def d e(2))
    then show ?thesis using e(1) by blast
  next
    case True
    obtain tmp2 r3 vlen q2 where v2: "read_varint_bytes 5 (drop (unat klen) r2) = Some (tmp2, r3)"
        "GetVarint32Ptr tmp2 = Some (vlen, q2)"
      and l2: "length (take (unat vlen) r3) = unat vlen" and res: "r = drop (unat vlen) r3"
        "e = \<lparr>e_key = take (unat klen) r2, e_type = b, e_value = take (unat vlen) r3\<rparr>"
      using assms v1 l1 True by (auto simp: ReadAll_entry_def d Let_def split: option.splits if_splits)
    obtain m3 d3 where d3: "read_varint_bytes 5 (drop (unat klen) d2) = Some (tmp2, d3)" "r3 = take m3 d3"
      using read_varint_take [of 5 "m2 - unat klen"] v2(1) t1 d2(2) by metis
    note t2 = take_of_take [OF l2 [unfolded d3(2)]]
    have e: "r = take (m3 - unat vlen) (drop (unat vlen) d3)" "length (take (unat vlen) d3) = unat vlen"
        "e = \<lparr>e_key = take (unat klen) d2, e_type = b, e_value = take (unat vlen) d3\<rparr>"
      using t1 t2 l2 res unfolding d2(2) d3(2) by simp_all
    have "ReadAll_entry path d = Inr (e, drop (unat vlen) d3)"
      using v1(2) d2(1) l1' True d3(1) v2(2) e(2) by (simp add: ReadAll_entry_def Let_def d e(3))
    then show ?thesis using e(1) by blast
  qed
qed

lemma ReadAll_entry_error: "ReadAll_entry path d = Inl s \<Longrightarrow> \<not> Status_ok s"
  by (auto simp: ReadAll_entry_def Let_def split: list.splits option.splits if_splits)

lemma ReadAll_loop_grows: "\<exists>xs. snd (ReadAll_loop path k d out) = out @ xs"
proof (induction k arbitrary: d out)
  case (Suc k)
  show ?case
  proof (cases "ReadAll_entry path d")
    case (Inr p)
    obtain e r where "p = (e, r)" by fastforce
    with Inr Suc.IH [of r "out @ [e]"] show ?thesis by auto
  qed simp
qed simp

lemma ReadAll_loop_take:
  assumes "ReadAll_loop path k d out = (Status_OK, es)"
  shows "ReadAll_loop path k (take n d) out = (Status_OK, es) \<or>
    (\<exists>s m. ReadAll_loop path k (take n d) out = (s, take m es) \<and> \<not> Status_ok s)"
  using assms
proof (induction k arbitrary: d n out)
  case (Suc k)
  show ?case
  proof (cases "ReadAll_entry path (take n d)")
    case (Inl s)
    obtain xs where "es = out @ xs" using ReadAll_loop_grows [of path "Suc k" d out] Suc.prems by auto
    then have "out = take (length out) es" by simp
    with Inl ReadAll_entry_error [OF Inl] show ?thesis by auto
  next
    case (Inr p)
    obtain e r where p: "p = (e, r)" by fastforce
    from ReadAll_entry_take [OF Inr [unfolded p]] obtain m r' where "ReadAll_entry path d = Inr (e, r')" "r = take m r'" by blast
    then show ?thesis using Suc.IH [of r' "out @ [e]" m] Suc.prems Inr p by simp
  qed
qed simp

lemma ReadAll_cut:
  assumes "SSTableReader_ReadAll r = (Status_OK, es)"
  shows "SSTableReader_ReadAll (cut_reader n r) = (Status_OK, es) \<or>
    (\<exists>s m. SSTableReader_ReadAll (cut_reader n r) = (s, take m es) \<and> \<not> Status_ok s)"
  using assms ReadAll_loop_take [of "r_path r" "length (r_index r)" _ "[]" es n]
  by (auto simp: SSTableReader_ReadAll_def cut_reader_def split: option.splits)

section \<open>Properties\<close>

lemma SSTableWriter_Write_calm:
  assumes "calm w" and "es \<noteq> []" and "BloomFilter_Build (map e_key es) bits = Some filt"
  shows "\<exists>w'. SSTableWriter_Write path es bits w = (Status_OK, w') \<and> calm w'"
  using assms by (simp add: SSTableWriter_Write_def Let_def Write_layout_eq)

text \<open>C26. A table file that was written successfully and opened successfully, whatever failed or came back short while that happened, answers
  like the entries it was written from: a full scan returns them all, and a lookup finds exactly the keys among them, with their
  value or as deleted, leaving the out-parameters alone on a miss. If a later read on the open handle fails, wherever in the file,
  a scan answers the same or reports an error with the entries before the failure, and a lookup answers the same or reports a miss
  (then perhaps with \<open>*value\<close> overwritten), never anything else.\<close>

theorem sstable_faithful:
  assumes "table_ok es" and "BloomFilter_Build (map e_key es) bits = Some filt" and "table_fits es filt"
    and "SSTableWriter_Write path es bits w = (s1, w1)" and "Status_ok s1"
    and "SSTableReader_Open path w1 = (s2, r, w2)" and "Status_ok s2"
  shows "SSTableReader_ReadAll r = (Status_OK, es) \<and>
    SSTableReader_Get r key value del opts =
      (case table_lookup es key of
         None \<Rightarrow> (False, value, del)
       | Some Tombstone \<Rightarrow> (True, value, True)
       | Some (Live v) \<Rightarrow> (True, v, False)) \<and>
    (SSTableReader_ReadAll (cut_reader n r) = (Status_OK, es) \<or>
      (\<exists>s m. SSTableReader_ReadAll (cut_reader n r) = (s, take m es) \<and> \<not> Status_ok s)) \<and>
    (SSTableReader_Get (cut_reader n r) key value del opts = SSTableReader_Get r key value del opts \<or>
      (\<exists>v. SSTableReader_Get (cut_reader n r) key value del opts = (False, v, del)))"
proof -
  have "fget w1 path = Some (table_bytes es filt)"
    using SSTableWriter_Write_ok [OF assms(4,5)] assms(2) by auto
  from SSTableReader_Open_ok [OF assms(1,3) Build_nonempty [OF assms(2)] this assms(6,7)]
  have r: "reader_for r es" using assms(1-3) by (auto simp: reader_for_def)
  then have "SSTableReader_ReadAll r = (Status_OK, es)" by (rule ReadAll_reader)
  from this ReadAll_cut [OF this, of n] Get_cut [of n r key "value" del opts] r show ?thesis
    by (simp only: Get_reader)
qed

definition sample_table :: "SSTableEntry list" where
  "sample_table = [\<lparr>e_key = [1], e_type = EntryType_kPut, e_value = [2, 3]\<rparr>,
     \<lparr>e_key = [1, 0], e_type = EntryType_kDelete, e_value = []\<rparr>]"

lemma sample_table_ok: "table_ok sample_table"
  by (simp add: sample_table_def table_ok_def entry_ok_def lps_ok_def)

lemma length_entry_bytes_le: "length (entry_bytes e) \<le> length (e_key e) + length (e_value e) + 11"
  using length_varint32 [of "of_nat (length (e_key e))"] length_varint32 [of "of_nat (length (e_value e))"]
  by (simp add: entry_bytes_eq lps_bytes_def del: length_varint32)

lemma sample_table_built:
  obtains filt where "BloomFilter_Build (map e_key sample_table) 10 = Some filt" "table_fits sample_table filt"
proof -
  obtain filt where f: "BloomFilter_Build (map e_key sample_table) 10 = Some filt" "length filt = 9"
    by (simp add: BloomFilter_Build_def Let_def bloom_bytes_def addressable_def word_less_nat_alt sample_table_def)
  have "length (data_bytes sample_table) \<le> 27" "length (index_bytes sample_table) \<le> 30"
    using length_entry_bytes_le [of "sample_table ! 0"] length_entry_bytes_le [of "sample_table ! 1"]
      length_varint32 [of 1] length_varint32 [of 2]
    by (simp_all add: sample_table_def index_bytes_def lps_bytes_def del: length_varint32)
  moreover have "length filt < addressable" unfolding f(2) by (simp add: addressable_def)
  ultimately show thesis using f(1) by (intro that) (simp_all add: table_fits_def addressable_def)
qed

theorem sstable_faithful_witness:
  "\<exists>w1 r w2. SSTableWriter_Write ''t'' sample_table 10 \<lparr>files = [], dirs = [], faults = [], crashed = False\<rparr> = (Status_OK, w1) \<and>
     SSTableReader_Open ''t'' w1 = (Status_OK, r, w2) \<and> SSTableReader_ReadAll r = (Status_OK, sample_table) \<and>
     SSTableReader_Get r [1] [] True \<lparr>verify_checksums = True\<rparr> = (True, [2, 3], False)"
  (is "\<exists>w1 r w2. SSTableWriter_Write _ _ _ ?w = _ \<and> _")
proof -
  obtain filt where f: "BloomFilter_Build (map e_key sample_table) 10 = Some filt" "table_fits sample_table filt"
    by (rule sample_table_built)
  obtain w1 where w1: "SSTableWriter_Write ''t'' sample_table 10 ?w = (Status_OK, w1)" "calm w1"
    using SSTableWriter_Write_calm [of ?w sample_table 10 filt "''t''"] f
    by (auto simp: sample_table_def calm_def)
  have "fget w1 ''t'' = Some (table_bytes sample_table filt)"
    using SSTableWriter_Write_ok [OF w1(1)] f(1) by auto
  from SSTableReader_Open_calm [OF sample_table_ok f(2) Build_nonempty [OF f(1)] w1(2) this]
  have r: "SSTableReader_Open ''t'' w1 = (Status_OK, table_reader ''t'' sample_table filt, w1)" .
  from sstable_faithful [OF sample_table_ok f(1,2) w1(1) _ r, of "[1]" "[]" True "\<lparr>verify_checksums = True\<rparr>"] w1 r
  show ?thesis by (auto simp: sample_table_def table_lookup_def entry_of_def)
qed

text \<open>Without faults, writing and opening a table both succeed, for every table whose sections fit in memory and whose filter can be built.\<close>

theorem sstable_write_open_succeed:
  assumes "calm w" and "table_ok es" and "BloomFilter_Build (map e_key es) bits = Some filt" and "table_fits es filt"
  shows "\<exists>w1 r. SSTableWriter_Write path es bits w = (Status_OK, w1) \<and> SSTableReader_Open path w1 = (Status_OK, r, w1) \<and>
    r_min_key r = e_key (hd es) \<and> r_max_key r = e_key (last es)"
proof -
  have "es \<noteq> []" using assms(2) by (simp add: table_ok_def)
  then obtain w1 where w1: "SSTableWriter_Write path es bits w = (Status_OK, w1)" "calm w1"
    using SSTableWriter_Write_calm [OF assms(1) _ assms(3)] by blast
  have "fget w1 path = Some (table_bytes es filt)"
    using SSTableWriter_Write_ok [OF w1(1)] assms(3) by auto
  from SSTableReader_Open_calm [OF assms(2,4) Build_nonempty [OF assms(3)] w1(2) this] w1 show ?thesis
    by (auto simp: table_reader_def)
qed

theorem sstable_write_open_succeed_witness:
  "\<exists>w1 r. SSTableWriter_Write ''t'' sample_table 10 \<lparr>files = [], dirs = [], faults = [], crashed = False\<rparr> = (Status_OK, w1) \<and>
    SSTableReader_Open ''t'' w1 = (Status_OK, r, w1) \<and> r_min_key r = [1] \<and> r_max_key r = [1, 0]"
proof -
  obtain filt where f: "BloomFilter_Build (map e_key sample_table) 10 = Some filt" "table_fits sample_table filt"
    by (rule sample_table_built)
  have "calm \<lparr>files = [], dirs = [], faults = [], crashed = False\<rparr>" by (simp add: calm_def)
  from sstable_write_open_succeed [OF this sample_table_ok f, of "''t''"] show ?thesis
    by (simp add: sample_table_def)
qed

end
