(* ===== verification/Version.thy ===== *)
theory Version
  imports Crc32c Status FileSystem
begin

text \<open>
  \<open>include/clomdb/version.h\<close> and \<open>src/version.cpp\<close>: the set of live tables per level and its
  checksummed snapshot, the manifest. Saving writes a temporary file and renames it; loading
  checks length, checksum, magic and every field. The component's theorems: a saved version is loaded back
  unchanged, whatever is read is either a complete manifest or an error, and at every crash point of
  a save the manifest on disk is the old one or the new one.
\<close>

definition kMaxLevels :: nat where "kMaxLevels = 6"

record FileMetaData =
  number :: u64
  min_key :: bytes
  max_key :: bytes
  file_size :: u64

record Version =
  levels :: "FileMetaData list list"
  next_file_number :: u64

definition Version_new :: Version where
  "Version_new = \<lparr>levels = replicate kMaxLevels [], next_file_number = 1\<rparr>"

definition Version_Level :: "Version \<Rightarrow> nat \<Rightarrow> FileMetaData list" where
  "Version_Level v level = levels v ! level"

definition Version_SetLevel :: "Version \<Rightarrow> nat \<Rightarrow> FileMetaData list \<Rightarrow> Version" where
  "Version_SetLevel v level fs = v\<lparr>levels := (levels v)[level := fs]\<rparr>"

definition kManifestMagic :: u64 where "kManifestMagic = 0x436c6f6d444d4631"

section \<open>Save\<close>

definition Save_file :: "bytes \<Rightarrow> FileMetaData \<Rightarrow> bytes" where
  "Save_file buf fm =
     PutLengthPrefixedSlice (PutLengthPrefixedSlice
       (PutFixed64 (PutFixed64 buf (number fm)) (file_size fm)) (min_key fm)) (max_key fm)"

definition Save_level :: "bytes \<Rightarrow> FileMetaData list \<Rightarrow> bytes" where
  "Save_level buf fs = foldl Save_file (PutFixed32 buf (of_nat (length fs))) fs"

definition Save_body :: "Version \<Rightarrow> bytes" where
  "Save_body v =
     (let buf = PutFixed32 (PutFixed64 (PutFixed64 [] kManifestMagic) (next_file_number v))
                  (of_nat kMaxLevels)
      in foldl Save_level buf (map (\<lambda>lvl. levels v ! lvl) [0..<kMaxLevels]))"

definition Save_bytes :: "Version \<Rightarrow> bytes" where
  "Save_bytes v = PutFixed32 [] (crc_Value (Save_body v)) @ Save_body v"

definition Version_Save :: "Version \<Rightarrow> path \<Rightarrow> world \<Rightarrow> Status \<times> world" where
  "Version_Save v manifest_path w =
     (let tmp_path = manifest_path @ ''.tmp'' in
      case fopen_wb tmp_path w of
        (Inl e, w1) \<Rightarrow> (Status_IOError (tmp_path @ '': '' @ strerror e), w1)
      | (Inr _, w1) \<Rightarrow>
          (let out = Save_bytes v;
               (n, w2) = fwrite tmp_path out w1;
               (ok, w3) = (if n = length out then fsync_call w2 else (False, w2))
           in if \<not> ok
              then (Status_IOError (manifest_path @ '': failed writing manifest''), fremove tmp_path w3)
              else case frename tmp_path manifest_path w3 of
                (False, w4) \<Rightarrow>
                  (Status_IOError (manifest_path @ '': rename failed: '' @ strerror EIO), w4)
              | (True, w4) \<Rightarrow> (Status_OK, w4)))"

section \<open>Load\<close>

text \<open>
  The loops write into the version as they parse, so an error leaves the part read so far: each
  returns the status, what it has stored and the rest of the input. (The partial version matters:
  a failed \<open>DB::Open\<close> destroys the object, and the destructor saves it.)
\<close>

fun Load_files ::
  "path \<Rightarrow> nat \<Rightarrow> bytes \<Rightarrow> FileMetaData list \<Rightarrow> Status \<times> FileMetaData list \<times> bytes" where
  "Load_files mp 0 p fs = (Status_OK, fs, p)"
| "Load_files mp (Suc n) p fs =
     (if length p < 16 then (Status_Corruption (mp @ '': truncated file entry''), fs, p)
      else
        let num = DecodeFixed64 p; sz = DecodeFixed64 (drop 8 p) in
        case GetLengthPrefixedSlice (drop 16 p) of
          None \<Rightarrow> (Status_Corruption (mp @ '': malformed file entry''), fs, p)
        | Some (min_k, input) \<Rightarrow>
            (case GetLengthPrefixedSlice input of
               None \<Rightarrow> (Status_Corruption (mp @ '': malformed file entry''), fs, p)
             | Some (max_k, input') \<Rightarrow>
                 Load_files mp n input'
                   (fs @ [\<lparr>number = num, min_key = min_k, max_key = max_k, file_size = sz\<rparr>])))"

text \<open>The loop over the levels; \<open>lvls\<close> are the levels already filled, the others are empty.\<close>

fun Load_levels ::
  "path \<Rightarrow> nat \<Rightarrow> bytes \<Rightarrow> FileMetaData list list \<Rightarrow> Status \<times> FileMetaData list list" where
  "Load_levels mp 0 p lvls = (Status_OK, lvls)"
| "Load_levels mp (Suc n) p lvls =
     (if length p < 4 then (Status_Corruption (mp @ '': truncated''), lvls @ replicate (Suc n) [])
      else case Load_files mp (unat (DecodeFixed32 p)) (drop 4 p) [] of
        (s, fs, p') \<Rightarrow>
          if \<not> Status_ok s then (s, lvls @ [fs] @ replicate n [])
          else Load_levels mp n p' (lvls @ [fs]))"

text \<open>Parsing of the body, after the checksum has been verified.\<close>

definition Load_body :: "Version \<Rightarrow> path \<Rightarrow> bytes \<Rightarrow> Status \<times> Version" where
  "Load_body v mp body =
     (if length body < 8 \<or> DecodeFixed64 body \<noteq> kManifestMagic
      then (Status_Corruption (mp @ '': bad magic''), v)
      else let p1 = drop 8 body in
        if length p1 < 8 then (Status_Corruption (mp @ '': truncated''), v)
        else let v1 = v\<lparr>next_file_number := DecodeFixed64 p1\<rparr>; p2 = drop 8 p1 in
          if length p2 < 4 then (Status_Corruption (mp @ '': truncated''), v1)
          else let num_levels = DecodeFixed32 p2; p3 = drop 4 p2 in
            if num_levels \<noteq> of_nat kMaxLevels
            then (Status_Corruption (mp @ '': level count mismatch''), v1)
            else case Load_levels mp kMaxLevels p3 [] of
              (s, lvls) \<Rightarrow> (s, v1\<lparr>levels := lvls\<rparr>))"

definition Version_Load :: "Version \<Rightarrow> path \<Rightarrow> world \<Rightarrow> Status \<times> Version \<times> world" where
  "Version_Load v mp w =
     (case fopen_rb mp w of
        (Inl ENOENT, w1) \<Rightarrow> (Status_NotFound mp, v, w1)
      | (Inl e, w1) \<Rightarrow> (Status_IOError (mp @ '': '' @ strerror e), v, w1)
      | (Inr f, w1) \<Rightarrow>
          (let sz = rf_size f; buf = take sz (rf_data f) in
           if length buf \<noteq> sz \<or> sz < 4
           then (Status_Corruption (mp @ '': truncated manifest''), v, w1)
           else
             let stored_crc = DecodeFixed32 buf;
                 body = drop 4 buf;
                 computed_crc = crc_Value body
             in if computed_crc \<noteq> stored_crc
                then (Status_Corruption (mp @ '': checksum mismatch''), v, w1)
                else case Load_body v mp body of (s, v') \<Rightarrow> (s, v', w1)))"

section \<open>Round trip\<close>

definition file_bytes :: "FileMetaData \<Rightarrow> bytes" where
  "file_bytes fm = le_bytes 8 (number fm) @ le_bytes 8 (file_size fm) @
     lps_bytes (min_key fm) @ lps_bytes (max_key fm)"

definition level_bytes :: "FileMetaData list \<Rightarrow> bytes" where
  "level_bytes fs = le_bytes 4 (of_nat (length fs) :: u32) @ concat (map file_bytes fs)"

definition file_meta_ok :: "FileMetaData \<Rightarrow> bool" where
  "file_meta_ok fm \<longleftrightarrow> lps_ok (min_key fm) \<and> lps_ok (max_key fm)"

definition Version_ok :: "Version \<Rightarrow> bool" where
  "Version_ok v \<longleftrightarrow> length (levels v) = kMaxLevels \<and>
     (\<forall>fs\<in>set (levels v). length fs < 2 ^ 32 \<and> list_all file_meta_ok fs)"

lemma Save_file_eq: "Save_file buf fm = buf @ file_bytes fm"
  by (simp add: Save_file_def PutLengthPrefixedSlice_eq PutFixed64_def file_bytes_def)

lemma foldl_Save_file: "foldl Save_file buf fs = buf @ concat (map file_bytes fs)"
  by (induction fs arbitrary: buf) (simp_all add: Save_file_eq)

lemma foldl_Save_level: "foldl Save_level buf ls = buf @ concat (map level_bytes ls)"
  by (induction ls arbitrary: buf)
    (simp_all add: Save_level_def level_bytes_def foldl_Save_file PutFixed32_def)

lemma Save_body_eq:
  assumes "length (levels v) = kMaxLevels"
  shows "Save_body v = le_bytes 8 kManifestMagic @ le_bytes 8 (next_file_number v) @
    le_bytes 4 (of_nat kMaxLevels :: u32) @ concat (map level_bytes (levels v))"
proof -
  have "map (\<lambda>lvl. levels v ! lvl) [0..<kMaxLevels] = levels v"
    using assms by (metis map_nth)
  then show ?thesis
    by (simp add: Save_body_def Let_def foldl_Save_level PutFixed32_def PutFixed64_def)
qed

lemma Load_files_encoded:
  assumes "list_all file_meta_ok fs"
  shows "Load_files mp (length fs) (concat (map file_bytes fs) @ rest) acc = (Status_OK, acc @ fs, rest)"
  using assms
proof (induction fs arbitrary: acc)
  case (Cons fm fs)
  then show ?case
    by (simp add: file_bytes_def [of fm] Let_def GetLengthPrefixedSlice_encoded file_meta_ok_def)
qed simp

lemma Load_levels_encoded:
  assumes "\<forall>fs\<in>set ls. length fs < 2 ^ 32 \<and> list_all file_meta_ok fs"
  shows "Load_levels mp (length ls) (concat (map level_bytes ls) @ rest) acc = (Status_OK, acc @ ls)"
  using assms
proof (induction ls arbitrary: acc)
  case (Cons fs ls)
  then show ?case by (simp add: level_bytes_def Load_files_encoded)
qed simp

lemma Load_body_Save_body:
  assumes "Version_ok v"
  shows "Load_body v0 mp (Save_body v) = (Status_OK, v)"
proof -
  have len: "length (levels v) = kMaxLevels" using assms by (simp add: Version_ok_def)
  have "Load_levels mp kMaxLevels (concat (map level_bytes (levels v))) [] = (Status_OK, levels v)"
    using Load_levels_encoded [of "levels v" mp "[]" "[]"] assms by (simp add: Version_ok_def)
  then show ?thesis by (simp add: Load_body_def Let_def Save_body_eq [OF len])
qed

lemma Version_Load_image:
  assumes "Version_ok v" and "fopen_rb mp w = (Inr \<lparr>rf_size = length (Save_bytes v), rf_data = Save_bytes v\<rparr>, w1)"
  shows "Version_Load v0 mp w = (Status_OK, v, w1)"
  using assms DecodeFixed32_encoded [of "crc_Value (Save_body v)" "Save_body v"]
  by (simp add: Version_Load_def Let_def Save_bytes_def PutFixed32_def Load_body_Save_body)

section \<open>Saving and loading through the file system\<close>

lemma canon_tmp [simp]: "canon (mp @ ''.tmp'') = canon mp @ ''.tmp''"
  by (subst canon_append) (simp_all add: canon_no_slash)

lemma Version_Save_frame:
  assumes "Version_Save v mp w = (s, w')"
  shows "changes_only {canon mp, canon mp @ ''.tmp''} w w'"
proof -
  let ?P = "{canon mp, canon mp @ ''.tmp''}" and ?t = "mp @ ''.tmp''"
  have frames: "fopen_wb ?t a = (x, b) \<Longrightarrow> changes_only ?P a b"
    "fwrite ?t d a = (n, b) \<Longrightarrow> changes_only ?P a b"
    "fsync_call a = (ok, b) \<Longrightarrow> changes_only ?P a b"
    "frename ?t mp a = (ok, b) \<Longrightarrow> changes_only ?P a b"
    "changes_only ?P a (fremove ?t a)" for a b x d n ok
    using io_frameD(1) [of ?t a x b] io_frameD(4) [of ?t d a n b] io_frameD(5) [of a ok b ?P]
      io_frameD(6) [of ?t mp a ok b] fremove_frame [of ?t a]
    by (auto intro: changes_only_mono)
  show ?thesis
    using assms unfolding Version_Save_def Let_def
    by (auto split: prod.splits sum.splits bool.splits if_splits dest!: frames(1-4))
      (meson changes_only_trans frames(5))+
qed

lemma Version_Save_cases:
  assumes "Version_Save v mp w = (s, w')"
  obtains (saved) "Status_ok s" "fget w' mp = Some (Save_bytes v)" "\<not> crashed w'"
    | (failed) "\<not> Status_ok s" "fget w' mp = fget w mp"
proof -
  let ?t = "mp @ ''.tmp''"
  have keep: "fopen_wb ?t a = (x, b) \<Longrightarrow> fget b mp = fget a mp"
    "fwrite ?t d a = (n, b) \<Longrightarrow> fget b mp = fget a mp"
    "fsync_call a = (ok, b) \<Longrightarrow> fget b mp = fget a mp"
    "frename ?t mp a = (False, b) \<Longrightarrow> fget b mp = fget a mp"
    "fget (fremove ?t a) mp = fget a mp" for a b x d n ok
    subgoal by (drule io_frameD(1)) (simp add: changes_only_fget)
    subgoal by (drule io_frameD(4)) (simp add: changes_only_fget)
    subgoal by (drule io_frameD(5) [where P = "{}"]) (simp add: changes_only_fget)
    subgoal by (rule next_fault_cases [of a]) (auto simp: frename_def split: fault.splits option.splits)
    subgoal using fremove_frame [of ?t a] by (simp add: changes_only_fget)
    done
  show thesis
  proof (cases "Status_ok s")
    case True
    with assms obtain w1 w2 w3 where w1: "fopen_wb ?t w = (Inr (), w1)"
      and w2: "fwrite ?t (Save_bytes v) w1 = (length (Save_bytes v), w2)"
      and w3: "fsync_call w2 = (True, w3)" and w4: "frename ?t mp w3 = (True, w')"
      by (auto simp: Version_Save_def Let_def split: prod.splits sum.splits bool.splits if_splits)
    have "fget w3 ?t = Some (Save_bytes v)"
      using fwrite_full [OF w2, of "[]"] fopen_wb_ok [OF w1] fsync_call_ok [OF w3] by (simp add: fget_def)
    then show thesis using frename_ok [OF w4] True by (intro saved) simp_all
  next
    case False
    with assms have "fget w' mp = fget w mp"
      by (auto simp: Version_Save_def Let_def keep(5) split: prod.splits sum.splits bool.splits if_splits
          dest!: keep(1-4))
    with False show thesis by (rule failed)
  qed
qed

lemma Version_Load_frame: "Version_Load v mp w = (s, v', w') \<Longrightarrow> changes_only P w w'"
  unfolding Version_Load_def Let_def
  by (auto split: prod.splits sum.splits errno.splits if_splits dest!: io_frameD(3) [where P = P])

text \<open>An unreadable tail cannot be mistaken for a manifest: a successful load read all of it.\<close>

lemma Version_Load_ok:
  assumes "Version_ok v" and "fget w mp = Some (Save_bytes v)"
    and "Version_Load v0 mp w = (s, v', w')" and "Status_ok s"
  shows "v' = v \<and> \<not> crashed w'"
proof -
  from assms(3,4) obtain f w1 where f: "fopen_rb mp w = (Inr f, w1)"
    and len: "length (take (rf_size f) (rf_data f)) = rf_size f"
    by (auto simp: Version_Load_def Let_def split: prod.splits sum.splits errno.splits if_splits)
  from fopen_rb_ok [OF f] assms(2) obtain n where "\<not> crashed w1"
    and n: "f = \<lparr>rf_size = length (Save_bytes v), rf_data = take n (Save_bytes v)\<rparr>" by auto
  have "length (Save_bytes v) \<le> n" using len by (simp add: n min_def split: if_splits)
  then have "Version_Load v0 mp w = (Status_OK, v, w1)"
    using f n by (intro Version_Load_image [OF assms(1)]) simp
  with assms(3) \<open>\<not> crashed w1\<close> show ?thesis by simp
qed

lemma Version_Load_missing:
  assumes "fget w mp = None" and "Version_Load v0 mp w = (s, v', w')"
  shows "v' = v0 \<and> \<not> Status_ok s"
  using assms fopen_rb_ok [of mp w] unfolding Version_Load_def Let_def
  by (fastforce split: prod.splits sum.splits errno.splits if_splits)

lemma Version_Load_calm:
  assumes "Version_ok v" and "calm w" and "fget w mp = Some (Save_bytes v)"
  shows "Version_Load v0 mp w = (Status_OK, v, w)"
  using assms by (intro Version_Load_image) simp_all

lemma Version_Save_calm: "calm w \<Longrightarrow> \<exists>w'. Version_Save v mp w = (Status_OK, w') \<and> calm w'"
  by (simp add: Version_Save_def Let_def)

section \<open>Properties\<close>

text \<open>C24. Saving the manifest is atomic under every fault and crash: the manifest file holds the complete new contents exactly when the save
  reports success, and otherwise exactly what it held before; no other file than the manifest and its temporary changes.\<close>

theorem manifest_save_atomic:
  "fget (snd (Version_Save v mp w)) mp =
     (if Status_ok (fst (Version_Save v mp w)) then Some (Save_bytes v) else fget w mp) \<and>
   {p. fget (snd (Version_Save v mp w)) p \<noteq> fget w p} \<subseteq> {p. canon p \<in> {canon mp, canon (mp @ ''.tmp'')}}"
proof -
  obtain s w' where r: "Version_Save v mp w = (s, w')" by fastforce
  have "fget w' p = fget w p" if "canon p \<notin> {canon mp, canon mp @ ''.tmp''}" for p
    using changes_only_fget [OF Version_Save_frame [OF r] that] .
  moreover have "fget w' mp = (if Status_ok s then Some (Save_bytes v) else fget w mp)"
    using r by (rule Version_Save_cases) simp_all
  ultimately show ?thesis by (auto simp: r)
qed

text \<open>C25. What was saved is loaded back: a version with six levels of fewer than 2^32 files each and keys below 4 GiB, saved in a
  fault-free world, is the version \<open>Load\<close> then returns; and under faults a \<open>Load\<close> that reports success on a saved
  manifest returns exactly that version.\<close>

theorem manifest_roundtrip:
  assumes "Version_ok v"
  shows "(calm w \<longrightarrow> (\<exists>w'. Version_Save v mp w = (Status_OK, w') \<and> Version_Load v0 mp w' = (Status_OK, v, w'))) \<and>
    (Status_ok (fst (Version_Save v mp w)) \<longrightarrow>
     Status_ok (fst (Version_Load v0 mp (reboot fs (snd (Version_Save v mp w))))) \<longrightarrow>
     fst (snd (Version_Load v0 mp (reboot fs (snd (Version_Save v mp w))))) = v)"
proof (intro conjI impI)
  assume "calm w"
  then have save: "Version_Save v mp w =
      (Status_OK, fset mp (Save_bytes v) (fdel (mp @ ''.tmp'') (fset (mp @ ''.tmp'') (Save_bytes v) (fset (mp @ ''.tmp'') [] w))))"
    by (simp add: Version_Save_def Let_def)
  with \<open>calm w\<close> show "\<exists>w'. Version_Save v mp w = (Status_OK, w') \<and> Version_Load v0 mp w' = (Status_OK, v, w')"
    using Version_Load_calm [OF assms] by simp
next
  obtain s w' where r: "Version_Save v mp w = (s, w')" by fastforce
  obtain s2 v' w2 where l: "Version_Load v0 mp (reboot fs w') = (s2, v', w2)" by (metis prod_cases3)
  assume "Status_ok (fst (Version_Save v mp w))"
    "Status_ok (fst (Version_Load v0 mp (reboot fs (snd (Version_Save v mp w)))))"
  moreover from this have "fget (reboot fs w') mp = Some (Save_bytes v)"
    using r by (auto elim: Version_Save_cases)
  ultimately show "fst (snd (Version_Load v0 mp (reboot fs (snd (Version_Save v mp w))))) = v"
    using Version_Load_ok [OF assms _ l] by (simp add: r l)
qed

definition sample_version :: Version where
  "sample_version = \<lparr>levels = [[\<lparr>number = 3, min_key = [1], max_key = [2, 2], file_size = 99\<rparr>], [], [], [], [], []],
     next_file_number = 4\<rparr>"

theorem manifest_roundtrip_witness:
  "\<exists>w'. Version_Save sample_version ''M'' \<lparr>files = [], dirs = [], faults = [], crashed = False\<rparr> = (Status_OK, w') \<and>
    Version_Load Version_new ''M'' w' = (Status_OK, sample_version, w')"
proof -
  have "Version_ok sample_version"
    by (simp add: sample_version_def Version_ok_def kMaxLevels_def file_meta_ok_def lps_ok_def)
  from manifest_roundtrip [OF this, of "\<lparr>files = [], dirs = [], faults = [], crashed = False\<rparr>" "''M''" Version_new]
  show ?thesis by (simp add: calm_def)
qed

text \<open>C28. Damage to the manifest's body confined to four consecutive bytes is reported as corruption and leaves the version alone.\<close>

theorem manifest_damage_detected:
  assumes "Save_body v = xs @ us @ ys" and "length vs = length us" and "length us \<le> 4" and "vs \<noteq> us"
    and "calm w" and "fget w mp = Some (take 4 (Save_bytes v) @ xs @ vs @ ys)"
  shows "Version_Load v0 mp w = (Status_Corruption (mp @ '': checksum mismatch''), v0, w)"
proof -
  have "crc_Value (xs @ vs @ ys) \<noteq> crc_Value (Save_body v)"
    using crc_ref_window_inj [of vs us xs ys] assms(1-4) by (auto simp: crc_Value_ref)
  moreover have "take 4 (Save_bytes v) = le_bytes 4 (crc_Value (Save_body v))"
    by (simp add: Save_bytes_def PutFixed32_def)
  ultimately show ?thesis using assms(5,6) by (simp add: Version_Load_def Let_def)
qed

lemma sample_body_tail: "\<exists>xs. Save_body sample_version = xs @ le_bytes 4 (0 :: u32) @ []"
proof -
  have "length (levels sample_version) = kMaxLevels" by (simp add: sample_version_def kMaxLevels_def)
  from Save_body_eq [OF this] show ?thesis by (simp add: sample_version_def level_bytes_def)
qed

theorem manifest_damage_detected_witness:
  "\<exists>d. Version_Load Version_new ''M'' \<lparr>files = [(''M'', d)], dirs = [], faults = [], crashed = False\<rparr> =
    (Status_Corruption ''M: checksum mismatch'', Version_new,
     \<lparr>files = [(''M'', d)], dirs = [], faults = [], crashed = False\<rparr>)"
proof -
  obtain xs where xs: "Save_body sample_version = xs @ le_bytes 4 (0 :: u32) @ []" using sample_body_tail by blast
  let ?d = "take 4 (Save_bytes sample_version) @ xs @ le_bytes 4 (1 :: u32) @ []"
  let ?w = "\<lparr>files = [(''M'', ?d)], dirs = [], faults = [], crashed = False\<rparr>"
  have ne: "le_bytes 4 (1 :: u32) \<noteq> le_bytes 4 (0 :: u32)"
    using fixed32.enc_inj [of "1 :: u32" 0] by (metis zero_neq_one)
  have "calm ?w" "fget ?w ''M'' = Some ?d" by (simp_all add: calm_def fget_def)
  from manifest_damage_detected [OF xs _ _ ne this] show ?thesis by auto
qed

end
