(* ===== verification/Iterator.thy ===== *)
theory Iterator
  imports Std_Map Status
begin

text \<open>
  \<open>include/clomdb/iterator.h\<close>: a cursor over a materialised snapshot. The position is the part of the
  snapshot from the cursor on; \<open>end()\<close> is the empty rest, where dereferencing is undefined.
\<close>

record Iterator =
  snapshot :: "(bytes, bytes) std_map"
  it_rest :: "(bytes, bytes) std_map"

definition Iterator_new :: "(bytes, bytes) std_map \<Rightarrow> Iterator" where
  "Iterator_new snap = \<lparr>snapshot = snap, it_rest = snap\<rparr>"

definition Iterator_SeekToFirst :: "Iterator \<Rightarrow> Iterator" where
  "Iterator_SeekToFirst it = it\<lparr>it_rest := snapshot it\<rparr>"

definition Iterator_Seek :: "Iterator \<Rightarrow> bytes \<Rightarrow> Iterator" where
  "Iterator_Seek it target = it\<lparr>it_rest := map_lower_bound (snapshot it) target\<rparr>"

definition Iterator_Valid :: "Iterator \<Rightarrow> bool" where
  "Iterator_Valid it \<longleftrightarrow> it_rest it \<noteq> []"

definition Iterator_Next :: "Iterator \<Rightarrow> Iterator" where
  "Iterator_Next it = (if Iterator_Valid it then it\<lparr>it_rest := tl (it_rest it)\<rparr> else it)"

text \<open>\<open>key()\<close> and \<open>value()\<close>; \<open>None\<close> at the end, where the source dereferences \<open>end()\<close>.\<close>

definition Iterator_entry :: "Iterator \<Rightarrow> (bytes \<times> bytes) option" where
  "Iterator_entry it = (case it_rest it of [] \<Rightarrow> None | e # _ \<Rightarrow> Some e)"

definition Iterator_status :: "Iterator \<Rightarrow> Status" where
  "Iterator_status it = Status_OK"

text \<open>The client loop \<open>for (; it->Valid(); it->Next())\<close>: the entries it visits.\<close>

function Iterator_scan :: "Iterator \<Rightarrow> (bytes \<times> bytes) list" where
  "Iterator_scan it =
     (if Iterator_Valid it
      then (case Iterator_entry it of None \<Rightarrow> [] | Some e \<Rightarrow> e # Iterator_scan (Iterator_Next it))
      else [])"
  by pat_completeness auto
termination
  by (relation "measure (\<lambda>it. length (it_rest it))")
    (auto simp: Iterator_Valid_def Iterator_Next_def)

declare Iterator_scan.simps [simp del]

lemma Iterator_scan_rest: "Iterator_scan it = it_rest it"
proof (induction it rule: Iterator_scan.induct)
  case (1 it)
  show ?case
  proof (cases "it_rest it")
    case Nil
    then show ?thesis by (simp add: Iterator_scan.simps [of it] Iterator_Valid_def)
  next
    case (Cons e rest)
    with 1 show ?thesis
      by (simp add: Iterator_scan.simps [of it] Iterator_Valid_def Iterator_entry_def Iterator_Next_def)
  qed
qed

section \<open>Properties\<close>

text \<open>C36. Seeking an iterator and draining it visits, in key order and once each, exactly the snapshot's entries at or after the target; draining a
  fresh or rewound iterator visits the whole snapshot.\<close>

theorem iterator_seek_scan:
  assumes "std_map_ok snap"
  shows "Iterator_scan (Iterator_Seek (it\<lparr>snapshot := snap\<rparr>) target) = filter (\<lambda>(k, _). target \<le> k) snap \<and>
    Iterator_scan (Iterator_SeekToFirst (it\<lparr>snapshot := snap\<rparr>)) = snap \<and> Iterator_scan (Iterator_new snap) = snap"
proof -
  have "dropWhile (\<lambda>(k, _). k < target) snap = filter (\<lambda>(k, _). target \<le> k) snap"
    using assms unfolding std_map_ok_def
  proof (induction snap)
    case (Cons e snap)
    obtain k v where e: "e = (k, v)" by (cases e)
    show ?case
    proof (cases "k < target")
      case False
      then have "\<forall>(k', v')\<in>set snap. target \<le> k'" using Cons.prems by (force simp: e)
      then have "filter (\<lambda>(k, _). target \<le> k) snap = snap" by (auto simp: filter_id_conv)
      with False show ?thesis by (simp add: e)
    qed (use Cons in \<open>simp add: e\<close>)
  qed simp
  then show ?thesis
    by (simp add: Iterator_scan_rest Iterator_Seek_def Iterator_SeekToFirst_def Iterator_new_def map_lower_bound_def)
qed

theorem iterator_seek_scan_witness:
  "Iterator_scan (Iterator_Seek ((Iterator_new [])\<lparr>snapshot := [([1], [10]), ([2], [20]), ([3], [30])]\<rparr>) [1, 5]) =
    [([2], [20]), ([3], [30])]"
  using iterator_seek_scan [of "[([1], [10]), ([2], [20]), ([3], [30])]" "Iterator_new []" "[1, 5]"]
  by (simp add: std_map_ok_def)

end
