(* ===== verification/DB.thy ===== *)
theory DB
  imports WriteBatch Wal SSTable Version Iterator
begin

text \<open>
  \<open>include/clomdb/db.h\<close> and \<open>src/db.cpp\<close>: the engine. The object is a record, one field per data
  member; each member function takes the object and the world and returns its status, the object
  and the world, with every early return as a branch. The mutex makes each public operation atomic, so
  operations are functions and their interleavings are sequences of them. The compaction loops may run
  forever for some options, so operations that contain one return an option.
\<close>

record DB =
  db_path :: path
  db_options :: Options
  db_memtable :: MemTable
  db_wal :: WriteAheadLog
  db_version :: Version
  db_readers :: "SSTableReader list list"
  bg_running :: bool
  bg_work_requested :: bool
  shutting_down :: bool
  bg_idle :: bool
  db_closed :: bool

section \<open>Paths\<close>

text \<open>\<open>snprintf("%012llu")\<close>: decimal digits, zero-padded to twelve.\<close>

fun dec_digits :: "nat \<Rightarrow> string" where
  "dec_digits n =
     (if n < 10 then [char_of (48 + n)] else dec_digits (n div 10) @ [char_of (48 + n mod 10)])"

declare dec_digits.simps [simp del]

definition ZeroPad :: "u64 \<Rightarrow> string" where
  "ZeroPad n = (let s = dec_digits (unat n) in replicate (12 - length s) (CHR ''0'') @ s)"

definition SSTablePath :: "path \<Rightarrow> u64 \<Rightarrow> path" where
  "SSTablePath dbp n = dbp @ ''/'' @ ZeroPad n @ ''.sst''"

definition WalPath :: "path \<Rightarrow> path" where
  "WalPath dbp = dbp @ ''/CURRENT.wal''"

definition ManifestPath :: "path \<Rightarrow> path" where
  "ManifestPath dbp = dbp @ ''/MANIFEST''"

definition kMinCompactionOutputFileBytes :: u64 where
  "kMinCompactionOutputFileBytes = 2 * 1024 * 1024"

section \<open>Flush\<close>

text \<open>The entry a memtable slot is written as.\<close>

definition flush_entry :: "bytes \<times> MemValue \<Rightarrow> SSTableEntry" where
  "flush_entry kv =
     (if deleted (snd kv) then \<lparr>e_key = fst kv, e_type = EntryType_kDelete, e_value = []\<rparr>
      else \<lparr>e_key = fst kv, e_type = EntryType_kPut, e_value = mem_value (snd kv)\<rparr>)"

definition take_file_number :: "DB \<Rightarrow> u64 \<times> DB" where
  "take_file_number db =
     (next_file_number (db_version db),
      db\<lparr>db_version := (db_version db)\<lparr>next_file_number := next_file_number (db_version db) + 1\<rparr>\<rparr>)"

text \<open>Replace the files and readers of one level.\<close>

definition set_level :: "DB \<Rightarrow> nat \<Rightarrow> FileMetaData list \<Rightarrow> SSTableReader list \<Rightarrow> DB" where
  "set_level db lvl fs rs =
     db\<lparr>db_version := Version_SetLevel (db_version db) lvl fs,
        db_readers := (db_readers db)[lvl := rs]\<rparr>"

definition FlushMemTableLocked :: "DB \<Rightarrow> world \<Rightarrow> Status \<times> DB \<times> world" where
  "FlushMemTableLocked db w =
     (if MemTable_is_empty (db_memtable db) then (Status_OK, db, w)
      else
        let entries = map flush_entry (mem_table (db_memtable db));
            (num, db1) = take_file_number db;
            path = SSTablePath (db_path db1) num;
            (s, w1) = SSTableWriter_Write path entries (bloom_bits_per_key (db_options db1)) w
        in if \<not> Status_ok s then (s, db1, w1)
           else
             let (sz, w2) = fs_file_size path w1;
                 fm = \<lparr>number = num, min_key = e_key (hd entries), max_key = e_key (last entries),
                       file_size = sz\<rparr>;
                 (s2, reader, w3) = SSTableReader_Open path w2
             in if \<not> Status_ok s2 then (s2, db1, w3)
                else
                  let db2 = set_level db1 0 (Version_Level (db_version db1) 0 @ [fm])
                              (db_readers db1 ! 0 @ [reader]);
                      (s3, w4) = Version_Save (db_version db2) (ManifestPath (db_path db2)) w3
                  in if \<not> Status_ok s3 then (s3, db2, w4)
                     else
                       let db3 = db2\<lparr>db_memtable := MemTable_Clear (db_memtable db2)\<rparr>;
                           (s4, log, w5) = WriteAheadLog_Close (db_wal db3) w4;
                           db4 = db3\<lparr>db_wal := log\<rparr>
                       in if \<not> Status_ok s4 then (s4, db4, w5)
                          else
                            let w6 = fremove (WalPath (db_path db4)) w5;
                                (s5, log', w7) =
                                  WriteAheadLog_Open WriteAheadLog_new (WalPath (db_path db4)) w6
                            in (s5, db4\<lparr>db_wal := log'\<rparr>, w7))"

section \<open>Compaction\<close>

text \<open>The loop over levels 1 to 4 with its growing target.\<close>

fun NeedsCompaction_levels :: "DB \<Rightarrow> nat \<Rightarrow> nat \<Rightarrow> u64 \<Rightarrow> nat option" where
  "NeedsCompaction_levels db lvl 0 target = None"
| "NeedsCompaction_levels db lvl (Suc n) target =
     (let total = sum_list (map file_size (Version_Level (db_version db) lvl)) in
      if total > target then Some lvl
      else NeedsCompaction_levels db (Suc lvl) n
             (target * of_int (max 1 (level_size_multiplier (db_options db)))))"

text \<open>The level to compact, or \<open>None\<close> where the function returns false.\<close>

definition NeedsCompactionLocked :: "DB \<Rightarrow> nat option" where
  "NeedsCompactionLocked db =
     (if int (length (Version_Level (db_version db) 0)) \<ge> l0_compaction_trigger (db_options db)
      then Some 0
      else NeedsCompaction_levels db 1 (kMaxLevels - 2) (level1_target_bytes (db_options db)))"

text \<open>Merging readers into the map, oldest first; stops at the first table that cannot be read.\<close>

definition merge_entries ::
  "SSTableEntry list \<Rightarrow> (bytes, SSTableEntry) std_map \<Rightarrow> (bytes, SSTableEntry) std_map" where
  "merge_entries entries merged = fold (\<lambda>e m. map_assign (e_key e) e m) entries merged"

fun merge_readers ::
  "SSTableReader list \<Rightarrow> (bytes, SSTableEntry) std_map \<Rightarrow> Status + (bytes, SSTableEntry) std_map" where
  "merge_readers [] merged = Inr merged"
| "merge_readers (r # rs) merged =
     (case SSTableReader_ReadAll r of
        (s, entries) \<Rightarrow>
          if \<not> Status_ok s then Inl s else merge_readers rs (merge_entries entries merged))"

text \<open>The state the output loop works on: the variables \<open>flush_batch\<close> captures.\<close>

record compact_state =
  cs_db :: DB
  cs_files :: "FileMetaData list"
  cs_readers :: "SSTableReader list"
  cs_batch :: "SSTableEntry list"
  cs_bytes :: u64

definition flush_batch :: "compact_state \<Rightarrow> world \<Rightarrow> Status \<times> compact_state \<times> world" where
  "flush_batch cs w =
     (if cs_batch cs = [] then (Status_OK, cs, w)
      else
        let (num, db1) = take_file_number (cs_db cs);
            cs1 = cs\<lparr>cs_db := db1\<rparr>;
            path = SSTablePath (db_path db1) num;
            batch = cs_batch cs;
            (s, w1) = SSTableWriter_Write path batch (bloom_bits_per_key (db_options db1)) w
        in if \<not> Status_ok s then (s, cs1, w1)
           else
             let (sz, w2) = fs_file_size path w1;
                 fm = \<lparr>number = num, min_key = e_key (hd batch), max_key = e_key (last batch),
                       file_size = sz\<rparr>;
                 (s2, reader, w3) = SSTableReader_Open path w2
             in if \<not> Status_ok s2 then (s2, cs1, w3)
                else (Status_OK,
                      cs1\<lparr>cs_files := cs_files cs1 @ [fm], cs_readers := cs_readers cs1 @ [reader],
                          cs_batch := [], cs_bytes := 0\<rparr>, w3))"

fun compact_loop ::
  "bool \<Rightarrow> u64 \<Rightarrow> SSTableEntry list \<Rightarrow> compact_state \<Rightarrow> world \<Rightarrow> Status \<times> compact_state \<times> world" where
  "compact_loop drop_tombstones target_file_bytes [] cs w = (Status_OK, cs, w)"
| "compact_loop drop_tombstones target_file_bytes (entry # rest) cs w =
     (if drop_tombstones \<and> e_type entry = EntryType_kDelete
      then compact_loop drop_tombstones target_file_bytes rest cs w
      else
        let cs1 = cs\<lparr>cs_bytes := cs_bytes cs +
                       (of_nat (length (e_key entry)) + of_nat (length (e_value entry))),
                     cs_batch := cs_batch cs @ [entry]\<rparr>
        in if cs_bytes cs1 \<ge> target_file_bytes
           then (case flush_batch cs1 w of
                   (s, cs2, w1) \<Rightarrow>
                     if \<not> Status_ok s then (s, cs2, w1)
                     else compact_loop drop_tombstones target_file_bytes rest cs2 w1)
           else compact_loop drop_tombstones target_file_bytes rest cs1 w)"

text \<open>Newest file first: descending file numbers (which are distinct).\<close>

definition newest_first :: "(u64 \<times> 'a) list \<Rightarrow> (u64 \<times> 'a) list" where
  "newest_first xs = rev (sort_key fst xs)"

definition CompactLocked :: "nat \<Rightarrow> DB \<Rightarrow> world \<Rightarrow> Status \<times> DB \<times> world" where
  "CompactLocked level db w =
     (let target_level = level + 1 in
      if target_level \<ge> kMaxLevels then (Status_OK, db, w)
      else
        let level_files = Version_Level (db_version db) level;
            level_readers =
              (if level = 0
               then map snd (newest_first (zip (map number level_files) (db_readers db ! level)))
               else db_readers db ! level);
            next_readers = db_readers db ! target_level
        in case merge_readers (next_readers @ rev level_readers) [] of
             Inl s \<Rightarrow> (s, db, w)
           | Inr merged \<Rightarrow>
               let drop_tombstones = (target_level = kMaxLevels - 1);
                   target_file_bytes =
                     max (memtable_flush_bytes (db_options db)) kMinCompactionOutputFileBytes;
                   cs0 = \<lparr>cs_db = db, cs_files = [], cs_readers = [], cs_batch = [], cs_bytes = 0\<rparr>;
                   (s1, cs1, w1) = compact_loop drop_tombstones target_file_bytes (map snd merged) cs0 w
               in if \<not> Status_ok s1 then (s1, cs_db cs1, w1)
                  else
                    let (s2, cs2, w2) = flush_batch cs1 w1
                    in if \<not> Status_ok s2 then (s2, cs_db cs2, w2)
                       else
                         let db1 = cs_db cs2;
                             old_numbers = map number (Version_Level (db_version db1) level) @
                                           map number (Version_Level (db_version db1) target_level);
                             db2 = set_level (set_level db1 level [] []) target_level
                                     (cs_files cs2) (cs_readers cs2);
                             (s3, w3) = Version_Save (db_version db2) (ManifestPath (db_path db2)) w2
                         in if \<not> Status_ok s3 then (s3, db2, w3)
                            else (Status_OK, db2,
                                  fold (\<lambda>n w. fremove (SSTablePath (db_path db2) n) w) old_numbers w3))"

partial_function (option) compaction_while :: "DB \<Rightarrow> world \<Rightarrow> (Status \<times> DB \<times> world) option" where
  "compaction_while db w =
     (case NeedsCompactionLocked db of
        None \<Rightarrow> Some (Status_OK, db, w)
      | Some level \<Rightarrow>
          (case CompactLocked level db w of
             (s, db', w') \<Rightarrow> if \<not> Status_ok s then Some (s, db', w') else compaction_while db' w'))"

section \<open>Open and close\<close>

text \<open>
  \<open>Close\<close> in two parts: it asks the thread to stop and gives up the mutex to join it, and with the mutex taken
  again and the thread gone it flushes, closes the log and saves the manifest. Between the parts other
  clients may get the mutex. \<open>DB_Close\<close> is the call that nobody interrupts.
\<close>

definition DB_Close_begin :: "DB \<Rightarrow> DB" where
  "DB_Close_begin db = db\<lparr>shutting_down := True\<rparr>"

definition DB_Close_finish :: "DB \<Rightarrow> world \<Rightarrow> Status \<times> DB \<times> world" where
  "DB_Close_finish db w =
     (let db1 = db\<lparr>bg_running := False\<rparr>;
          (s, db2, w1) = FlushMemTableLocked db1 w;
          (ws, log, w2) = WriteAheadLog_Close (db_wal db2) w1;
          s1 = (if Status_ok s then ws else s);
          (vs, w3) = Version_Save (db_version db2) (ManifestPath (db_path db2)) w2;
          s2 = (if Status_ok s1 then vs else s1)
      in (s2, db2\<lparr>db_wal := log, db_closed := True\<rparr>, w3))"

definition DB_Close :: "DB \<Rightarrow> world \<Rightarrow> Status \<times> DB \<times> world" where
  "DB_Close db w =
     (if db_closed db then (Status_OK, db, w) else DB_Close_finish (DB_Close_begin db) w)"

text \<open>The destructor closes a database that is still open; it also runs when \<open>Open\<close> gives up.\<close>

definition DB_destroy :: "DB \<Rightarrow> world \<Rightarrow> world" where
  "DB_destroy db w = (if db_closed db then w else snd (snd (DB_Close db w)))"

definition Open_fail :: "Status \<Rightarrow> DB \<Rightarrow> world \<Rightarrow> Status \<times> DB option \<times> world" where
  "Open_fail s db w = (s, None, DB_destroy db w)"

text \<open>A freshly constructed object; the null log pointer is a log that is not open.\<close>

definition DB_new :: "Options \<Rightarrow> path \<Rightarrow> DB" where
  "DB_new options dbp =
     \<lparr>db_path = dbp, db_options = options, db_memtable = MemTable_empty, db_wal = WriteAheadLog_new,
      db_version = Version_new, db_readers = replicate kMaxLevels [], bg_running = False,
      bg_work_requested = False, shutting_down = False, bg_idle = True, db_closed = False\<rparr>"

text \<open>The sweep for table files the manifest does not name.\<close>

definition Open_sweep :: "DB \<Rightarrow> world \<Rightarrow> world" where
  "Open_sweep db w =
     (let dbp = db_path db;
          live = map (\<lambda>fm. SSTablePath dbp (number fm)) (concat (levels (db_version db)))
      in if \<not> fs_exists dbp w then w
         else case fs_directory_iterator dbp w of
           (names, w1) \<Rightarrow>
             fold (\<lambda>name w. if path_extension name = ''.sst'' \<and> path_append dbp name \<notin> set live
                            then fremove (path_append dbp name) w else w) names w1)"

text \<open>The two loops that open a reader for every live table, stopping at the first failure.\<close>

fun Open_level :: "path \<Rightarrow> FileMetaData list \<Rightarrow> SSTableReader list \<Rightarrow> world \<Rightarrow> Status \<times> SSTableReader list \<times> world" where
  "Open_level dbp [] rs w = (Status_OK, rs, w)"
| "Open_level dbp (fm # fms) rs w =
     (case SSTableReader_Open (SSTablePath dbp (number fm)) w of
        (s, r, w1) \<Rightarrow> if \<not> Status_ok s then (s, rs, w1) else Open_level dbp fms (rs @ [r]) w1)"

fun Open_levels ::
  "path \<Rightarrow> FileMetaData list list \<Rightarrow> SSTableReader list list \<Rightarrow> world \<Rightarrow>
   Status \<times> SSTableReader list list \<times> world" where
  "Open_levels dbp [] rss w = (Status_OK, rss, w)"
| "Open_levels dbp (fms # fmss) rss w =
     (case Open_level dbp fms [] w of
        (s, rs, w1) \<Rightarrow>
          if \<not> Status_ok s then (s, rss @ [rs] @ replicate (length fmss) [], w1)
          else Open_levels dbp fmss (rss @ [rs]) w1)"

text \<open>The callback of the log replay; the status of \<open>Iterate\<close> is dropped.\<close>

definition replay_record :: "MemTable \<Rightarrow> bytes \<Rightarrow> MemTable" where
  "replay_record mt record =
     snd (WriteBatch_Iterate (WriteBatch_SetData WriteBatch_empty record) MemTable_Put MemTable_Delete mt)"

text \<open>The part of \<open>Open\<close> after the object has been constructed.\<close>

definition Open_object :: "bool \<Rightarrow> DB \<Rightarrow> world \<Rightarrow> Status \<times> DB option \<times> world" where
  "Open_object existed db w =
     (let (s, v, w1) = Version_Load (db_version db) (ManifestPath (db_path db)) w;
          db1 = db\<lparr>db_version := v\<rparr>
      in if \<not> Status_ok s \<and> \<not> Status_IsNotFound s then Open_fail s db1 w1
         else
           let w2 = Open_sweep db1 w1;
               (rs, rss, w3) = Open_levels (db_path db1) (levels v) [] w2;
               db2 = db1\<lparr>db_readers := rss\<rparr>
           in if \<not> Status_ok rs then Open_fail rs db2 w3
              else
                let (s4, mt, w4) =
                      WriteAheadLog_ReplayAll (WalPath (db_path db2)) replay_record (db_memtable db2) w3;
                    db3 = db2\<lparr>db_memtable := mt\<rparr>
                in if \<not> Status_ok s4 then Open_fail s4 db3 w4
                   else
                     let (s5, log, w5) =
                           WriteAheadLog_Open WriteAheadLog_new (WalPath (db_path db3)) w4;
                         db4 = db3\<lparr>db_wal := log\<rparr>
                     in if \<not> Status_ok s5 then Open_fail s5 db4 w5
                        else
                          let (s6, w6) =
                                (if existed then (Status_OK, w5)
                                 else Version_Save (db_version db4) (ManifestPath (db_path db4)) w5)
                          in if \<not> Status_ok s6 then Open_fail s6 db4 w6
                             else (Status_OK,
                                   Some (db4\<lparr>bg_running := background_compaction (db_options db4)\<rparr>),
                                   w6))"

definition DB_Open :: "Options \<Rightarrow> path \<Rightarrow> world \<Rightarrow> Status \<times> DB option \<times> world" where
  "DB_Open options dbp w =
     (let existed = fs_exists dbp w in
      if \<not> existed then
        if \<not> create_if_missing options
        then (Status_InvalidArgument (dbp @ '': does not exist and create_if_missing is false''), None, w)
        else (case fs_create_directories dbp w of
                (False, w1) \<Rightarrow>
                  (Status_IOError (dbp @ '': failed to create directory: '' @ strerror EIO), None, w1)
              | (True, w1) \<Rightarrow> Open_object existed (DB_new options dbp) w1)
      else if error_if_exists options then (Status_AlreadyExists dbp, None, w)
      else Open_object existed (DB_new options dbp) w)"

section \<open>Writes\<close>

definition ApplyBatchLocked :: "WriteBatch \<Rightarrow> DB \<Rightarrow> Status \<times> DB" where
  "ApplyBatchLocked batch db =
     (case WriteBatch_Iterate batch MemTable_Put MemTable_Delete (db_memtable db) of
        (s, mt) \<Rightarrow> (s, db\<lparr>db_memtable := mt\<rparr>))"

definition MaybeFlushLocked :: "DB \<Rightarrow> world \<Rightarrow> (Status \<times> DB \<times> world) option" where
  "MaybeFlushLocked db w =
     (if MemTable_ApproximateBytes (db_memtable db) \<ge> memtable_flush_bytes (db_options db)
      then (case FlushMemTableLocked db w of
              (s, db1, w1) \<Rightarrow> if \<not> Status_ok s then Some (s, db1, w1) else compaction_while db1 w1)
      else compaction_while db w)"

definition DB_Write :: "WriteOptions \<Rightarrow> WriteBatch \<Rightarrow> DB \<Rightarrow> world \<Rightarrow> (Status \<times> DB \<times> world) option" where
  "DB_Write opts batch db w =
     (if WriteBatch_is_empty batch then Some (Status_OK, db, w)
      else if db_closed db then Some (Status_InvalidArgument ''DB is closed'', db, w)
      else
        let (s, w1) = WriteAheadLog_AddRecord (db_wal db) (rep batch)
                        (sync opts \<or> sync_writes (db_options db)) w
        in if \<not> Status_ok s then Some (s, db, w1)
           else
             let (s2, db1) = ApplyBatchLocked batch db
             in if \<not> Status_ok s2 then Some (s2, db1, w1)
                else if background_compaction (db_options db1)
                then Some (Status_OK, db1\<lparr>bg_work_requested := True, bg_idle := False\<rparr>, w1)
                else MaybeFlushLocked db1 w1)"

definition DB_Put ::
  "WriteOptions \<Rightarrow> bytes \<Rightarrow> bytes \<Rightarrow> DB \<Rightarrow> world \<Rightarrow> (Status \<times> DB \<times> world) option" where
  "DB_Put opts key value = DB_Write opts (WriteBatch_Put WriteBatch_empty key value)"

definition DB_Delete :: "WriteOptions \<Rightarrow> bytes \<Rightarrow> DB \<Rightarrow> world \<Rightarrow> (Status \<times> DB \<times> world) option" where
  "DB_Delete opts key = DB_Write opts (WriteBatch_Delete WriteBatch_empty key)"

definition DB_Flush :: "DB \<Rightarrow> world \<Rightarrow> (Status \<times> DB \<times> world) option" where
  "DB_Flush db w =
     (case FlushMemTableLocked db w of
        (s, db1, w1) \<Rightarrow> if \<not> Status_ok s then Some (s, db1, w1) else compaction_while db1 w1)"

section \<open>Reads\<close>

text \<open>Readers tried in order until one has the key; the out-parameters are threaded through.\<close>

fun Get_search :: "ReadOptions \<Rightarrow> bytes \<Rightarrow> SSTableReader list \<Rightarrow> bytes \<times> bool \<Rightarrow> bool \<times> bytes \<times> bool" where
  "Get_search opts key [] (value, del) = (False, value, del)"
| "Get_search opts key (r # rs) (value, del) =
     (case SSTableReader_Get r key value del opts of
        (found, value', del') \<Rightarrow>
          if found then (True, value', del') else Get_search opts key rs (value', del'))"

text \<open>The files of a level whose key range contains the key.\<close>

definition Get_in_range :: "bytes \<Rightarrow> FileMetaData list \<Rightarrow> SSTableReader list \<Rightarrow> SSTableReader list" where
  "Get_in_range key metas rs =
     map snd (filter (\<lambda>(fm, r). \<not> (slice_less key (min_key fm) \<or> slice_less (max_key fm) key)) (zip metas rs))"

text \<open>The status and the new contents of \<open>*value\<close>.\<close>

definition DB_Get :: "ReadOptions \<Rightarrow> bytes \<Rightarrow> bytes \<Rightarrow> DB \<Rightarrow> Status \<times> bytes" where
  "DB_Get opts key value db =
     (if db_closed db then (Status_InvalidArgument ''DB is closed'', value)
      else
        let result = (\<lambda>del. if del then Status_NotFound (bytes_to_string key) else Status_OK) in
        case MemTable_Get (db_memtable db) key value False of
          (True, v, d) \<Rightarrow> (result d, v)
        | (False, v, d) \<Rightarrow>
            let l0 = newest_first (zip (map number (Version_Level (db_version db) 0)) (db_readers db ! 0))
            in case Get_search opts key (map snd l0) (v, d) of
                 (True, v, d) \<Rightarrow> (result d, v)
               | (False, v, d) \<Rightarrow>
                   (case Get_search opts key
                           (concat (map (\<lambda>lvl. Get_in_range key (Version_Level (db_version db) lvl)
                                                 (db_readers db ! lvl)) [1..<kMaxLevels])) (v, d) of
                      (True, v, d) \<Rightarrow> (result d, v)
                    | (False, v, d) \<Rightarrow> (Status_NotFound (bytes_to_string key), v)))"

definition apply_entry :: "SSTableEntry \<Rightarrow> (bytes, bytes) std_map \<Rightarrow> (bytes, bytes) std_map" where
  "apply_entry e snap =
     (if e_type e = EntryType_kDelete then map_erase (e_key e) snap
      else map_assign (e_key e) (e_value e) snap)"

definition apply_reader :: "SSTableReader \<Rightarrow> (bytes, bytes) std_map \<Rightarrow> (bytes, bytes) std_map" where
  "apply_reader r snap =
     (case SSTableReader_ReadAll r of
        (s, entries) \<Rightarrow> if Status_ok s then fold apply_entry entries snap else snap)"

definition DB_NewIterator :: "DB \<Rightarrow> Iterator" where
  "DB_NewIterator db =
     (let snap1 = fold apply_reader (concat (map (\<lambda>lvl. db_readers db ! lvl) (rev [1..<kMaxLevels]))) [];
          l0 = sort_key fst (zip (map number (Version_Level (db_version db) 0)) (db_readers db ! 0));
          snap2 = fold apply_reader (map snd l0) snap1;
          snap3 = fold (\<lambda>(key, mv) snap. if deleted mv then map_erase key snap
                                         else map_assign key (mem_value mv) snap)
                    (mem_table (db_memtable db)) snap2
      in Iterator_new snap3)"

record Stats =
  memtable_entries :: u64
  memtable_bytes :: u64
  files_per_level :: "u64 list"
  bytes_per_level :: "u64 list"

definition DB_GetStats :: "DB \<Rightarrow> Stats" where
  "DB_GetStats db =
     \<lparr>memtable_entries = of_nat (MemTable_EntryCount (db_memtable db)),
      memtable_bytes = MemTable_ApproximateBytes (db_memtable db),
      files_per_level = map (\<lambda>lvl. of_nat (length (Version_Level (db_version db) lvl))) [0..<kMaxLevels],
      bytes_per_level =
        map (\<lambda>lvl. sum_list (map file_size (Version_Level (db_version db) lvl))) [0..<kMaxLevels]\<rparr>"

section \<open>The background thread\<close>

text \<open>
  One turn of \<open>BackgroundLoop\<close> after the wait, with the mutex held: the thread leaves when the
  database is shutting down, otherwise it takes the request, flushes, compacts and reports idle. Its
  statuses are dropped. The wait's condition is the guard of the step below.
\<close>

definition BackgroundLoop_turn :: "DB \<Rightarrow> world \<Rightarrow> (DB \<times> world) option" where
  "BackgroundLoop_turn db w =
     (if shutting_down db then Some (db\<lparr>bg_running := False\<rparr>, w)
      else
        let (s, db1, w1) = FlushMemTableLocked (db\<lparr>bg_work_requested := False\<rparr>) w
        in if \<not> Status_ok s then Some (db1\<lparr>bg_idle := True\<rparr>, w1)
           else map_option (\<lambda>(s, db2, w2). (db2\<lparr>bg_idle := True\<rparr>, w2)) (compaction_while db1 w1))"

definition BackgroundLoop_awake :: "DB \<Rightarrow> bool" where
  "BackgroundLoop_awake db \<longleftrightarrow> bg_running db \<and> (shutting_down db \<or> bg_work_requested db)"

end
