(* ===== verification/DB_Paths.thy ===== *)
theory DB_Paths
  imports DB
begin

text \<open>
  The file names of a database: table files of different numbers, the log and the manifest
  (with its temporary) never share a path, and the sweep of \<open>DB::Open\<close> recognises exactly the table
  files.
\<close>

section \<open>Zero-padded numbers\<close>

definition digits_value :: "string \<Rightarrow> nat" where
  "digits_value s = foldl (\<lambda>v c. 10 * v + (of_char c - 48)) 0 s"

lemma of_char_digit: "d < 10 \<Longrightarrow> of_char (char_of (48 + d) :: char) = (48 + d :: nat)"
  by simp

lemma digits_value_snoc: "digits_value (s @ [c]) = 10 * digits_value s + (of_char c - 48)"
  by (simp add: digits_value_def)

lemma digits_value_dec_digits: "digits_value (dec_digits n) = n"
proof (induction n rule: dec_digits.induct)
  case (1 n)
  show ?case
  proof (cases "n < 10")
    case True
    then show ?thesis
      by (subst dec_digits.simps) (simp add: digits_value_def of_char_digit del: of_char_of)
  next
    case False
    with 1 show ?thesis
      by (subst dec_digits.simps)
        (simp add: digits_value_snoc of_char_digit del: of_char_of)
  qed
qed

lemma digits_value_zeros: "digits_value (replicate n (CHR ''0'') @ s) = digits_value s"
  by (induction n) (simp_all add: digits_value_def)

lemma ZeroPad_value: "digits_value (ZeroPad n) = unat n"
  by (simp add: ZeroPad_def Let_def digits_value_zeros digits_value_dec_digits)

lemma ZeroPad_inj: "ZeroPad n = ZeroPad m \<longleftrightarrow> n = m"
  by (metis ZeroPad_value word_unat_eq_iff)

lemma dec_digits_digits: "set (dec_digits n) \<subseteq> (\<lambda>d. char_of (48 + d)) ` {..<10 :: nat}"
proof (induction n rule: dec_digits.induct)
  case (1 n)
  then show ?case by (subst dec_digits.simps) auto
qed

lemma digit_not_slash: "d < 10 \<Longrightarrow> (char_of (48 + d :: nat) :: char) \<noteq> CHR ''/''"
proof
  assume d: "d < 10" and "(char_of (48 + d :: nat) :: char) = CHR ''/''"
  then have "of_char (char_of (48 + d :: nat) :: char) = (of_char (CHR ''/'') :: nat)" by simp
  with of_char_digit [OF d] show False by simp
qed

lemma ZeroPad_no_slash: "CHR ''/'' \<notin> set (ZeroPad n)"
proof -
  have "CHR ''/'' \<notin> set (dec_digits m)" for m
    using dec_digits_digits [of m] digit_not_slash by (force simp del: char_of_nat)
  then show ?thesis by (simp add: ZeroPad_def Let_def)
qed

section \<open>Distinct files\<close>

definition table_name :: "u64 \<Rightarrow> string" where
  "table_name n = ZeroPad n @ ''.sst''"

lemma plain_names [simp]:
  "plain_name (table_name n)" "plain_name ''CURRENT.wal''" "plain_name ''MANIFEST''"
  "plain_name ''MANIFEST.tmp''"
  by (simp_all add: plain_name_def table_name_def ZeroPad_no_slash)

lemma table_name_inj: "table_name n = table_name m \<longleftrightarrow> n = m"
  by (simp add: table_name_def ZeroPad_inj)

lemma table_name_last: "last (table_name n) = CHR ''t''"
  by (simp add: table_name_def)

lemma table_name_other:
  "table_name n \<noteq> ''CURRENT.wal''" "table_name n \<noteq> ''MANIFEST''" "table_name n \<noteq> ''MANIFEST.tmp''"
  using table_name_last [of n] by auto

lemma canon_paths:
  "canon (SSTablePath d n) = canon (d @ ''/'') @ table_name n"
  "canon (WalPath d) = canon (d @ ''/'') @ ''CURRENT.wal''"
  "canon (ManifestPath d) = canon (d @ ''/'') @ ''MANIFEST''"
  "canon (ManifestPath d) @ ''.tmp'' = canon (d @ ''/'') @ ''MANIFEST.tmp''"
  using canon_under [OF plain_names(1) [of n], of d] canon_under [of "''CURRENT.wal''" d] canon_under [of "''MANIFEST''" d]
  by (simp_all add: SSTablePath_def WalPath_def ManifestPath_def table_name_def)

definition table_paths :: "path \<Rightarrow> u64 set \<Rightarrow> path set" where
  "table_paths d N = (\<lambda>n. canon (SSTablePath d n)) ` N"

definition manifest_paths :: "path \<Rightarrow> path set" where
  "manifest_paths d = {canon (ManifestPath d), canon (ManifestPath d) @ ''.tmp''}"

lemma SSTablePath_inj: "canon (SSTablePath d n) = canon (SSTablePath d m) \<longleftrightarrow> n = m"
  by (simp add: canon_paths table_name_inj)

lemma in_table_paths [simp]: "canon (SSTablePath d n) \<in> table_paths d N \<longleftrightarrow> n \<in> N"
  by (auto simp: table_paths_def SSTablePath_inj)

lemma paths_apart [simp]:
  "canon (WalPath d) \<notin> table_paths d N" "canon (ManifestPath d) \<notin> table_paths d N"
  "canon (WalPath d) \<notin> manifest_paths d" "canon (SSTablePath d n) \<notin> manifest_paths d"
  "canon (SSTablePath d n) \<noteq> canon (WalPath d)" "canon (SSTablePath d n) \<noteq> canon (ManifestPath d)"
  "canon (WalPath d) \<noteq> canon (ManifestPath d)"
  by (auto simp: table_paths_def manifest_paths_def canon_paths table_name_other table_name_other [symmetric])

lemma table_paths_mono: "N \<subseteq> M \<Longrightarrow> table_paths d N \<subseteq> table_paths d M"
  by (auto simp: table_paths_def)

lemma Version_Save_paths:
  "Version_Save v (ManifestPath d) w = (s, w') \<Longrightarrow> changes_only (manifest_paths d) w w'"
  using Version_Save_frame by (simp add: manifest_paths_def)

end
