(* ===== verification/DB_Inv.thy ===== *)
theory DB_Inv
  imports DB
begin

text \<open>
  What the engine's state means and when it is well formed. A store is a memtable over six levels of
  tables; its view maps each key to the value a client should see. The invariant ties the
  in-memory version (file metadata, numbers, ranges) to the open readers and the readers to the
  entries of their tables. Reads are shown to agree with the view: \<open>DB::Get\<close> key by key, \<open>DB::NewIterator\<close> as
  a whole. Everything is stated over the contents of the tables, so that the same notions describe
  the files on disk in the recovery theory.
\<close>

section \<open>Layered lookup\<close>

text \<open>Sources from newest to oldest: the first one that knows the key decides.\<close>

fun first_some :: "('k \<rightharpoonup> 'v) list \<Rightarrow> 'k \<rightharpoonup> 'v" where
  "first_some [] = Map.empty"
| "first_some (m # ms) = first_some ms ++ m"

lemma first_some_append [simp]: "first_some (xs @ ys) = first_some ys ++ first_some xs"
  by (induction xs) simp_all

lemma first_some_None_iff: "first_some ms k = None \<longleftrightarrow> (\<forall>m\<in>set ms. m k = None)"
  by (induction ms) (auto simp: map_add_None)

lemma first_some_find:
  "first_some ms k = (case filter (\<lambda>m. m k \<noteq> None) ms of [] \<Rightarrow> None | m # _ \<Rightarrow> m k)"
  by (induction ms) (auto simp: map_add_def split: option.splits)

text \<open>What a client sees of an entry.\<close>

fun entry_view :: "entry option \<Rightarrow> bytes option" where
  "entry_view (Some (Live v)) = Some v"
| "entry_view _ = None"

section \<open>Stores\<close>

type_synonym table = "SSTableEntry list"

text \<open>Newest first: level 0 from its last file to its first, then the deeper levels.\<close>

definition tables_newest_first :: "table list list \<Rightarrow> table list" where
  "tables_newest_first tss = rev (tss ! 0) @ concat (drop 1 tss)"

definition tables_lookup :: "table list list \<Rightarrow> bytes \<rightharpoonup> entry" where
  "tables_lookup tss = first_some (map table_lookup (tables_newest_first tss))"

definition store_lookup :: "MemTable \<Rightarrow> table list list \<Rightarrow> bytes \<rightharpoonup> entry" where
  "store_lookup mt tss = tables_lookup tss ++ mem_lookup mt"

definition store_view :: "MemTable \<Rightarrow> table list list \<Rightarrow> bytes \<rightharpoonup> bytes" where
  "store_view mt tss k = entry_view (store_lookup mt tss k)"

definition reader_entries :: "SSTableReader \<Rightarrow> table" where
  "reader_entries r = snd (SSTableReader_ReadAll r)"

definition db_tables :: "DB \<Rightarrow> table list list" where
  "db_tables db = map (map reader_entries) (db_readers db)"

definition db_view :: "DB \<Rightarrow> bytes \<rightharpoonup> bytes" where
  "db_view db = store_view (db_memtable db) (db_tables db)"

section \<open>The invariant\<close>

text \<open>Below level 0 the files of a level are in key order and do not overlap.\<close>

definition level_sorted :: "table list \<Rightarrow> bool" where
  "level_sorted ts \<longleftrightarrow> sorted_wrt (<) (map e_key (concat ts))"

definition tables_ok :: "table list list \<Rightarrow> bool" where
  "tables_ok tss \<longleftrightarrow> length tss = kMaxLevels \<and> list_all (list_all table_ok) tss \<and>
     list_all level_sorted (drop 1 tss)"

definition meta_for :: "FileMetaData \<Rightarrow> table \<Rightarrow> bool" where
  "meta_for fm es \<longleftrightarrow> min_key fm = e_key (hd es) \<and> max_key fm = e_key (last es)"

definition version_numbers :: "Version \<Rightarrow> u64 list" where
  "version_numbers v = map number (concat (levels v))"

definition version_for :: "Version \<Rightarrow> table list list \<Rightarrow> bool" where
  "version_for v tss \<longleftrightarrow> tables_ok tss \<and> list_all2 (list_all2 meta_for) (levels v) tss \<and>
     distinct (version_numbers v) \<and> (\<forall>n\<in>set (version_numbers v). n < next_file_number v) \<and>
     sorted_wrt (<) (map number (levels v ! 0))"

definition memtable_entries_of :: "MemTable \<Rightarrow> table" where
  "memtable_entries_of mt = map flush_entry (mem_table mt)"

definition mem_ok :: "MemTable \<Rightarrow> bool" where
  "mem_ok mt \<longleftrightarrow> MemTable_ok mt \<and> list_all entry_ok (memtable_entries_of mt)"

definition db_ok :: "DB \<Rightarrow> bool" where
  "db_ok db \<longleftrightarrow> version_for (db_version db) (db_tables db) \<and>
     list_all (list_all (\<lambda>r. reader_for r (reader_entries r))) (db_readers db) \<and>
     mem_ok (db_memtable db)"

section \<open>Capacity\<close>

text \<open>
  Sizes below which no offset, size or count of the engine leaves its range: the data fits in
  the address space (compaction and iterators hold it in memory), a level's file count
  fits in a C++ int and the file numbers are far from wrapping around.
\<close>

definition entry_weight :: "SSTableEntry \<Rightarrow> nat" where
  "entry_weight e = length (e_key e) + length (e_value e) + 16"

definition store_entries :: "MemTable \<Rightarrow> table list list \<Rightarrow> SSTableEntry list" where
  "store_entries mt tss = memtable_entries_of mt @ concat (concat tss)"

definition total :: "(SSTableEntry \<Rightarrow> nat) \<Rightarrow> SSTableEntry list \<Rightarrow> nat" where
  "total f es = sum_list (map f es)"

definition db_total :: "(SSTableEntry \<Rightarrow> nat) \<Rightarrow> DB \<Rightarrow> nat" where
  "db_total f db = total f (store_entries (db_memtable db) (db_tables db))"

definition db_fits :: "DB \<Rightarrow> bool" where
  "db_fits db \<longleftrightarrow> db_total entry_weight db < addressable \<and> db_total (\<lambda>_. 1) db < 2 ^ 31"

section \<open>Facts about one table\<close>

lemma reader_entries_for: "reader_for r es \<Longrightarrow> reader_entries r = es"
  by (simp add: reader_entries_def ReadAll_reader)

lemma reader_for_table_ok: "reader_for r es \<Longrightarrow> table_ok es"
  by (simp add: reader_for_def)

lemma entries_in_range:
  assumes "sorted_wrt (<) (map e_key es)" and "table_lookup es k \<noteq> None"
  shows "e_key (hd es) \<le> k \<and> k \<le> e_key (last es)"
proof -
  from assms have "es \<noteq> []" "sorted_wrt (<) (map e_key es)" "k \<in> set (map e_key es)"
    by (auto simp: table_lookup_None_iff)
  then show ?thesis
    using sorted_less_hd_le [of "map e_key es" k] sorted_less_le_last [of "map e_key es" k]
    by (simp add: hd_map last_map)
qed

lemma table_lookup_simps [simp]:
  "table_lookup [] = Map.empty"
  "table_lookup (e # es) = (table_lookup es)(e_key e \<mapsto> entry_of e)"
  "table_lookup (xs @ ys) = table_lookup ys ++ table_lookup xs"
  by (auto simp: table_lookup_def fun_eq_iff map_add_def split: option.splits)

lemma total_append [simp]: "total f (xs @ ys) = total f xs + total f ys"
  by (simp add: total_def)

lemma total_simps [simp]: "total f [] = 0" "total f (x # xs) = f x + total f xs"
  by (simp_all add: total_def)

lemma total_filter_le: "total f (filter P es) \<le> total f es"
  by (induction es) auto

lemma total_count: "total (\<lambda>_. 1) es = length es"
  by (induction es) auto

lemma Build_length: "BloomFilter_Build keys bits = Some filt \<Longrightarrow> length filt < addressable"
  by (auto simp: BloomFilter_Build_def Let_def split: if_splits)

lemma length_lps_bytes_le: "length (lps_bytes k) \<le> 5 + length k"
  by (simp add: lps_bytes_def)

lemma length_data_bytes_le: "length (data_bytes es) \<le> total entry_weight es"
proof (induction es)
  case (Cons e es)
  have "length (entry_bytes e) \<le> entry_weight e"
    using length_lps_bytes_le [of "e_key e"] length_lps_bytes_le [of "e_value e"]
    by (auto simp: entry_bytes_eq entry_weight_def)
  with Cons show ?case by simp
qed simp

lemma length_index_bytes_le: "length (concat (map index_entry_bytes (table_offsets off es))) \<le> total entry_weight es"
proof (induction es arbitrary: off)
  case (Cons e es)
  show ?case
    using Cons [of "off + of_nat (length (entry_bytes e))"] length_lps_bytes_le [of "e_key e"]
    by (simp add: entry_weight_def)
qed simp

lemma table_fits_total:
  assumes "total entry_weight es < addressable" and "BloomFilter_Build keys bits = Some filt"
  shows "table_fits es filt"
  using assms length_data_bytes_le [of es] length_index_bytes_le [of 0 es] Build_length [of keys bits filt]
  by (simp add: table_fits_def index_bytes_def)

section \<open>Level 0 is kept in the order of its file numbers\<close>

lemma sort_key_strict:
  fixes xs :: "('a::linorder \<times> 'b) list"
  assumes "sorted_wrt (<) (map fst xs)"
  shows "sort_key fst xs = xs"
  using assms by (intro sort_key_id_if_sorted) (simp add: strict_sorted_iff)

lemma newest_first_rev:
  assumes "sorted_wrt (<) ns" and "length rs = length ns"
  shows "map snd (newest_first (zip ns rs)) = rev rs"
  using assms by (simp add: newest_first_def sort_key_strict rev_map [symmetric])

lemma version_for_length:
  assumes "version_for v tss"
  shows "length (levels v) = kMaxLevels" "length tss = kMaxLevels"
    "l < kMaxLevels \<Longrightarrow> list_all2 meta_for (levels v ! l) (tss ! l)"
  using assms by (auto simp: version_for_def tables_ok_def list_all2_conv_all_nth)

lemma db_ok_length:
  assumes "db_ok db"
  shows "length (db_readers db) = kMaxLevels" "length (levels (db_version db)) = kMaxLevels"
    "l < kMaxLevels \<Longrightarrow> list_all2 meta_for (levels (db_version db) ! l) (map reader_entries (db_readers db ! l))"
    "l < kMaxLevels \<Longrightarrow> length (levels (db_version db) ! l) = length (db_readers db ! l)"
proof -
  note v = version_for_length [of "db_version db" "db_tables db"]
  show len: "length (db_readers db) = kMaxLevels" "length (levels (db_version db)) = kMaxLevels"
    using assms v by (simp_all add: db_ok_def db_tables_def)
  show a: "l < kMaxLevels \<Longrightarrow> list_all2 meta_for (levels (db_version db) ! l) (map reader_entries (db_readers db ! l))"
    using assms len v(3) by (simp add: db_ok_def db_tables_def)
  show "l < kMaxLevels \<Longrightarrow> length (levels (db_version db) ! l) = length (db_readers db ! l)"
    using a by (auto dest: list_all2_lengthD)
qed

lemma db_ok_readers:
  assumes "db_ok db" and "l < kMaxLevels" and "r \<in> set (db_readers db ! l)"
  shows "reader_for r (reader_entries r)"
  using assms db_ok_length(1) [OF assms(1)] by (auto simp: db_ok_def list_all_length in_set_conv_nth)

lemma kMaxLevels_pos [simp]: "0 < kMaxLevels" "Suc 0 < kMaxLevels" "Suc 0 \<le> kMaxLevels"
  by (simp_all add: kMaxLevels_def)

lemma db_ok_level0:
  assumes "db_ok db"
  shows "map snd (newest_first (zip (map number (Version_Level (db_version db) 0)) (db_readers db ! 0))) =
    rev (db_readers db ! 0)"
  using assms db_ok_length(4) [OF assms, of 0]
  by (intro newest_first_rev) (simp_all add: db_ok_def version_for_def Version_Level_def)

section \<open>Point lookups\<close>

abbreviation reader_lookup :: "SSTableReader \<Rightarrow> bytes \<rightharpoonup> entry" where
  "reader_lookup r \<equiv> table_lookup (reader_entries r)"

text \<open>
  What reading needs of a reader: it answers lookups by its entries, which are in key order, and a scan
  contributes exactly them. The readers the engine installs do, and so do readers whose device fails
  altogether, with no entries.
\<close>

definition reader_answers :: "SSTableReader \<Rightarrow> bool" where
  "reader_answers r \<longleftrightarrow> sorted_wrt (<) (map e_key (reader_entries r)) \<and>
     (\<forall>key v d opts. SSTableReader_Get r key v d opts =
        (case reader_lookup r key of
           None \<Rightarrow> (False, v, d)
         | Some Tombstone \<Rightarrow> (True, v, True)
         | Some (Live x) \<Rightarrow> (True, x, False))) \<and>
     (\<forall>snap. apply_reader r snap = fold apply_entry (reader_entries r) snap)"

abbreviation readers_answer :: "SSTableReader list \<Rightarrow> bool" where
  "readers_answer rs \<equiv> \<forall>r\<in>set rs. reader_answers r"

lemma reader_for_answers: "reader_for r (reader_entries r) \<Longrightarrow> reader_answers r"
  using reader_for_table_ok [of r "reader_entries r"]
  by (auto simp: reader_answers_def Get_reader apply_reader_def ReadAll_reader table_ok_def)

lemma Get_search_readers:
  assumes "readers_answer rs"
  shows "Get_search opts key rs (v, d) =
    (case first_some (map reader_lookup rs) key of
       None \<Rightarrow> (False, v, d)
     | Some Tombstone \<Rightarrow> (True, v, True)
     | Some (Live x) \<Rightarrow> (True, x, False))"
  using assms
proof (induction rs)
  case (Cons r rs)
  then show ?case
    by (simp add: reader_answers_def map_add_def split: option.splits entry.splits)
qed simp

lemma Get_in_range_subset: "set (Get_in_range key metas rs) \<subseteq> set rs"
  by (auto simp: Get_in_range_def dest: set_zip_rightD)

text \<open>Skipping a file by its key range loses nothing.\<close>

text \<open>A file's metadata describe its reader, unless the reader delivers nothing.\<close>

definition meta_covers :: "FileMetaData \<Rightarrow> SSTableReader \<Rightarrow> bool" where
  "meta_covers fm r \<longleftrightarrow> reader_entries r = [] \<or> meta_for fm (reader_entries r)"

lemma Get_in_range_lookup:
  assumes "list_all2 meta_covers metas rs" and "readers_answer rs"
  shows "first_some (map reader_lookup (Get_in_range key metas rs)) key =
    first_some (map reader_lookup rs) key"
  using assms
proof (induction metas rs rule: list_induct2')
  case (4 fm metas r rs)
  have "table_lookup (reader_entries r) key = None" if "key < min_key fm \<or> max_key fm < key"
    using 4 that entries_in_range [of "reader_entries r" key]
    by (fastforce simp: meta_for_def meta_covers_def reader_answers_def)
  moreover have "first_some (map reader_lookup (Get_in_range key metas rs)) key =
      first_some (map reader_lookup rs) key"
    using 4 by simp
  ultimately show ?case by (auto simp: Get_in_range_def map_add_def split: option.splits)
qed (simp_all add: Get_in_range_def)

lemma first_some_concat_cong:
  "(\<And>x. x \<in> set xs \<Longrightarrow> first_some (f x) k = first_some (g x) k) \<Longrightarrow>
    first_some (concat (map f xs)) k = first_some (concat (map g xs)) k"
proof (induction xs)
  case (Cons x xs)
  then show ?case by (simp add: map_add_def split: option.splits)
qed simp

lemma drop_nth_map: "n \<le> length xs \<Longrightarrow> drop n xs = map (\<lambda>i. xs ! i) [n..<length xs]"
  by (rule nth_equalityI) simp_all

text \<open>What \<open>Get\<close> and \<open>NewIterator\<close> rely on.\<close>

definition readable :: "DB \<Rightarrow> bool" where
  "readable db \<longleftrightarrow> length (db_readers db) = kMaxLevels \<and>
     list_all2 (list_all2 meta_covers) (levels (db_version db)) (db_readers db) \<and>
     list_all readers_answer (db_readers db) \<and> list_all level_sorted (drop 1 (db_tables db)) \<and>
     sorted_wrt (<) (map number (levels (db_version db) ! 0)) \<and> std_map_ok (mem_table (db_memtable db))"

lemma db_ok_readable: "db_ok db \<Longrightarrow> readable db"
proof -
  assume ok: "db_ok db"
  have "list_all2 (list_all2 meta_covers) (levels (db_version db)) (db_readers db)"
    using ok unfolding db_ok_def version_for_def db_tables_def list_all2_map2
    by (auto elim!: list_all2_mono simp: meta_covers_def)
  moreover have "list_all readers_answer (db_readers db)"
    using ok by (auto simp: db_ok_def list_all_iff intro: reader_for_answers)
  ultimately show ?thesis
    using ok db_ok_length(1) [OF ok]
    by (simp add: readable_def db_ok_def version_for_def tables_ok_def mem_ok_def MemTable_ok_def)
qed

lemma readable_level:
  assumes "readable db" and "l < kMaxLevels"
  shows "readers_answer (db_readers db ! l)" "list_all2 meta_covers (levels (db_version db) ! l) (db_readers db ! l)"
  using assms by (auto simp: readable_def list_all_length list_all2_conv_all_nth)

lemma readable_level0:
  assumes "readable db"
  shows "map snd (newest_first (zip (map number (Version_Level (db_version db) 0)) (db_readers db ! 0))) =
      rev (db_readers db ! 0)"
    "map snd (sort_key fst (zip (map number (Version_Level (db_version db) 0)) (db_readers db ! 0))) = db_readers db ! 0"
proof -
  have "length (levels (db_version db) ! 0) = length (db_readers db ! 0)"
    using readable_level(2) [OF assms, of 0] by (auto dest: list_all2_lengthD)
  then show "map snd (newest_first (zip (map number (Version_Level (db_version db) 0)) (db_readers db ! 0))) =
      rev (db_readers db ! 0)"
    "map snd (sort_key fst (zip (map number (Version_Level (db_version db) 0)) (db_readers db ! 0))) = db_readers db ! 0"
    using assms newest_first_rev [of "map number (levels (db_version db) ! 0)" "db_readers db ! 0"]
    by (simp_all add: readable_def Version_Level_def sort_key_strict)
qed

lemma tables_lookup_db:
  assumes "length (db_readers db) = kMaxLevels"
  shows "tables_lookup (db_tables db) =
    first_some (map reader_lookup (rev (db_readers db ! 0) @
      concat (map (\<lambda>l. db_readers db ! l) [1..<kMaxLevels])))"
proof -
  note len = assms
  have "concat (drop 1 (db_tables db)) = map reader_entries (concat (map (\<lambda>l. db_readers db ! l) [1..<kMaxLevels]))"
    using drop_nth_map [of 1 "db_readers db"] len
    by (simp add: db_tables_def drop_map map_concat)
  moreover have "db_tables db ! 0 = map reader_entries (db_readers db ! 0)"
    using len by (simp add: db_tables_def)
  ultimately show ?thesis
    by (simp add: tables_lookup_def tables_newest_first_def rev_map comp_def)
qed

lemma Get_readable:
  assumes "readable db" and "\<not> db_closed db"
  shows "DB_Get opts key value db =
    (case db_view db key of
       Some v \<Rightarrow> (Status_OK, v)
     | None \<Rightarrow> (Status_NotFound (bytes_to_string key), value))"
proof -
  let ?L0 = "rev (db_readers db ! 0)" and ?Ls = "concat (map (\<lambda>l. db_readers db ! l) [1..<kMaxLevels])"
  let ?C = "concat (map (\<lambda>lvl. Get_in_range key (Version_Level (db_version db) lvl) (db_readers db ! lvl))
    [1..<kMaxLevels])"
  have r0: "readers_answer ?L0" using readable_level(1) [OF assms(1), of 0] by simp
  have rC: "readers_answer ?C"
    using readable_level(1) [OF assms(1)] Get_in_range_subset by fastforce
  have "first_some (map reader_lookup (Get_in_range key (Version_Level (db_version db) l) (db_readers db ! l))) key =
      first_some (map reader_lookup (db_readers db ! l)) key" if "l < kMaxLevels" for l
    using that readable_level [OF assms(1)]
    by (intro Get_in_range_lookup) (auto simp: Version_Level_def)
  then have C: "first_some (map reader_lookup ?C) key = first_some (map reader_lookup ?Ls) key"
    by (simp add: map_concat comp_def) (rule first_some_concat_cong, simp)
  have len: "length (db_readers db) = kMaxLevels" using assms(1) by (simp add: readable_def)
  show ?thesis
    using assms(2) C
    by (simp add: DB_Get_def readable_level0 [OF assms(1)] MemTable_Get_lookup Get_search_readers [OF r0]
        Get_search_readers [OF rC] db_view_def store_view_def store_lookup_def tables_lookup_db [OF len]
        map_add_def split: option.splits entry.splits del: One_nat_def)
qed

lemmas DB_Get_view = Get_readable [OF db_ok_readable]

section \<open>Iterators\<close>

lemma first_some_tables: "first_some (map table_lookup ts) = table_lookup (concat ts)"
  by (induction ts) simp_all

text \<open>In a level without overlaps the order of the files does not matter.\<close>

lemma level_sorted_rev:
  assumes "level_sorted ts"
  shows "table_lookup (concat (rev ts)) = table_lookup (concat ts)"
proof -
  have d: "distinct (map e_key (concat ts))"
    using assms sorted_less_distinct by (simp add: level_sorted_def)
  then have "distinct (map e_key (concat (rev ts)))"
    by (metis card_distinct distinct_card length_map length_concat_rev set_concat set_map set_rev)
  with d show ?thesis
    unfolding table_lookup_def fun_eq_iff
    by (intro fun_cong [where f = "map_of _"] allI map_of_inject_set [THEN iffD2] ) (simp_all add: comp_def)
qed

text \<open>A snapshot map shows a lookup function: sorted, and each key's live value.\<close>

definition snap_shows :: "(bytes, bytes) std_map \<Rightarrow> (bytes \<rightharpoonup> entry) \<Rightarrow> bool" where
  "snap_shows snap L \<longleftrightarrow> std_map_ok snap \<and> (\<forall>k. map_of snap k = entry_view (L k))"

lemma snap_shows_erase: "snap_shows snap L \<Longrightarrow> snap_shows (map_erase k snap) (L(k \<mapsto> Tombstone))"
  by (auto simp: snap_shows_def std_map_ok_erase find_map_erase)

lemma snap_shows_assign: "snap_shows snap L \<Longrightarrow> snap_shows (map_assign k v snap) (L(k \<mapsto> Live v))"
  by (auto simp: snap_shows_def std_map_ok_assign find_map_assign)

lemma snap_shows_entry: "snap_shows snap L \<Longrightarrow> snap_shows (apply_entry e snap) (L(e_key e \<mapsto> entry_of e))"
  by (simp add: apply_entry_def entry_of_def snap_shows_erase snap_shows_assign)

lemma snap_shows_entries:
  "snap_shows snap L \<Longrightarrow> sorted_wrt (<) (map e_key es) \<Longrightarrow>
    snap_shows (fold apply_entry es snap) (L ++ table_lookup es)"
proof (induction es arbitrary: snap L)
  case (Cons e es)
  have "table_lookup es (e_key e) = None" using Cons.prems(2) by (auto simp: table_lookup_None_iff)
  then have eq: "L ++ table_lookup (e # es) = L(e_key e \<mapsto> entry_of e) ++ table_lookup es"
    by (auto simp: map_add_def fun_eq_iff split: option.splits)
  have "sorted_wrt (<) (map e_key es)" using Cons.prems(2) by simp
  from Cons.IH [OF snap_shows_entry [OF Cons.prems(1)] this] show ?case by (simp only: eq fold_simps)
qed simp

lemma snap_shows_readers:
  "snap_shows snap L \<Longrightarrow> readers_answer rs \<Longrightarrow>
    snap_shows (fold apply_reader rs snap) (L ++ table_lookup (concat (rev (map reader_entries rs))))"
proof (induction rs arbitrary: snap L)
  case (Cons r rs)
  then have "snap_shows (apply_reader r snap) (L ++ reader_lookup r)"
    by (simp add: reader_answers_def snap_shows_entries)
  moreover have "L ++ reader_lookup r ++ table_lookup (concat (rev (map reader_entries rs))) =
      L ++ table_lookup (concat (rev (map reader_entries (r # rs))))"
    by simp
  ultimately show ?case using Cons by (metis fold_simps(2) list.set_intros(2))
qed simp

lemma snap_shows_memtable:
  "snap_shows snap L \<Longrightarrow> std_map_ok m \<Longrightarrow>
    snap_shows (fold (\<lambda>(key, mv) snap. if deleted mv then map_erase key snap
                        else map_assign key (mem_value mv) snap) m snap)
      (L ++ (\<lambda>k. map_option mem_entry (map_of m k)))"
proof (induction m arbitrary: snap L)
  case (Cons x m)
  obtain k mv where x: "x = (k, mv)" by (cases x)
  have "map_of m k = None"
    using Cons.prems(2) by (force simp: x std_map_ok_def map_of_eq_None_iff)
  then have eq: "L ++ (\<lambda>k'. map_option mem_entry (map_of ((k, mv) # m) k')) =
      L(k \<mapsto> mem_entry mv) ++ (\<lambda>k. map_option mem_entry (map_of m k))"
    by (auto simp: map_add_def fun_eq_iff split: option.splits)
  have "snap_shows (if deleted mv then map_erase k snap else map_assign k (mem_value mv) snap) (L(k \<mapsto> mem_entry mv))"
    using Cons.prems(1) by (simp add: snap_shows_erase snap_shows_assign)
  from Cons.IH [OF this std_map_ok_ConsD [OF Cons.prems(2)]] show ?case
    by (simp only: x eq fold_simps split_conv)
qed simp

lemma concat_levels_rev:
  assumes "list_all level_sorted tss"
  shows "table_lookup (concat (rev (concat (rev tss)))) = table_lookup (concat (concat tss))"
  using assms by (induction tss) (simp_all add: level_sorted_rev)

lemma db_tables_drop: "length (db_readers db) = kMaxLevels \<Longrightarrow>
  drop 1 (db_tables db) = map (\<lambda>l. map reader_entries (db_readers db ! l)) [1..<kMaxLevels]"
  using drop_nth_map [of 1 "db_tables db"] by (simp add: db_tables_def)

lemma tables_lookup_concat:
  "tables_lookup tss = table_lookup (concat (concat (drop 1 tss))) ++ table_lookup (concat (rev (tss ! 0)))"
  by (simp add: tables_lookup_def tables_newest_first_def first_some_tables)

lemma NewIterator_shows:
  assumes "readable db"
  shows "snap_shows (snapshot (DB_NewIterator db)) (store_lookup (db_memtable db) (db_tables db))"
proof -
  have len: "length (db_readers db) = kMaxLevels" using assms by (simp add: readable_def)
  let ?deep = "concat (map (\<lambda>lvl. db_readers db ! lvl) (rev [1..<kMaxLevels]))"
  let ?snap1 = "fold apply_reader ?deep []"
  let ?snap2 = "fold apply_reader (db_readers db ! 0) ?snap1"
  have "snap_shows [] Map.empty" by (simp add: snap_shows_def)
  moreover have "readers_answer ?deep" using readable_level(1) [OF assms] by auto
  ultimately have "snap_shows ?snap1 (Map.empty ++ table_lookup (concat (rev (map reader_entries ?deep))))"
    by (rule snap_shows_readers)
  moreover have "map reader_entries ?deep = concat (rev (drop 1 (db_tables db)))"
    by (simp add: db_tables_drop [OF len] map_concat rev_map comp_def del: One_nat_def)
  moreover have "list_all level_sorted (drop 1 (db_tables db))" using assms by (simp add: readable_def)
  ultimately have "snap_shows ?snap1 (table_lookup (concat (concat (drop 1 (db_tables db)))))"
    by (simp add: concat_levels_rev)
  then have "snap_shows ?snap2 (table_lookup (concat (concat (drop 1 (db_tables db)))) ++
      table_lookup (concat (rev (map reader_entries (db_readers db ! 0)))))"
    by (rule snap_shows_readers) (use readable_level(1) [OF assms, of 0] in simp)
  then have "snap_shows ?snap2 (tables_lookup (db_tables db))"
    using len by (simp add: tables_lookup_concat db_tables_def)
  moreover have "std_map_ok (mem_table (db_memtable db))" using assms by (simp add: readable_def)
  ultimately have "snap_shows (fold (\<lambda>(key, mv) snap. if deleted mv then map_erase key snap
        else map_assign key (mem_value mv) snap) (mem_table (db_memtable db)) ?snap2)
      (tables_lookup (db_tables db) ++ (\<lambda>k. map_option mem_entry (map_of (mem_table (db_memtable db)) k)))"
    by (rule snap_shows_memtable)
  then show ?thesis
    by (simp add: DB_NewIterator_def Let_def Iterator_new_def store_lookup_def readable_level0(2) [OF assms]
        mem_lookup_def [abs_def] map_find_def del: One_nat_def)
qed

lemma NewIterator_start: "it_rest (DB_NewIterator db) = snapshot (DB_NewIterator db)"
  by (simp add: DB_NewIterator_def Iterator_new_def Let_def)

lemma scan_readable:
  assumes "readable db"
  shows "std_map_ok (Iterator_scan (DB_NewIterator db))"
    "map_of (Iterator_scan (DB_NewIterator db)) = db_view db"
  using NewIterator_shows [OF assms] NewIterator_start
  by (auto simp: Iterator_scan_rest snap_shows_def db_view_def store_view_def)

lemmas NewIterator_scan = scan_readable [OF db_ok_readable]

end
