(* ===== verification/Read_Faults.thy ===== *)
theory Read_Faults
  imports DB_Inv
begin

text \<open>
  Reads while a device fails. \<open>SSTableReader::Get\<close> reports a failed read like an absent key and
  \<open>DB::NewIterator\<close> skips a table whose scan reports an error, so a table that cannot be read is a table
  without entries: both ways of reading agree on the view of what is left, and neither reports anything.
\<close>

section \<open>A table that cannot be read\<close>

text \<open>The open handle no longer delivers a byte; index and filter are in memory.\<close>

definition dead_reader :: "SSTableReader \<Rightarrow> SSTableReader" where
  "dead_reader r = r\<lparr>r_file := map_option (\<lambda>f. f\<lparr>rf_data := []\<rparr>) (r_file r)\<rparr>"

text \<open>The database when the tables whose paths satisfy \<open>bad\<close> cannot be read any more.\<close>

definition unreadable :: "(path \<Rightarrow> bool) \<Rightarrow> DB \<Rightarrow> DB" where
  "unreadable bad db =
     db\<lparr>db_readers := map (map (\<lambda>r. if bad (r_path r) then dead_reader r else r)) (db_readers db)\<rparr>"

lemma unreadable_simps [simp]:
  "db_version (unreadable bad db) = db_version db" "db_memtable (unreadable bad db) = db_memtable db"
  "db_closed (unreadable bad db) = db_closed db"
  "db_readers (unreadable bad db) = map (map (\<lambda>r. if bad (r_path r) then dead_reader r else r)) (db_readers db)"
  by (simp_all add: unreadable_def)

lemma ReadAll_dead:
  assumes "reader_for r es"
  shows "SSTableReader_ReadAll (dead_reader r) =
    (Status_Corruption (r_path r @ '': truncated data section''), [])"
proof -
  have "es \<noteq> []" using assms by (simp add: reader_for_def table_ok_def)
  then show ?thesis
    using assms by (cases es) (auto simp: reader_for_def SSTableReader_ReadAll_def dead_reader_def
        table_reader_def ReadAll_entry_def)
qed

lemma Get_dead: "SSTableReader_Get (dead_reader r) key value del opts = (False, value, del)"
  by (auto simp: SSTableReader_Get_def dead_reader_def Get_at_def split: list.splits option.splits)

lemma dead_reader_entries: "reader_for r es \<Longrightarrow> reader_entries (dead_reader r) = []"
  by (simp add: reader_entries_def ReadAll_dead)

lemma dead_reader_answers: "reader_for r es \<Longrightarrow> reader_answers (dead_reader r)"
  by (simp add: reader_answers_def dead_reader_entries Get_dead apply_reader_def ReadAll_dead)

section \<open>The database without it\<close>

text \<open>The tables of the readers that still work.\<close>

definition left_tables :: "(path \<Rightarrow> bool) \<Rightarrow> DB \<Rightarrow> table list list" where
  "left_tables bad db = map (map (\<lambda>r. if bad (r_path r) then [] else reader_entries r)) (db_readers db)"

lemma db_readers_for:
  "db_ok db \<Longrightarrow> rs \<in> set (db_readers db) \<Longrightarrow> r \<in> set rs \<Longrightarrow> reader_for r (reader_entries r)"
  by (auto simp: db_ok_def list_all_iff)

lemma db_tables_unreadable:
  assumes "db_ok db"
  shows "db_tables (unreadable bad db) = left_tables bad db"
  using db_readers_for [OF assms] dead_reader_entries
  by (fastforce simp: db_tables_def left_tables_def)

lemma db_view_unreadable: "db_ok db \<Longrightarrow> db_view (unreadable bad db) = store_view (db_memtable db) (left_tables bad db)"
  by (simp add: db_view_def db_tables_unreadable)

lemma level_sorted_left:
  assumes "level_sorted (map reader_entries rs)"
  shows "level_sorted (map (\<lambda>r. if bad (r_path r) then [] else reader_entries r) rs)"
  using assms by (induction rs) (auto simp: level_sorted_def sorted_wrt_append)

lemma readable_unreadable:
  assumes ok: "db_ok db"
  shows "readable (unreadable bad db)"
proof -
  let ?d = "\<lambda>r. if bad (r_path r) then dead_reader r else r"
  note r = db_ok_readable [OF ok]
  have covers: "meta_covers fm (?d x)" if "meta_covers fm x" "reader_for x (reader_entries x)" for fm x
    using that dead_reader_entries [of x] by (simp add: meta_covers_def)
  have "list_all2 (list_all2 meta_covers) (levels (db_version db)) (db_readers (unreadable bad db))"
    unfolding unreadable_simps list_all2_map2
  proof (rule list.rel_mono_strong)
    show "list_all2 (list_all2 meta_covers) (levels (db_version db)) (db_readers db)"
      using r by (simp add: readable_def)
    fix fms rs
    assume rs: "rs \<in> set (db_readers db)" and "list_all2 meta_covers fms rs"
    from this(2) show "list_all2 (\<lambda>fm x. meta_covers fm (?d x)) fms rs"
      by (rule list.rel_mono_strong) (use covers db_readers_for [OF ok rs] in blast)
  qed
  moreover have "list_all readers_answer (db_readers (unreadable bad db))"
    using db_readers_for [OF ok] by (auto simp: list_all_iff intro: reader_for_answers dead_reader_answers)
  moreover have "list_all level_sorted (drop 1 (db_tables (unreadable bad db)))"
    unfolding db_tables_unreadable [OF ok]
    using r level_sorted_left by (auto simp: readable_def left_tables_def db_tables_def drop_map list_all_iff)
  ultimately show ?thesis using r by (simp add: readable_def)
qed

section \<open>Compaction\<close>

text \<open>Only compaction looks at the status of a scan: it gives up before it has changed anything.\<close>

lemma merge_readers_fails:
  "r \<in> set rs \<Longrightarrow> \<not> Status_ok (fst (SSTableReader_ReadAll r)) \<Longrightarrow> \<exists>s. merge_readers rs m = Inl s \<and> \<not> Status_ok s"
  by (induction rs arbitrary: m) (auto split: prod.splits)

lemma CompactLocked_unreadable:
  assumes ok: "db_ok db" and l: "Suc l < kMaxLevels" and r: "r \<in> set (db_readers db ! l) \<union> set (db_readers db ! Suc l)"
    and bad: "bad (r_path r)"
  shows "\<exists>s. CompactLocked l (unreadable bad db) w = (s, unreadable bad db, w) \<and> \<not> Status_ok s"
proof -
  let ?db = "unreadable bad db"
  note len = db_ok_length(1) [OF ok]
  have "reader_for r (reader_entries r)" using db_ok_readers [OF ok] r l by (auto dest: Suc_lessD)
  then have dead: "\<not> Status_ok (fst (SSTableReader_ReadAll (dead_reader r)))" by (simp add: ReadAll_dead)
  let ?rs = "if l = 0 then map snd (newest_first (zip (map number (Version_Level (db_version ?db) l)) (db_readers ?db ! l)))
    else db_readers ?db ! l"
  have "set ?rs = set (db_readers ?db ! l)"
    using readable_level0(1) [OF readable_unreadable [OF ok]] by (auto simp del: unreadable_simps(4))
  then have "dead_reader r \<in> set (db_readers ?db ! Suc l @ rev ?rs)"
    using r l len bad by (auto simp del: upt_Suc intro!: image_eqI [of _ _ r])
  from merge_readers_fails [OF this dead, of "[]"] obtain s
    where "merge_readers (db_readers ?db ! Suc l @ rev ?rs) [] = Inl s" "\<not> Status_ok s" by blast
  then show ?thesis using l by (simp add: CompactLocked_def Let_def del: unreadable_simps)
qed

end
