(* ===== verification/DB_Maint.thy ===== *)
theory DB_Maint
  imports DB_Inv DB_Paths
begin

text \<open>
  Maintenance never changes what clients see: flushing the memtable and compacting two levels
  keep the invariant and the view, for every schedule of faults, wherever they stop. The lemmas also record what
  each step does to the files, which the recovery theory needs: new tables go to fresh paths, the
  manifest changes only by an atomic save, and files are deleted only after the save that
  drops them.
\<close>

section \<open>Writing and reopening one table\<close>

definition disk_table :: "world \<Rightarrow> path \<Rightarrow> table \<Rightarrow> bool" where
  "disk_table w p es \<longleftrightarrow> table_ok es \<and>
     (\<exists>filt bits. BloomFilter_Build (map e_key es) bits = Some filt \<and> table_fits es filt \<and>
        fget w p = Some (table_bytes es filt))"

lemma new_table:
  assumes wr: "SSTableWriter_Write path es bits w = (s1, w1)" "Status_ok s1"
    and sz: "fs_file_size path w1 = (sz, w2)"
    and opened: "SSTableReader_Open path w2 = (s2, r, w3)" "Status_ok s2"
    and es: "table_ok es" "total entry_weight es < addressable"
  shows "reader_for r es" "disk_table w3 path es" "\<not> crashed w3"
proof -
  obtain filt where filt: "BloomFilter_Build (map e_key es) bits = Some filt"
    and d1: "fget w1 path = Some (table_bytes es filt)"
    using SSTableWriter_Write_ok [OF wr] by blast
  have fits: "table_fits es filt" using es(2) filt by (rule table_fits_total)
  have d2: "fget w2 path = Some (table_bytes es filt)"
    using io_frameD(7) [OF sz, of "{}"] d1 by (simp add: changes_only_fget)
  have r: "r = table_reader path es filt \<and> \<not> crashed w3"
    by (rule SSTableReader_Open_ok [OF es(1) fits Build_nonempty [OF filt] d2 opened])
  then show "reader_for r es" using es(1) fits filt by (auto simp: reader_for_def)
  show "\<not> crashed w3" using r by simp
  show "disk_table w3 path es"
    using SSTableReader_Open_frame [OF opened(1), of "{}"] d2 es(1) fits filt
    by (auto simp: disk_table_def changes_only_fget)
qed

lemma new_table_frame:
  assumes "SSTableWriter_Write path es bits w = (s1, w1)"
    and "fs_file_size path w1 = (sz, w2)" and "SSTableReader_Open path w2 = (s2, r, w3)"
  shows "changes_only {canon path} w w1" "changes_only {canon path} w w3"
  using SSTableWriter_Write_frame [OF assms(1)] io_frameD(7) [OF assms(2), of "{canon path}"]
    SSTableReader_Open_frame [OF assms(3), of "{canon path}"]
  by (blast intro: changes_only_trans)+

section \<open>The memtable as a table\<close>

lemma flush_entry_simps [simp]:
  "e_key (flush_entry kv) = fst kv" "entry_of (flush_entry kv) = mem_entry (snd kv)"
  by (simp_all add: flush_entry_def entry_of_def)

lemma table_lookup_memtable: "table_lookup (memtable_entries_of mt) = mem_lookup mt"
proof -
  have "map_of (map (\<lambda>e. (e_key e, entry_of e)) (map flush_entry m)) k = map_option mem_entry (map_of m k)"
    for m :: "(bytes, MemValue) std_map" and k
    by (induction m) auto
  then show ?thesis
    by (simp add: fun_eq_iff table_lookup_def memtable_entries_of_def mem_lookup_def map_find_def)
qed

lemma table_ok_memtable:
  assumes "mem_ok mt" and "\<not> MemTable_is_empty mt"
  shows "table_ok (memtable_entries_of mt)"
  using assms
  by (auto simp: mem_ok_def MemTable_ok_def table_ok_def memtable_entries_of_def MemTable_is_empty_def
      std_map_ok_def comp_def)

lemma mem_ok_Clear [simp]: "mem_ok (MemTable_Clear mt)"
  by (simp add: mem_ok_def memtable_entries_of_def MemTable_Clear_def MemTable_ok_def)

lemma mem_lookup_Clear_fun [simp]: "mem_lookup (MemTable_Clear mt) = Map.empty"
  by (simp add: fun_eq_iff)

section \<open>Fields the invariant and the view do not depend on\<close>

lemma db_ok_cong:
  "db_version db' = db_version db \<Longrightarrow> db_readers db' = db_readers db \<Longrightarrow> db_memtable db' = db_memtable db \<Longrightarrow>
    db_ok db' = db_ok db"
  by (simp add: db_ok_def db_tables_def)

lemma db_view_cong:
  "db_readers db' = db_readers db \<Longrightarrow> db_memtable db' = db_memtable db \<Longrightarrow> db_view db' = db_view db"
  by (simp add: db_view_def db_tables_def)

lemma db_field_simps [simp]:
  "db_ok (db\<lparr>db_wal := l\<rparr>) = db_ok db" "db_view (db\<lparr>db_wal := l\<rparr>) = db_view db"
  "db_ok (db\<lparr>bg_work_requested := b\<rparr>) = db_ok db" "db_view (db\<lparr>bg_work_requested := b\<rparr>) = db_view db"
  "db_ok (db\<lparr>bg_idle := b\<rparr>) = db_ok db" "db_view (db\<lparr>bg_idle := b\<rparr>) = db_view db"
  "db_ok (db\<lparr>bg_running := b\<rparr>) = db_ok db" "db_view (db\<lparr>bg_running := b\<rparr>) = db_view db"
  "db_ok (db\<lparr>shutting_down := b\<rparr>) = db_ok db" "db_view (db\<lparr>shutting_down := b\<rparr>) = db_view db"
  "db_ok (db\<lparr>db_closed := b\<rparr>) = db_ok db" "db_view (db\<lparr>db_closed := b\<rparr>) = db_view db"
  by (simp_all add: db_ok_def db_view_def db_tables_def)

lemma db_tables_fields [simp]:
  "db_tables (db\<lparr>db_memtable := m\<rparr>) = db_tables db" "db_tables (db\<lparr>db_wal := l\<rparr>) = db_tables db"
  by (simp_all add: db_tables_def)

lemma map_add_absorb [simp]: "m ++ a ++ a = m ++ a"
  by (simp add: fun_eq_iff map_add_def split: option.splits)

lemma db_total_cong:
  "db_readers db' = db_readers db \<Longrightarrow> db_memtable db' = db_memtable db \<Longrightarrow> db_total f db' = db_total f db"
  by (simp add: db_total_def db_tables_def)

section \<open>File numbers\<close>

lemma unat_succ: "unat (n :: u64) + 1 < 2 ^ 64 \<Longrightarrow> unat (n + 1) = unat n + 1"
  by (simp add: unat_word_ariths(1))

lemma less_succ: "unat (n :: u64) + 1 < 2 ^ 64 \<Longrightarrow> m < n \<Longrightarrow> m < n + 1"
  using unat_succ [of n] by (simp add: word_less_nat_alt)

lemma self_less_succ: "unat (n :: u64) + 1 < 2 ^ 64 \<Longrightarrow> n < n + 1"
  using unat_succ [of n] by (simp add: word_less_nat_alt)

lemma take_file_number_simps [simp]:
  "fst (take_file_number db) = next_file_number (db_version db)"
  "db_readers (snd (take_file_number db)) = db_readers db"
  "db_memtable (snd (take_file_number db)) = db_memtable db"
  "db_path (snd (take_file_number db)) = db_path db"
  "db_options (snd (take_file_number db)) = db_options db"
  "db_wal (snd (take_file_number db)) = db_wal db"
  "db_closed (snd (take_file_number db)) = db_closed db"
  "levels (db_version (snd (take_file_number db))) = levels (db_version db)"
  "next_file_number (db_version (snd (take_file_number db))) = next_file_number (db_version db) + 1"
  by (simp_all add: take_file_number_def)

lemma take_file_number_view [simp]: "db_view (snd (take_file_number db)) = db_view db"
  by (rule db_view_cong) simp_all

lemma version_for_next:
  assumes "version_for v tss" and "next_file_number v \<le> next_file_number v'" and "levels v' = levels v"
  shows "version_for v' tss"
  using assms by (auto simp: version_for_def version_numbers_def dest: less_le_trans)

lemma take_file_number_ok:
  assumes "db_ok db" and "unat (next_file_number (db_version db)) + 1 < 2 ^ 64"
  shows "db_ok (snd (take_file_number db))"
  using assms version_for_next [of "db_version db" "db_tables db" "db_version (snd (take_file_number db))"]
    self_less_succ [OF assms(2)]
  by (simp add: db_ok_def db_tables_def)

section \<open>Flush\<close>

text \<open>The database after a new table has been added to level 0.\<close>

definition flush_installed :: "DB \<Rightarrow> u64 \<Rightarrow> SSTableReader \<Rightarrow> DB" where
  "flush_installed db sz r =
     (let es = memtable_entries_of (db_memtable db); db1 = snd (take_file_number db);
          fm = \<lparr>number = next_file_number (db_version db), min_key = e_key (hd es),
                max_key = e_key (last es), file_size = sz\<rparr>
      in set_level db1 0 (Version_Level (db_version db1) 0 @ [fm]) (db_readers db1 ! 0 @ [r]))"

lemma set_level_simps [simp]:
  "db_path (set_level db l fs rs) = db_path db" "db_options (set_level db l fs rs) = db_options db"
  "db_memtable (set_level db l fs rs) = db_memtable db" "db_wal (set_level db l fs rs) = db_wal db"
  "db_closed (set_level db l fs rs) = db_closed db"
  "db_readers (set_level db l fs rs) = (db_readers db)[l := rs]"
  "levels (db_version (set_level db l fs rs)) = (levels (db_version db))[l := fs]"
  "next_file_number (db_version (set_level db l fs rs)) = next_file_number (db_version db)"
  by (simp_all add: set_level_def Version_SetLevel_def)

lemma flush_installed_simps [simp]:
  "db_path (flush_installed db sz r) = db_path db" "db_options (flush_installed db sz r) = db_options db"
  "db_memtable (flush_installed db sz r) = db_memtable db" "db_wal (flush_installed db sz r) = db_wal db"
  "db_closed (flush_installed db sz r) = db_closed db"
  "next_file_number (db_version (flush_installed db sz r)) = next_file_number (db_version db) + 1"
  by (simp_all add: flush_installed_def Let_def)

text \<open>
  Where a flush of a non-empty memtable can end: before the table is usable, with the table
  installed but the manifest not saved, or with the manifest saved and the log rotated (or stuck
  in the rotation).
\<close>

lemma FlushMemTableLocked_cases:
  assumes flush: "FlushMemTableLocked db w = (s, db', w')"
    and full: "\<not> MemTable_is_empty (db_memtable db)"
    and mem: "mem_ok (db_memtable db)"
    and fits: "total entry_weight (memtable_entries_of (db_memtable db)) < addressable"
  obtains (early) "\<not> Status_ok s" "db' = snd (take_file_number db)"
      "changes_only {canon (SSTablePath (db_path db) (next_file_number (db_version db)))} w w'"
    | (installed) sz r w3 s4 w4 where
      "reader_for r (memtable_entries_of (db_memtable db))"
      "changes_only {canon (SSTablePath (db_path db) (next_file_number (db_version db)))} w w3"
      "disk_table w3 (SSTablePath (db_path db) (next_file_number (db_version db)))
         (memtable_entries_of (db_memtable db))"
      "Version_Save (db_version (flush_installed db sz r)) (ManifestPath (db_path db)) w3 = (s4, w4)"
      "\<not> Status_ok s4 \<Longrightarrow> \<not> Status_ok s \<and> db' = flush_installed db sz r \<and> w' = w4"
      "Status_ok s4 \<Longrightarrow> \<exists>log. db' = (flush_installed db sz r)
           \<lparr>db_memtable := MemTable_Clear (db_memtable db), db_wal := log\<rparr> \<and>
         changes_only {canon (WalPath (db_path db))} w4 w' \<and>
         (fget w' (WalPath (db_path db)) \<in> {fget w4 (WalPath (db_path db)), None, Some []}) \<and>
         (wal_file log = None \<or> log = wal_opened (WalPath (db_path db)) \<and> fget w' (WalPath (db_path db)) \<noteq> None) \<and>
         (Status_ok s \<longrightarrow> log = wal_opened (WalPath (db_path db)) \<and> \<not> crashed w')"
proof -
  let ?es = "memtable_entries_of (db_memtable db)"
  let ?n = "next_file_number (db_version db)"
  let ?p = "SSTablePath (db_path db) ?n" and ?wal = "WalPath (db_path db)"
  obtain s1 w1 where w1: "SSTableWriter_Write ?p ?es (bloom_bits_per_key (db_options db)) w = (s1, w1)"
    by fastforce
  obtain sz w2 where w2: "fs_file_size ?p w1 = (sz, w2)" by fastforce
  obtain s2 r w3 where w3: "SSTableReader_Open ?p w2 = (s2, r, w3)" by (metis prod_cases3)
  let ?db2 = "flush_installed db sz r"
  obtain s4 w4 where w4: "Version_Save (db_version ?db2) (ManifestPath (db_path db)) w3 = (s4, w4)" by fastforce
  obtain s5 log5 w5 where w5: "WriteAheadLog_Close (db_wal db) w4 = (s5, log5, w5)" by (metis prod_cases3)
  obtain s6 log6 w6 where w6: "WriteAheadLog_Open WriteAheadLog_new ?wal (fremove ?wal w5) = (s6, log6, w6)"
    by (metis prod_cases3)
  note unfolded = flush [unfolded FlushMemTableLocked_def Let_def, folded memtable_entries_of_def]
  note frames = new_table_frame [OF w1 w2 w3]
  have tfn: "take_file_number db = (?n, snd (take_file_number db))" by (simp add: prod_eq_iff)
  have eq: "(s, db', w') =
     (if \<not> Status_ok s1 then (s1, snd (take_file_number db), w1)
      else if \<not> Status_ok s2 then (s2, snd (take_file_number db), w3)
      else if \<not> Status_ok s4 then (s4, ?db2, w4)
      else if \<not> Status_ok s5 then (s5, ?db2\<lparr>db_memtable := MemTable_Clear (db_memtable db), db_wal := log5\<rparr>, w5)
      else (s6, ?db2\<lparr>db_memtable := MemTable_Clear (db_memtable db), db_wal := log6\<rparr>, w6))"
    using unfolded full w1 w2 w3 w4 w5 w6
    by (subst (asm) tfn) (simp add: flush_installed_def Let_def split: if_splits)
  show thesis
  proof (cases "Status_ok s1 \<and> Status_ok s2")
    case False
    then show thesis using eq frames by (intro early) (auto split: if_splits)
  next
    case True
    then have ok: "Status_ok s1" "Status_ok s2" by simp_all
    note new = new_table [OF w1 ok(1) w2 w3 ok(2) table_ok_memtable [OF mem full] fits]
    have close: "changes_only {canon ?wal} w4 w5" using WriteAheadLog_Close_frame [OF w5] by blast
    have rm: "changes_only {canon ?wal} w5 (fremove ?wal w5)"
      "fget (fremove ?wal w5) ?wal \<in> {fget w5 ?wal, None}"
      subgoal by (rule fremove_frame)
      subgoal by (rule next_fault_cases [of w5]) (auto simp: fremove_def split: fault.splits)
      done
    have w5': "fget w5 ?wal = fget w4 ?wal"
      using WriteAheadLog_Close_frame [OF w5, of "{}"] by (auto simp: changes_only_fget)
    note op = WriteAheadLog_Open_frame [OF w6]
    show thesis
    proof (rule installed [OF new(1) frames(2) new(2) w4])
      show "\<not> Status_ok s \<and> db' = ?db2 \<and> w' = w4" if "\<not> Status_ok s4" using eq ok that by simp
      assume s4: "Status_ok s4"
      show "\<exists>log. db' = ?db2\<lparr>db_memtable := MemTable_Clear (db_memtable db), db_wal := log\<rparr> \<and>
         changes_only {canon ?wal} w4 w' \<and> (fget w' ?wal \<in> {fget w4 ?wal, None, Some []}) \<and>
         (wal_file log = None \<or> log = wal_opened ?wal \<and> fget w' ?wal \<noteq> None) \<and>
         (Status_ok s \<longrightarrow> log = wal_opened ?wal \<and> \<not> crashed w')"
      proof (cases "Status_ok s5")
        case False
        then show ?thesis
          using eq ok s4 close w5' WriteAheadLog_Close_frame [OF w5, of "{}"] by (intro exI [of _ log5]) simp
      next
        case s5: True
        have "fget w6 ?wal \<in> {fget w4 ?wal, None, Some []}"
          using rm(2) w5' WriteAheadLog_Open_ok [OF w6] WriteAheadLog_Open_fail [OF w6, of ?wal]
          by (cases "Status_ok s6"; cases "fget w4 ?wal") auto
        moreover have "changes_only {canon ?wal} w4 w6"
          using close rm(1) op by (blast intro: changes_only_trans)
        moreover have "wal_file log6 = None \<or> log6 = wal_opened ?wal \<and> fget w6 ?wal \<noteq> None"
          using WriteAheadLog_Open_ok [OF w6] WriteAheadLog_Open_closed [OF w6] by (cases "Status_ok s6") auto
        ultimately show ?thesis
          using eq ok s4 s5 WriteAheadLog_Open_ok [OF w6] by (intro exI [of _ log6]) simp
      qed
    qed
  qed
qed

text \<open>Adding a table to level 0 with the next number.\<close>

lemma version_for_add_l0:
  assumes v: "version_for v tss" and room: "unat (next_file_number v) + 1 < 2 ^ 64"
    and "meta_for fm es" and "table_ok es" and n: "number fm = next_file_number v"
  shows "version_for (v\<lparr>levels := (levels v)[0 := levels v ! 0 @ [fm]], next_file_number := next_file_number v + 1\<rparr>)
    (tss[0 := tss ! 0 @ [es]])"
proof -
  obtain l0 ls where ls: "levels v = l0 # ls"
    using version_for_length(1) [OF v] by (cases "levels v") (auto simp: kMaxLevels_def)
  obtain t0 ts where ts: "tss = t0 # ts"
    using version_for_length(2) [OF v] by (cases tss) (auto simp: kMaxLevels_def)
  have fresh: "\<forall>m\<in>set (version_numbers v). m < number fm" using v n by (simp add: version_for_def)
  then have "number fm \<notin> set (version_numbers v)" by auto
  then show ?thesis
    using assms fresh less_succ [OF room] self_less_succ [OF room]
    by (auto simp: version_for_def version_numbers_def tables_ok_def ls ts sorted_wrt_append
        intro: list_all2_appendI)
qed

lemma db_tables_update:
  "db_tables (set_level db l fs rs) = (db_tables db)[l := map reader_entries rs]"
  by (simp add: db_tables_def map_update)

lemma flush_installed_tables:
  assumes "db_ok db" and "reader_for r es" and "es = memtable_entries_of (db_memtable db)"
  shows "db_tables (flush_installed db sz r) = (db_tables db)[0 := db_tables db ! 0 @ [es]]"
  using assms db_ok_length(1) [OF assms(1)] reader_entries_for [OF assms(2)]
  by (simp add: flush_installed_def Let_def db_tables_update) (simp add: db_tables_def)

lemma flush_installed_version:
  "\<exists>fm. meta_for fm (memtable_entries_of (db_memtable db)) \<and> number fm = next_file_number (db_version db) \<and>
    db_version (flush_installed db sz r) = (db_version db)
      \<lparr>levels := (levels (db_version db))[0 := levels (db_version db) ! 0 @ [fm]],
       next_file_number := next_file_number (db_version db) + 1\<rparr>"
  by (intro exI [of _ "\<lparr>number = next_file_number (db_version db),
        min_key = e_key (hd (memtable_entries_of (db_memtable db))),
        max_key = e_key (last (memtable_entries_of (db_memtable db))), file_size = sz\<rparr>"])
    (simp add: flush_installed_def Let_def set_level_def Version_SetLevel_def take_file_number_def
      Version_Level_def meta_for_def)

lemma flush_installed_ok:
  assumes db: "db_ok db" and room: "unat (next_file_number (db_version db)) + 1 < 2 ^ 64"
    and r: "reader_for r (memtable_entries_of (db_memtable db))"
  shows "db_ok (flush_installed db sz r)"
proof -
  obtain fm where fm: "meta_for fm (memtable_entries_of (db_memtable db))"
    "number fm = next_file_number (db_version db)"
    "db_version (flush_installed db sz r) = (db_version db)
      \<lparr>levels := (levels (db_version db))[0 := levels (db_version db) ! 0 @ [fm]],
       next_file_number := next_file_number (db_version db) + 1\<rparr>"
    using flush_installed_version by blast
  have "version_for (db_version (flush_installed db sz r)) (db_tables (flush_installed db sz r))"
    unfolding fm(3) flush_installed_tables [OF db r refl]
    using db by (intro version_for_add_l0 room fm(1,2) reader_for_table_ok [OF r]) (simp add: db_ok_def)
  moreover have "list_all (list_all (\<lambda>r. reader_for r (reader_entries r))) (db_readers (flush_installed db sz r))"
  proof -
    obtain r0 rs where "db_readers db = r0 # rs"
      using db_ok_length(1) [OF db] by (cases "db_readers db") (auto simp: kMaxLevels_def)
    then show ?thesis
      using db r reader_entries_for [OF r] by (simp add: flush_installed_def Let_def db_ok_def)
  qed
  ultimately show ?thesis using db by (simp add: db_ok_def)
qed

lemma tables_lookup_add_l0:
  assumes "tss \<noteq> []"
  shows "tables_lookup (tss[0 := tss ! 0 @ [es]]) = tables_lookup tss ++ table_lookup es"
  using assms by (cases tss) (simp_all add: tables_lookup_def tables_newest_first_def)

lemma db_tables_nonempty: "db_ok db \<Longrightarrow> db_tables db \<noteq> []"
  using db_ok_length(1) [of db] by (auto simp: db_tables_def kMaxLevels_def)

lemma flush_installed_lookup:
  assumes "db_ok db" and "reader_for r (memtable_entries_of (db_memtable db))"
  shows "tables_lookup (db_tables (flush_installed db sz r)) =
    store_lookup (db_memtable db) (db_tables db)"
  using assms
  by (simp add: flush_installed_tables tables_lookup_add_l0 db_tables_nonempty table_lookup_memtable
      store_lookup_def)

lemma flush_installed_view:
  assumes "db_ok db" and "reader_for r (memtable_entries_of (db_memtable db))"
  shows "db_view (flush_installed db sz r) = db_view db"
    "db_view ((flush_installed db sz r)\<lparr>db_memtable := MemTable_Clear mt, db_wal := log\<rparr>) = db_view db"
  using flush_installed_lookup [OF assms]
  by (auto simp: db_view_def store_view_def [abs_def] store_lookup_def)

text \<open>A flush that succeeds moves entries and adds none.\<close>

lemma flush_installed_total:
  assumes "db_ok db" and "reader_for r (memtable_entries_of (db_memtable db))"
  shows "db_total f ((flush_installed db sz r)\<lparr>db_memtable := MemTable_Clear mt, db_wal := log\<rparr>) = db_total f db"
proof -
  obtain t0 ts where ts: "db_tables db = t0 # ts"
    using db_tables_nonempty [OF assms(1)] by (cases "db_tables db") auto
  have "db_tables ((flush_installed db sz r)\<lparr>db_memtable := MemTable_Clear mt, db_wal := log\<rparr>) =
      (t0 @ [memtable_entries_of (db_memtable db)]) # ts"
    using flush_installed_tables [OF assms refl, of sz] by (simp add: ts)
  then show ?thesis
    by (simp add: db_total_def store_entries_def ts memtable_entries_of_def MemTable_Clear_def)
qed

lemma mem_fits: "db_total f db < n \<Longrightarrow> total f (memtable_entries_of (db_memtable db)) < n"
  by (simp add: db_total_def store_entries_def)

theorem FlushMemTableLocked_inv:
  assumes "FlushMemTableLocked db w = (s, db', w')" and ok: "db_ok db" and fits: "db_fits db"
    and room: "unat (next_file_number (db_version db)) + 1 < 2 ^ 64"
  shows "db_ok db'" "db_view db' = db_view db"
    "Status_ok s \<Longrightarrow> db_total f db' = db_total f db"
    "unat (next_file_number (db_version db')) \<le> unat (next_file_number (db_version db)) + 1"
    "db_options db' = db_options db" "db_path db' = db_path db" "db_closed db' = db_closed db"
proof -
  have "db_ok db' \<and> db_view db' = db_view db \<and> (Status_ok s \<longrightarrow> db_total f db' = db_total f db) \<and>
    unat (next_file_number (db_version db')) \<le> unat (next_file_number (db_version db)) + 1 \<and>
    db_options db' = db_options db \<and> db_path db' = db_path db \<and> db_closed db' = db_closed db"
  proof (cases "MemTable_is_empty (db_memtable db)")
    case True
    then show ?thesis using assms by (simp add: FlushMemTableLocked_def)
  next
    case False
    have mem: "mem_ok (db_memtable db)" using ok by (simp add: db_ok_def)
    have small: "total entry_weight (memtable_entries_of (db_memtable db)) < addressable"
      using fits by (intro mem_fits) (simp add: db_fits_def)
    from assms(1) False mem small show ?thesis
    proof (cases rule: FlushMemTableLocked_cases)
      case early
      then show ?thesis using take_file_number_ok [OF ok room] unat_succ [OF room] by simp
    next
      case (installed sz r w3 s4 w4)
      note new = flush_installed_ok [OF ok room installed(1)]
        flush_installed_view [OF ok installed(1)]
        flush_installed_total [OF ok installed(1), where f = f and sz = sz]
      show ?thesis
      proof (cases "Status_ok s4")
        case True
        then obtain log where "db' = (flush_installed db sz r)
           \<lparr>db_memtable := MemTable_Clear (db_memtable db), db_wal := log\<rparr>" using installed(6) by blast
        with new show ?thesis using unat_succ [OF room] by (simp add: db_ok_def)
      next
        case False
        with installed(5) new show ?thesis using unat_succ [OF room] by simp
      qed
    qed
  qed
  then show "db_ok db'" "db_view db' = db_view db"
    "Status_ok s \<Longrightarrow> db_total f db' = db_total f db"
    "unat (next_file_number (db_version db')) \<le> unat (next_file_number (db_version db)) + 1"
    "db_options db' = db_options db" "db_path db' = db_path db" "db_closed db' = db_closed db"
    by blast+
qed

section \<open>Merging tables\<close>

text \<open>The merged map of a list of entries, oldest first.\<close>

definition merged_of :: "SSTableEntry list \<Rightarrow> (bytes, SSTableEntry) std_map" where
  "merged_of es = fold (\<lambda>e m. map_assign (e_key e) e m) es []"

lemma merge_readers_ok:
  assumes "\<forall>r\<in>set rs. reader_for r (reader_entries r)"
  shows "merge_readers rs m = Inr (fold (\<lambda>e m. map_assign (e_key e) e m) (concat (map reader_entries rs)) m)"
  using assms
proof (induction rs arbitrary: m)
  case (Cons r rs)
  then have "SSTableReader_ReadAll r = (Status_OK, reader_entries r)" by (simp add: ReadAll_reader)
  with Cons show ?case by (simp add: merge_entries_def)
qed simp

lemma merged_of_sorted: "std_map_ok (merged_of es)"
  using sm.invar_fold_assign [OF sm.invar_empty, of e_key "\<lambda>e. e" es] by (simp add: merged_of_def)

lemma merged_of_find: "map_of (merged_of es) k = map_of (rev (map (\<lambda>e. (e_key e, e)) es)) k"
  using sm.find_fold_assign [OF sm.invar_empty, of e_key "\<lambda>e. e" es k]
  by (simp add: merged_of_def map_find_def split: option.splits)

lemma merged_of_entries: "(k, e) \<in> set (merged_of es) \<Longrightarrow> k = e_key e \<and> e \<in> set es"
proof -
  assume "(k, e) \<in> set (merged_of es)"
  then have "map_of (merged_of es) k = Some e"
    using sm.in_entries_iff [OF merged_of_sorted, of k e es] by (simp add: map_find_def)
  then have "(k, e) \<in> set (rev (map (\<lambda>e. (e_key e, e)) es))"
    unfolding merged_of_find by (rule map_of_SomeD)
  then show ?thesis by auto
qed

lemma merged_keys: "map e_key (map snd (merged_of es)) = map fst (merged_of es)"
  using merged_of_entries [of _ _ es] by (auto simp: comp_def intro!: map_cong)

lemma merged_list_sorted: "sorted_wrt (<) (map e_key (map snd (merged_of es)))"
  unfolding merged_keys using merged_of_sorted [of es] by (simp add: std_map_ok_def)

lemma merged_list_entries: "set (map snd (merged_of es)) \<subseteq> set es"
  using merged_of_entries by fastforce

lemma map_of_keyed: "map_of (map (\<lambda>e. (e_key e, f e)) es) k = map_option f (map_of (map (\<lambda>e. (e_key e, e)) es) k)"
  by (induction es) auto

lemma merged_list_lookup: "table_lookup (map snd (merged_of es)) = table_lookup (rev es)"
proof
  fix k
  have "map (\<lambda>e. (e_key e, e)) (map snd (merged_of es)) = merged_of es"
    using merged_of_entries [of _ _ es] by (auto simp: comp_def intro!: map_idI)
  then have "table_lookup (map snd (merged_of es)) k = map_option entry_of (map_of (merged_of es) k)"
    unfolding table_lookup_def map_of_keyed [of entry_of] by (simp only:)
  then show "table_lookup (map snd (merged_of es)) k = table_lookup (rev es) k"
    unfolding merged_of_find table_lookup_def map_of_keyed [of entry_of] by (simp add: rev_map)
qed

lemma total_map_assign: "total f (map snd (map_assign k e m)) \<le> f e + total f (map snd m)"
  by (induction k e m rule: map_assign.induct) auto

lemma merged_list_total: "total f (map snd (merged_of es)) \<le> total f es"
proof -
  have "total f (map snd (fold (\<lambda>e m. map_assign (e_key e) e m) es m)) \<le> total f es + total f (map snd m)" for m
  proof (induction es arbitrary: m)
    case (Cons e es)
    from Cons [of "map_assign (e_key e) e m"] total_map_assign [of f "e_key e" e m] show ?case by simp
  qed simp
  from this [of "[]"] show ?thesis by (simp add: merged_of_def)
qed

lemma table_lookup_rev:
  assumes "sorted_wrt (<) (map e_key es)"
  shows "table_lookup (rev es) = table_lookup es"
  using level_sorted_rev [of "map (\<lambda>e. [e]) es"] assms
  by (simp add: level_sorted_def rev_map)

text \<open>Merging oldest first is looking up newest first.\<close>

lemma table_lookup_rev_concat:
  assumes "\<forall>t\<in>set ts. sorted_wrt (<) (map e_key t)"
  shows "table_lookup (rev (concat ts)) = table_lookup (concat (rev ts))"
  using assms by (induction ts) (simp_all add: table_lookup_rev)

end
