(* ===== verification/DB_Compact.thy ===== *)
theory DB_Compact
  imports DB_Maint
begin

text \<open>
  Compaction of one level into the next. The output loop is verified by an invariant that says
  which tables it has written, under which numbers, and that only fresh table files have changed; the
  merged tables are then shown to answer every lookup as the two levels did, so that
  \<open>CompactLocked\<close> keeps the invariant and the view whatever fails. The loop that
  repeats compactions ends whenever the level-0 trigger is positive.
\<close>

lemma disk_table_frame:
  "changes_only P w w' \<Longrightarrow> canon p \<notin> P \<Longrightarrow> disk_table w' p es = disk_table w p es"
  by (simp add: disk_table_def changes_only_fget)

section \<open>The output loop\<close>

text \<open>The database with file numbers up to \<open>n\<close> taken, otherwise unchanged.\<close>

definition bumped :: "DB \<Rightarrow> u64 \<Rightarrow> DB" where
  "bumped db n = db\<lparr>db_version := (db_version db)\<lparr>next_file_number := n\<rparr>\<rparr>"

lemma bumped_simps [simp]:
  "db_path (bumped db n) = db_path db" "db_options (bumped db n) = db_options db"
  "db_readers (bumped db n) = db_readers db" "db_memtable (bumped db n) = db_memtable db"
  "db_wal (bumped db n) = db_wal db" "db_closed (bumped db n) = db_closed db"
  "levels (db_version (bumped db n)) = levels (db_version db)"
  "next_file_number (db_version (bumped db n)) = n" "bumped (bumped db n) m = bumped db m"
  by (simp_all add: bumped_def)

lemma take_file_number_bumped:
  "take_file_number (bumped db n) = (n, bumped db (n + 1))"
  by (simp add: take_file_number_def bumped_def)

abbreviation db_next :: "DB \<Rightarrow> u64" where
  "db_next db \<equiv> next_file_number (db_version db)"

text \<open>Numbers up to \<open>n\<close> were taken and only the files of those numbers may have changed.\<close>

definition numbers_taken :: "DB \<Rightarrow> world \<Rightarrow> nat \<Rightarrow> u64 \<Rightarrow> world \<Rightarrow> bool" where
  "numbers_taken db w0 k n w \<longleftrightarrow>
     db_next db \<le> n \<and> unat n \<le> unat (db_next db) + k \<and>
     changes_only (table_paths (db_path db) {db_next db..<n}) w0 w"

definition compact_inv :: "DB \<Rightarrow> world \<Rightarrow> u64 \<Rightarrow> compact_state \<Rightarrow> world \<Rightarrow> table list \<Rightarrow> bool" where
  "compact_inv db w0 n cs w outs \<longleftrightarrow>
     cs_db cs = bumped db n \<and> numbers_taken db w0 (length outs) n w \<and>
     list_all2 reader_for (cs_readers cs) outs \<and> list_all2 meta_for (cs_files cs) outs \<and>
     list_all2 (\<lambda>fm es. disk_table w (SSTablePath (db_path db) (number fm)) es) (cs_files cs) outs \<and>
     sorted_wrt (<) (map number (cs_files cs)) \<and>
     (\<forall>fm\<in>set (cs_files cs). db_next db \<le> number fm \<and> number fm < n)"

lemma numbers_taken_step:
  assumes t: "numbers_taken db w0 k n w" and room: "unat (db_next db) + k + 1 < 2 ^ 64"
    and w': "changes_only {canon (SSTablePath (db_path db) n)} w w'"
  shows "numbers_taken db w0 (Suc k) (n + 1) w'" "unat n + 1 < 2 ^ 64"
proof -
  show r: "unat n + 1 < 2 ^ 64" using t room by (simp add: numbers_taken_def)
  let ?P = "table_paths (db_path db) {db_next db..<n + 1}"
  have le: "db_next db \<le> n" using t by (simp add: numbers_taken_def)
  have "changes_only ?P w0 w"
    using t less_succ [OF r]
    by (auto simp: numbers_taken_def elim!: changes_only_mono intro!: table_paths_mono)
  moreover have "changes_only ?P w w'"
    using w' self_less_succ [OF r] le by (auto elim!: changes_only_mono)
  ultimately have "changes_only ?P w0 w'" by (rule changes_only_trans)
  then show "numbers_taken db w0 (Suc k) (n + 1) w'"
    using t unat_succ [OF r] le self_less_succ [OF r] by (simp add: numbers_taken_def)
qed

text \<open>The state after a batch has been written as a table.\<close>

definition batch_written :: "DB \<Rightarrow> u64 \<Rightarrow> u64 \<Rightarrow> SSTableReader \<Rightarrow> compact_state \<Rightarrow> compact_state" where
  "batch_written db n sz r cs =
     cs\<lparr>cs_db := bumped db (n + 1),
        cs_files := cs_files cs @ [\<lparr>number = n, min_key = e_key (hd (cs_batch cs)),
                                    max_key = e_key (last (cs_batch cs)), file_size = sz\<rparr>],
        cs_readers := cs_readers cs @ [r], cs_batch := [], cs_bytes := 0\<rparr>"

lemma batch_written_inv:
  assumes inv: "compact_inv db w0 n cs w outs" and taken: "numbers_taken db w0 (Suc (length outs)) (n + 1) w'"
    and room: "unat n + 1 < 2 ^ 64"
    and frame: "changes_only {canon (SSTablePath (db_path db) n)} w w'"
    and new: "reader_for r (cs_batch cs)" "disk_table w' (SSTablePath (db_path db) n) (cs_batch cs)"
  shows "compact_inv db w0 (n + 1) (batch_written db n sz r cs) w' (outs @ [cs_batch cs])"
proof -
  have below: "number fm < n" if "fm \<in> set (cs_files cs)" for fm
    using inv that by (simp add: compact_inv_def)
  have "list_all2 (\<lambda>fm es. disk_table w' (SSTablePath (db_path db) (number fm)) es) (cs_files cs) outs"
  proof (rule list.rel_mono_strong)
    show "list_all2 (\<lambda>fm es. disk_table w (SSTablePath (db_path db) (number fm)) es) (cs_files cs) outs"
      using inv by (simp add: compact_inv_def)
    show "disk_table w' (SSTablePath (db_path db) (number fm)) es"
      if "fm \<in> set (cs_files cs)" "disk_table w (SSTablePath (db_path db) (number fm)) es" for fm es
      using that below [of fm] by (auto simp: disk_table_frame [OF frame] SSTablePath_inj)
  qed
  moreover have "db_next db \<le> n" using inv by (simp add: compact_inv_def numbers_taken_def)
  ultimately show ?thesis
    using inv taken new below less_succ [OF room] self_less_succ [OF room]
    by (auto simp: compact_inv_def batch_written_def sorted_wrt_append meta_for_def intro: list_all2_appendI)
qed

lemma flush_batch_inv:
  assumes inv: "compact_inv db w0 n cs w outs" and run: "flush_batch cs w = (s, cs', w')"
    and batch: "table_ok (cs_batch cs)"
    and fits: "total entry_weight (cs_batch cs) < addressable"
    and room: "unat (db_next db) + length outs + 1 < 2 ^ 64"
  shows "Status_ok s \<Longrightarrow> compact_inv db w0 (n + 1) cs' w' (outs @ [cs_batch cs]) \<and> cs_batch cs' = []"
    "\<not> Status_ok s \<Longrightarrow> cs_db cs' = bumped db (n + 1) \<and> numbers_taken db w0 (Suc (length outs)) (n + 1) w'"
proof -
  let ?es = "cs_batch cs" and ?p = "SSTablePath (db_path db) n" and ?db1 = "bumped db (n + 1)"
  have taken: "numbers_taken db w0 (length outs) n w" and cdb: "cs_db cs = bumped db n"
    using inv by (simp_all add: compact_inv_def)
  have ne: "?es \<noteq> []" using batch by (simp add: table_ok_def)
  obtain s1 w1 where w1: "SSTableWriter_Write ?p ?es (bloom_bits_per_key (db_options db)) w = (s1, w1)"
    by fastforce
  obtain sz w2 where w2: "fs_file_size ?p w1 = (sz, w2)" by fastforce
  obtain s2 r w3 where w3: "SSTableReader_Open ?p w2 = (s2, r, w3)" by (metis prod_cases3)
  have eq: "(s, cs', w') =
     (if \<not> Status_ok s1 then (s1, cs\<lparr>cs_db := ?db1\<rparr>, w1)
      else if \<not> Status_ok s2 then (s2, cs\<lparr>cs_db := ?db1\<rparr>, w3)
      else (Status_OK, batch_written db n sz r cs, w3))"
    using run ne w1 w2 w3
    by (simp add: flush_batch_def Let_def cdb take_file_number_bumped batch_written_def split: if_splits)
  note frames = new_table_frame [OF w1 w2 w3]
  note step1 = numbers_taken_step [OF taken room frames(1)]
  note step3 = numbers_taken_step [OF taken room frames(2)]
  show "\<not> Status_ok s \<Longrightarrow> cs_db cs' = bumped db (n + 1) \<and> numbers_taken db w0 (Suc (length outs)) (n + 1) w'"
    using eq step1(1) step3(1) by (auto split: if_splits)
  assume "Status_ok s"
  then have ok: "Status_ok s1" "Status_ok s2" using eq by (auto split: if_splits)
  note new = new_table [OF w1 ok(1) w2 w3 ok(2) batch fits]
  show "compact_inv db w0 (n + 1) cs' w' (outs @ [cs_batch cs]) \<and> cs_batch cs' = []"
    using eq ok batch_written_inv [OF inv step3 frames(2) new(1,2), of sz]
    by (simp add: batch_written_def)
qed

text \<open>What the loop works through: representable entries in key order that fit in memory.\<close>

definition run_ok :: "SSTableEntry list \<Rightarrow> bool" where
  "run_ok L \<longleftrightarrow> list_all entry_ok L \<and> sorted_wrt (<) (map e_key L) \<and> total entry_weight L < addressable"

lemma run_ok_part:
  assumes "run_ok L" and "L = xs @ b @ ys" and "b \<noteq> []"
  shows "table_ok b" "total entry_weight b < addressable"
  using assms by (auto simp: run_ok_def table_ok_def sorted_wrt_append)

lemma compact_inv_length: "compact_inv db w0 n cs w outs \<Longrightarrow> length outs \<le> length (concat outs)"
proof -
  assume "compact_inv db w0 n cs w outs"
  then have "list_all2 reader_for (cs_readers cs) outs" by (simp add: compact_inv_def)
  then show ?thesis
  proof (induction rule: list_all2_induct)
    case (Cons r rs t ts)
    then have "t \<noteq> []" using reader_for_table_ok [of r t] by (simp add: table_ok_def)
    with Cons show ?case by (cases t) auto
  qed simp
qed

definition compact_keep :: "bool \<Rightarrow> SSTableEntry \<Rightarrow> bool" where
  "compact_keep d e \<longleftrightarrow> \<not> (d \<and> e_type e = EntryType_kDelete)"

lemma compact_loop_inv:
  assumes L: "run_ok L" and room: "unat (db_next db) + length L + 1 < 2 ^ 64"
    and "compact_inv db w0 n cs w outs" and "concat outs @ cs_batch cs @ filter (compact_keep d) es = L"
    and "compact_loop d t es cs w = (s, cs', w')"
  shows "(Status_ok s \<longrightarrow>
      (\<exists>n' outs'. compact_inv db w0 n' cs' w' outs' \<and> concat outs' @ cs_batch cs' = L)) \<and>
    (\<not> Status_ok s \<longrightarrow> (\<exists>n'. cs_db cs' = bumped db n' \<and> numbers_taken db w0 (Suc (length L)) n' w'))"
  using assms(3-5)
proof (induction es arbitrary: n cs w outs)
  case Nil
  then show ?case by auto
next
  case (Cons e es)
  show ?case
  proof (cases "compact_keep d e")
    case False
    with Cons show ?thesis by (simp add: compact_keep_def)
  next
    case keep: True
    define cs1 where "cs1 = cs\<lparr>cs_bytes := cs_bytes cs +
        (of_nat (length (e_key e)) + of_nat (length (e_value e))), cs_batch := cs_batch cs @ [e]\<rparr>"
    have inv1: "compact_inv db w0 n cs1 w outs" using Cons.prems(1) by (simp add: compact_inv_def cs1_def)
    have L1: "concat outs @ cs_batch cs1 @ filter (compact_keep d) es = L"
      using Cons.prems(2) keep by (simp add: cs1_def)
    have run: "compact_loop d t (e # es) cs w =
      (if cs_bytes cs1 \<ge> t then (case flush_batch cs1 w of (s, cs2, w1) \<Rightarrow>
         if \<not> Status_ok s then (s, cs2, w1) else compact_loop d t es cs2 w1)
       else compact_loop d t es cs1 w)"
      unfolding compact_loop.simps if_not_P [OF keep [unfolded compact_keep_def]] Let_def cs1_def ..
    show ?thesis
    proof (cases "cs_bytes cs1 \<ge> t")
      case False
      then show ?thesis using Cons.IH [OF inv1 L1] Cons.prems(3) run by simp
    next
      case True
      obtain s1 cs2 w1 where fb: "flush_batch cs1 w = (s1, cs2, w1)" by (metis prod_cases3)
      note part = run_ok_part [OF L L1 [symmetric]]
      have len: "length outs \<le> length L" using compact_inv_length [OF inv1] L1 by auto
      have ne: "cs_batch cs1 \<noteq> []" by (simp add: cs1_def)
      have room1: "unat (db_next db) + length outs + 1 < 2 ^ 64" using room len by linarith
      note fbi = flush_batch_inv [OF inv1 fb part(1) [OF ne] part(2) [OF ne] room1]
      show ?thesis
      proof (cases "Status_ok s1")
        case ok: True
        then have inv2: "compact_inv db w0 (n + 1) cs2 w1 (outs @ [cs_batch cs1])" and b2: "cs_batch cs2 = []"
          using fbi(1) by simp_all
        have "concat (outs @ [cs_batch cs1]) @ cs_batch cs2 @ filter (compact_keep d) es = L"
          using L1 b2 by simp
        from Cons.IH [OF inv2 this] show ?thesis using Cons.prems(3) run True fb ok by simp
      next
        case bad: False
        then have "cs_db cs2 = bumped db (n + 1)" "numbers_taken db w0 (Suc (length L)) (n + 1) w1"
          using fbi(2) len by (auto simp: numbers_taken_def)
        then show ?thesis using Cons.prems(3) run True fb bad by auto
      qed
    qed
  qed
qed

section \<open>Compacting a level\<close>

text \<open>The tables of the two levels in the order they are merged, oldest first.\<close>

definition compact_inputs :: "table list list \<Rightarrow> nat \<Rightarrow> table list" where
  "compact_inputs tss l = tss ! Suc l @ (if l = 0 then tss ! 0 else rev (tss ! l))"

text \<open>The entries written out: the merge, without tombstones when it goes to the last level.\<close>

definition compact_run :: "table list list \<Rightarrow> nat \<Rightarrow> SSTableEntry list" where
  "compact_run tss l =
     filter (compact_keep (Suc l = kMaxLevels - 1)) (map snd (merged_of (concat (compact_inputs tss l))))"

definition compact_installed :: "DB \<Rightarrow> u64 \<Rightarrow> nat \<Rightarrow> FileMetaData list \<Rightarrow> SSTableReader list \<Rightarrow> DB" where
  "compact_installed db n l fs rs = set_level (set_level (bumped db n) l [] []) (Suc l) fs rs"

lemma split_at_pair:
  assumes "Suc l < length xs"
  obtains A B where "xs = A @ xs ! l # xs ! Suc l # B" "length A = l"
proof
  show "xs = take l xs @ xs ! l # xs ! Suc l # drop (Suc (Suc l)) xs"
    using assms by (metis Cons_nth_drop_Suc Suc_lessD append_take_drop_id)
qed (use assms in simp)

lemma total_concat_rev: "total f (concat (rev ts)) = total f (concat ts)"
  by (induction ts) simp_all

lemma compact_inputs_total:
  assumes "Suc l < length tss"
  shows "total f (concat (compact_inputs tss l)) \<le> total f (concat (concat tss))"
proof -
  obtain A B where AB: "tss = A @ tss ! l # tss ! Suc l # B" using split_at_pair [OF assms] by blast
  have "total f (concat (concat tss)) = total f (concat (concat (A @ tss ! l # tss ! Suc l # B)))"
    by (subst AB) (rule refl)
  then show ?thesis by (simp add: compact_inputs_def total_concat_rev)
qed

lemma compact_run_total:
  assumes "Suc l < length tss"
  shows "total f (compact_run tss l) \<le> total f (concat (concat tss))"
  using total_filter_le [of f "compact_keep (Suc l = kMaxLevels - 1)"] merged_list_total [of f]
    compact_inputs_total [OF assms, of f]
  unfolding compact_run_def by (blast intro: order_trans)

lemma sorted_wrt_map_filter: "sorted_wrt R (map f xs) \<Longrightarrow> sorted_wrt R (map f (filter P xs))"
  by (simp add: sorted_wrt_map sorted_wrt_filter)

lemma compact_run_ok:
  assumes "tables_ok tss" and l: "Suc l < kMaxLevels" and "total entry_weight (concat (concat tss)) < addressable"
  shows "run_ok (compact_run tss l)"
proof -
  have len: "length tss = kMaxLevels" and "list_all (list_all table_ok) tss"
    using assms(1) by (simp_all add: tables_ok_def)
  then have "\<forall>t\<in>set (tss ! l) \<union> set (tss ! Suc l). list_all entry_ok t"
    using l by (auto simp: list_all_length in_set_conv_nth table_ok_def)
  moreover have "set (compact_inputs tss l) \<subseteq> set (tss ! l) \<union> set (tss ! Suc l)"
    by (auto simp: compact_inputs_def)
  ultimately have "\<forall>e\<in>set (concat (compact_inputs tss l)). entry_ok e"
    by (auto simp: list_all_iff)
  then have "\<forall>e\<in>set (compact_run tss l). entry_ok e"
    using merged_list_entries [of "concat (compact_inputs tss l)"] unfolding compact_run_def by fastforce
  moreover have "total entry_weight (compact_run tss l) < addressable"
    using compact_run_total [of l tss entry_weight] assms(3) len l by simp
  ultimately show ?thesis
    using sorted_wrt_map_filter [OF merged_list_sorted] by (simp add: run_ok_def list_all_iff compact_run_def)
qed

lemma fremove_tables_frame:
  "changes_only (table_paths d (set ns)) w (fold (\<lambda>n w. fremove (SSTablePath d n) w) ns w)"
proof -
  have "set ns \<subseteq> N \<Longrightarrow> changes_only (table_paths d N) w (fold (\<lambda>n w. fremove (SSTablePath d n) w) ns w)" for N
  proof (induction ns arbitrary: w)
    case (Cons n ns)
    have "changes_only (table_paths d N) w (fremove (SSTablePath d n) w)"
      using Cons.prems by (intro changes_only_mono [OF fremove_frame]) simp
    with Cons show ?case by (auto intro: changes_only_trans)
  qed simp
  then show ?thesis by blast
qed

definition compact_start :: "DB \<Rightarrow> compact_state" where
  "compact_start db = \<lparr>cs_db = db, cs_files = [], cs_readers = [], cs_batch = [], cs_bytes = 0\<rparr>"

lemma compact_start_inv: "compact_inv db w (db_next db) (compact_start db) w []"
  by (simp add: compact_inv_def compact_start_def bumped_def numbers_taken_def)

text \<open>The whole output phase: the loop and the last batch.\<close>

lemma compact_output:
  assumes L: "run_ok L" and Ldef: "L = filter (compact_keep d) es" and room: "unat (db_next db) + length L + 1 < 2 ^ 64"
    and loop: "compact_loop d t es (compact_start db) w = (s1, cs1, w1)"
    and last: "flush_batch cs1 w1 = (s2, cs2, w2)"
  obtains (loop_failed) n where "\<not> Status_ok s1" "cs_db cs1 = bumped db n" "numbers_taken db w (Suc (length L)) n w1"
    | (last_failed) n where "Status_ok s1" "\<not> Status_ok s2" "cs_db cs2 = bumped db n"
        "numbers_taken db w (Suc (length L)) n w2"
    | (finished) n outs where "Status_ok s1" "Status_ok s2" "compact_inv db w n cs2 w2 outs" "concat outs = L"
proof (cases "Status_ok s1")
  case False
  then show thesis
    using compact_loop_inv [OF L room compact_start_inv _ loop] Ldef
    by (auto simp: compact_start_def intro: loop_failed)
next
  case True
  then obtain n outs where inv: "compact_inv db w n cs1 w1 outs" and Lo: "concat outs @ cs_batch cs1 @ [] = L"
    using compact_loop_inv [OF L room compact_start_inv _ loop] Ldef by (auto simp: compact_start_def)
  show thesis
  proof (cases "cs_batch cs1 = []")
    case empty: True
    then show thesis using True inv Lo last by (intro finished [of n outs]) (simp_all add: flush_batch_def)
  next
    case ne: False
    have len: "length outs \<le> length L" using compact_inv_length [OF inv] Lo by auto
    have room1: "unat (db_next db) + length outs + 1 < 2 ^ 64" using room len by linarith
    note part = run_ok_part [OF L Lo [symmetric] ne]
    note fbi = flush_batch_inv [OF inv last part room1]
    show thesis
    proof (cases "Status_ok s2")
      case ok: True
      with fbi(1) True Lo show thesis by (intro finished [of "n + 1" "outs @ [cs_batch cs1]"]) simp_all
    next
      case bad: False
      with fbi(2) True len show thesis
        by (intro last_failed [of "n + 1"]) (auto simp: numbers_taken_def)
    qed
  qed
qed

lemma compact_merge:
  assumes "db_ok db" and l: "Suc l < kMaxLevels"
  shows "merge_readers (db_readers db ! Suc l @ rev (if l = 0
      then map snd (newest_first (zip (map number (Version_Level (db_version db) l)) (db_readers db ! l)))
      else db_readers db ! l)) [] = Inr (merged_of (concat (compact_inputs (db_tables db) l)))"
proof -
  have "db_tables db ! i = map reader_entries (db_readers db ! i)" if "i < kMaxLevels" for i
    using that db_ok_length(1) [OF assms(1)] by (simp add: db_tables_def)
  moreover have "\<forall>r\<in>set (db_readers db ! Suc l @ rev (db_readers db ! l)). reader_for r (reader_entries r)"
    using db_ok_readers [OF assms(1), of l] db_ok_readers [OF assms(1), of "Suc l"] l by auto
  ultimately show ?thesis
    using l db_ok_level0 [OF assms(1)]
    by (auto simp: merge_readers_ok merged_of_def compact_inputs_def rev_map Version_Level_def)
qed

lemma CompactLocked_cases:
  assumes compact: "CompactLocked l db w = (s, db', w')" and l: "Suc l < kMaxLevels"
    and ok: "db_ok db" and fits: "db_fits db"
    and room: "unat (db_next db) + length (compact_run (db_tables db) l) + 1 < 2 ^ 64"
  obtains (stopped) n where "\<not> Status_ok s" "db' = bumped db n"
      "numbers_taken db w (Suc (length (compact_run (db_tables db) l))) n w'"
    | (installed) n cs w2 outs s3 w3 where "compact_inv db w n cs w2 outs"
      "concat outs = compact_run (db_tables db) l"
      "db' = compact_installed db n l (cs_files cs) (cs_readers cs)"
      "Version_Save (db_version db') (ManifestPath (db_path db)) w2 = (s3, w3)"
      "\<not> Status_ok s3 \<Longrightarrow> \<not> Status_ok s \<and> w' = w3"
      "Status_ok s3 \<Longrightarrow> Status_ok s \<and> changes_only (table_paths (db_path db)
         (number ` (set (levels (db_version db) ! l) \<union> set (levels (db_version db) ! Suc l)))) w3 w'"
proof -
  let ?L = "compact_run (db_tables db) l" and ?d = "Suc l = kMaxLevels - 1"
  let ?t = "max (memtable_flush_bytes (db_options db)) kMinCompactionOutputFileBytes"
  let ?es = "map snd (merged_of (concat (compact_inputs (db_tables db) l)))"
  have "tables_ok (db_tables db)" using ok by (simp add: db_ok_def version_for_def)
  moreover have "total entry_weight (concat (concat (db_tables db))) < addressable"
    using fits by (simp add: db_fits_def db_total_def store_entries_def)
  ultimately have L: "run_ok ?L" by (intro compact_run_ok l)
  have Ldef: "?L = filter (compact_keep ?d) ?es" by (simp add: compact_run_def)
  obtain s1 cs1 w1 where loop: "compact_loop ?d ?t ?es (compact_start db) w = (s1, cs1, w1)" by (metis prod_cases3)
  obtain s2 cs2 w2 where last: "flush_batch cs1 w1 = (s2, cs2, w2)" by (metis prod_cases3)
  let ?db2 = "set_level (set_level (cs_db cs2) l [] []) (Suc l) (cs_files cs2) (cs_readers cs2)"
  let ?old = "map number (Version_Level (db_version (cs_db cs2)) l) @
    map number (Version_Level (db_version (cs_db cs2)) (Suc l))"
  obtain s3 w3 where save: "Version_Save (db_version ?db2) (ManifestPath (db_path ?db2)) w2 = (s3, w3)" by fastforce
  have eq: "(s, db', w') =
     (if \<not> Status_ok s1 then (s1, cs_db cs1, w1)
      else if \<not> Status_ok s2 then (s2, cs_db cs2, w2)
      else if \<not> Status_ok s3 then (s3, ?db2, w3)
      else (Status_OK, ?db2, fold (\<lambda>n w. fremove (SSTablePath (db_path ?db2) n) w) ?old w3))"
    using compact l loop last save
    unfolding CompactLocked_def Let_def Suc_eq_plus1 [symmetric] compact_merge [OF ok l]
    by (simp add: compact_start_def split: if_splits)
  from L Ldef room loop last show thesis
  proof (cases rule: compact_output)
    case (loop_failed n)
    then show thesis using eq by (intro stopped [of n]) simp_all
  next
    case (last_failed n)
    then show thesis using eq by (intro stopped [of n]) simp_all
  next
    case (finished n outs)
    then have cdb: "cs_db cs2 = bumped db n" by (simp add: compact_inv_def)
    have db2: "db' = compact_installed db n l (cs_files cs2) (cs_readers cs2)" and path: "db_path ?db2 = db_path db"
      using eq finished by (auto simp: compact_installed_def cdb split: if_splits)
    have old: "set ?old = number ` (set (levels (db_version db) ! l) \<union> set (levels (db_version db) ! Suc l))"
      by (auto simp: cdb Version_Level_def)
    show thesis
    proof (rule installed [OF finished(3,4) db2])
      show "Version_Save (db_version db') (ManifestPath (db_path db)) w2 = (s3, w3)"
        using save path by (simp add: db2 compact_installed_def cdb)
      show "\<not> Status_ok s3 \<Longrightarrow> \<not> Status_ok s \<and> w' = w3" using eq finished by simp
      assume "Status_ok s3"
      then have "Status_ok s" "w' = fold (\<lambda>n w. fremove (SSTablePath (db_path db) n) w) ?old w3"
        using eq finished path by simp_all
      then show "Status_ok s \<and> changes_only (table_paths (db_path db)
         (number ` (set (levels (db_version db) ! l) \<union> set (levels (db_version db) ! Suc l)))) w3 w'"
        using fremove_tables_frame [of "db_path db" ?old w3] old by simp
    qed
  qed
qed

section \<open>A compaction keeps the view\<close>

lemma tables_lookup_split:
  "tables_lookup (A @ x # y # B) =
    table_lookup (concat (concat B)) ++ table_lookup (concat y) ++
    table_lookup (concat (if A = [] then rev x else x)) ++ (if A = [] then Map.empty else tables_lookup A)"
  by (cases A) (simp_all add: tables_lookup_concat)

lemma table_lookup_keep:
  assumes "sorted_wrt (<) (map e_key es)"
  shows "table_lookup (filter (compact_keep True) es) k =
    (case table_lookup es k of Some Tombstone \<Rightarrow> None | x \<Rightarrow> x)"
  using assms
proof (induction es)
  case (Cons e es)
  have none: "table_lookup es (e_key e) = None" using Cons.prems by (auto simp: table_lookup_None_iff)
  then have "table_lookup (filter (compact_keep True) es) (e_key e) = None"
    using none by (auto simp: table_lookup_None_iff)
  with Cons none show ?case by (auto simp: compact_keep_def entry_of_def)
qed simp

lemma compact_keep_False [simp]: "filter (compact_keep False) es = es"
  by (simp add: compact_keep_def)

lemma compact_run_lookup:
  assumes ok: "tables_ok tss" and l: "Suc l < kMaxLevels"
  shows "table_lookup (map snd (merged_of (concat (compact_inputs tss l)))) =
    table_lookup (concat (tss ! Suc l)) ++ table_lookup (concat (if l = 0 then rev (tss ! l) else tss ! l))"
proof -
  have len: "length tss = kMaxLevels" using ok by (simp add: tables_ok_def)
  have "sorted_wrt (<) (map e_key t)" if "t \<in> set (compact_inputs tss l)" for t
  proof -
    from that have "t \<in> set (tss ! l) \<union> set (tss ! Suc l)" by (auto simp: compact_inputs_def split: if_splits)
    then show ?thesis
      using ok l len by (auto simp: tables_ok_def list_all_length in_set_conv_nth table_ok_def)
  qed
  then have "table_lookup (map snd (merged_of (concat (compact_inputs tss l)))) =
      table_lookup (concat (rev (compact_inputs tss l)))"
    unfolding merged_list_lookup by (intro table_lookup_rev_concat) blast
  moreover have "list_all level_sorted (drop 1 tss)" using ok by (simp add: tables_ok_def)
  then have "level_sorted (tss ! Suc l)" using l len by (simp add: list_all_length)
  ultimately show ?thesis using level_sorted_rev [of "tss ! Suc l"] by (simp add: compact_inputs_def)
qed

lemma entry_view_layer:
  "(\<And>k. entry_view (L k) = entry_view (L' k)) \<Longrightarrow> entry_view ((L ++ U) k) = entry_view ((L' ++ U) k)"
  by (simp add: map_add_def split: option.splits)

lemma entry_view_keep: "entry_view (case x of Some Tombstone \<Rightarrow> None | y \<Rightarrow> y) = entry_view x"
  by (simp split: option.splits entry.splits)

lemma compact_view:
  assumes ok: "tables_ok tss" and l: "Suc l < kMaxLevels" and outs: "concat outs = compact_run tss l"
  shows "store_view mt (tss[l := [], Suc l := outs]) = store_view mt tss"
proof
  fix k
  have len: "Suc l < length tss" using ok l by (simp add: tables_ok_def)
  obtain A B where AB: "tss = A @ tss ! l # tss ! Suc l # B" "length A = l" using split_at_pair [OF len] by blast
  let ?low = "table_lookup (concat (concat B))" and ?U = "if A = [] then Map.empty else tables_lookup A"
  let ?M = "table_lookup (map snd (merged_of (concat (compact_inputs tss l))))"
  have new: "tss[l := [], Suc l := outs] = A @ [] # outs # B"
    by (subst AB(1)) (simp add: list_update_append AB(2))
  have lnew: "tables_lookup (tss[l := [], Suc l := outs]) = ?low ++ table_lookup (compact_run tss l) ++ ?U"
    unfolding new tables_lookup_split by (simp add: outs)
  have "tables_lookup (A @ tss ! l # tss ! Suc l # B) = ?low ++ ?M ++ ?U"
    unfolding tables_lookup_split compact_run_lookup [OF ok l] using AB(2) by auto
  then have lold: "tables_lookup tss = ?low ++ ?M ++ ?U" using AB(1) by simp
  have "entry_view ((?low ++ table_lookup (compact_run tss l)) k) = entry_view ((?low ++ ?M) k)" for k
  proof (cases "Suc l = kMaxLevels - 1")
    case True
    have "length tss = kMaxLevels" using ok by (simp add: tables_ok_def)
    then have "B = []"
      using True arg_cong [OF AB(1), of length] AB(2) by (simp add: kMaxLevels_def)
    then show ?thesis
      using True table_lookup_keep [OF merged_list_sorted]
      by (simp add: compact_run_def entry_view_keep)
  qed (simp add: compact_run_def)
  then show "store_view mt (tss[l := [], Suc l := outs]) k = store_view mt tss k"
    unfolding store_view_def store_lookup_def lnew lold by (intro entry_view_layer)
qed

lemma compact_total:
  assumes l: "Suc l < length tss" and outs: "concat outs = compact_run tss l"
  shows "total f (concat (concat (tss[l := [], Suc l := outs]))) \<le> total f (concat (concat tss))"
proof -
  obtain A B where AB: "tss = A @ tss ! l # tss ! Suc l # B" "length A = l" using split_at_pair [OF l] by blast
  have new: "tss[l := [], Suc l := outs] = A @ [] # outs # B"
    by (subst AB(1)) (simp add: list_update_append AB(2))
  have "total f (compact_run tss l) \<le> total f (concat (compact_inputs tss l))"
    using total_filter_le merged_list_total unfolding compact_run_def by (blast intro: order_trans)
  also have "\<dots> = total f (concat (tss ! l)) + total f (concat (tss ! Suc l))"
    by (simp add: compact_inputs_def total_concat_rev)
  finally have "total f (concat (concat (A @ [] # outs # B))) \<le>
      total f (concat (concat (A @ tss ! l # tss ! Suc l # B)))"
    by (simp add: outs)
  then show ?thesis using new AB(1) by simp
qed

section \<open>A compaction keeps the invariant\<close>

lemma tables_ok_compact:
  assumes ok: "tables_ok tss" and l: "Suc l < kMaxLevels" and "list_all table_ok outs" and "level_sorted outs"
  shows "tables_ok (tss[l := [], Suc l := outs])"
proof -
  have len: "length tss = kMaxLevels" using ok by (simp add: tables_ok_def)
  obtain A B where AB: "tss = A @ tss ! l # tss ! Suc l # B" "length A = l"
    using split_at_pair [of l tss] l len by auto
  have new: "tss[l := [], Suc l := outs] = A @ [] # outs # B"
    by (subst AB(1)) (simp add: list_update_append AB(2))
  have "tables_ok (A @ tss ! l # tss ! Suc l # B)" using ok AB(1) by simp
  then show ?thesis
    unfolding new using assms(3,4) by (cases A) (auto simp: tables_ok_def level_sorted_def)
qed

lemma version_for_compact:
  assumes v: "version_for v tss" and l: "Suc l < kMaxLevels"
    and outs: "list_all table_ok outs" "level_sorted outs" and meta: "list_all2 meta_for fs outs"
    and nums: "sorted_wrt (<) (map number fs)" "\<forall>fm\<in>set fs. next_file_number v \<le> number fm \<and> number fm < n"
    and n: "next_file_number v \<le> n"
  shows "version_for (v\<lparr>levels := (levels v)[l := [], Suc l := fs], next_file_number := n\<rparr>)
    (tss[l := [], Suc l := outs])"
proof -
  have lenl: "length (levels v) = kMaxLevels" using v by (rule version_for_length)
  obtain A B where AB: "levels v = A @ levels v ! l # levels v ! Suc l # B" "length A = l"
    using split_at_pair [of l "levels v"] l lenl by auto
  have new: "(levels v)[l := [], Suc l := fs] = A @ [] # fs # B"
    by (subst AB(1)) (simp add: list_update_append AB(2))
  have old: "set (version_numbers v) \<subseteq> {..<next_file_number v}" "distinct (version_numbers v)"
    using v by (auto simp: version_for_def)
  have nv: "version_numbers v = map number (concat A) @ map number (levels v ! l) @
      map number (levels v ! Suc l) @ map number (concat B)"
    unfolding version_numbers_def by (subst AB(1)) simp
  have "list_all2 (list_all2 meta_for) ((levels v)[l := [], Suc l := fs]) (tss[l := [], Suc l := outs])"
    using v meta by (intro list_all2_update_cong) (simp_all add: version_for_def)
  moreover have "distinct (map number (concat A) @ map number fs @ map number (concat B))"
    using old nums(2) sorted_less_distinct [OF nums(1)] unfolding nv by fastforce
  moreover have "\<forall>m\<in>set (map number (concat A) @ map number fs @ map number (concat B)). m < n"
    using old(1) nums(2) n unfolding nv by fastforce
  moreover have "sorted_wrt (<) (map number ((levels v)[l := [], Suc l := fs] ! 0))"
    using v l lenl by (cases l) (simp_all add: version_for_def nth_list_update)
  ultimately show ?thesis
    using tables_ok_compact [OF _ l outs, of tss] v
    by (simp add: version_for_def version_numbers_def new)
qed

lemma compact_outs_ok:
  assumes "compact_inv db w n cs w2 outs" and "run_ok L" and "concat outs = L"
  shows "list_all table_ok outs" "level_sorted outs" "map reader_entries (cs_readers cs) = outs"
    "list_all (\<lambda>r. reader_for r (reader_entries r)) (cs_readers cs)"
proof -
  have r: "list_all2 reader_for (cs_readers cs) outs" using assms(1) by (simp add: compact_inv_def)
  then show "map reader_entries (cs_readers cs) = outs"
    by (induction rule: list_all2_induct) (simp_all add: reader_entries_for)
  from r show "list_all table_ok outs"
    by (induction rule: list_all2_induct) (auto dest: reader_for_table_ok)
  from r show "list_all (\<lambda>r. reader_for r (reader_entries r)) (cs_readers cs)"
    by (induction rule: list_all2_induct) (auto dest: reader_entries_for)
  show "level_sorted outs" using assms(2,3) by (simp add: level_sorted_def run_ok_def)
qed

lemma list_all_update: "list_all P xs \<Longrightarrow> P x \<Longrightarrow> list_all P (xs[i := x])"
  by (auto simp: list_all_iff dest: set_update_subset_insert [THEN subsetD])

lemma compact_installed_simps [simp]:
  "db_path (compact_installed db n l fs rs) = db_path db"
  "db_options (compact_installed db n l fs rs) = db_options db"
  "db_memtable (compact_installed db n l fs rs) = db_memtable db"
  "db_wal (compact_installed db n l fs rs) = db_wal db"
  "db_closed (compact_installed db n l fs rs) = db_closed db"
  "db_readers (compact_installed db n l fs rs) = (db_readers db)[l := [], Suc l := rs]"
  "levels (db_version (compact_installed db n l fs rs)) = (levels (db_version db))[l := [], Suc l := fs]"
  "db_next (compact_installed db n l fs rs) = n"
  by (simp_all add: compact_installed_def)

lemma compact_installed_inv:
  assumes ok: "db_ok db" and l: "Suc l < kMaxLevels" and inv: "compact_inv db w n cs w2 outs"
    and run: "run_ok (compact_run (db_tables db) l)" and outs: "concat outs = compact_run (db_tables db) l"
  defines "db' \<equiv> compact_installed db n l (cs_files cs) (cs_readers cs)"
  shows "db_ok db'" "db_view db' = db_view db" "db_total f db' \<le> db_total f db"
    "db_tables db' = (db_tables db)[l := [], Suc l := outs]"
proof -
  note o = compact_outs_ok [OF inv run outs]
  show tabs: "db_tables db' = (db_tables db)[l := [], Suc l := outs]"
    using o(3) by (simp add: db'_def db_tables_def map_update)
  have v: "version_for (db_version db) (db_tables db)" using ok by (simp add: db_ok_def)
  then have tok: "tables_ok (db_tables db)" by (simp add: version_for_def)
  have "db_version db' = (db_version db)\<lparr>levels := (levels (db_version db))[l := [], Suc l := cs_files cs],
      next_file_number := n\<rparr>"
    by (simp add: db'_def compact_installed_def set_level_def bumped_def Version_SetLevel_def)
  then have "version_for (db_version db') (db_tables db')"
    unfolding tabs using inv o
    by (simp only:) (intro version_for_compact [OF v l], simp_all add: compact_inv_def numbers_taken_def)
  moreover have "list_all (list_all (\<lambda>r. reader_for r (reader_entries r))) (db_readers db')"
    using ok o(4) by (simp add: db'_def db_ok_def list_all_update)
  ultimately show "db_ok db'" using ok by (simp add: db_ok_def db'_def)
  show "db_view db' = db_view db"
    using compact_view [OF tok l outs] by (simp add: db_view_def tabs) (simp add: db'_def)
  have "Suc l < length (db_tables db)" using tok l by (simp add: tables_ok_def)
  from compact_total [OF this outs, of f] show "db_total f db' \<le> db_total f db"
    by (simp add: db_total_def store_entries_def tabs) (simp add: db'_def)
qed

lemma compact_run_length:
  assumes "db_ok db" and "Suc l < kMaxLevels"
  shows "length (compact_run (db_tables db) l) \<le> db_total (\<lambda>_. 1) db"
proof -
  have "Suc l < length (db_tables db)" using assms by (simp add: db_ok_def version_for_def tables_ok_def)
  from compact_run_total [OF this, of "\<lambda>_. 1"] show ?thesis
    unfolding total_count by (simp add: db_total_def store_entries_def total_count del: One_nat_def)
qed

lemma bumped_ok:
  assumes "db_ok db" and "db_next db \<le> n"
  shows "db_ok (bumped db n)" "db_view (bumped db n) = db_view db" "db_total f (bumped db n) = db_total f db"
  using assms version_for_next [of "db_version db" "db_tables db" "db_version (bumped db n)"]
  by (simp_all add: db_ok_def db_tables_def db_view_def db_total_def)

theorem CompactLocked_inv:
  assumes compact: "CompactLocked l db w = (s, db', w')" and ok: "db_ok db" and fits: "db_fits db"
    and room: "unat (db_next db) + db_total (\<lambda>_. 1) db + 1 < 2 ^ 64"
  shows "db_ok db'" "db_view db' = db_view db" "db_total f db' \<le> db_total f db"
    "unat (db_next db') \<le> unat (db_next db) + db_total (\<lambda>_. 1) db + 1"
    "db_options db' = db_options db" "db_path db' = db_path db" "db_closed db' = db_closed db"
    "db_memtable db' = db_memtable db" "db_wal db' = db_wal db"
proof -
  let ?Q = "db_ok db' \<and> db_view db' = db_view db \<and> db_total f db' \<le> db_total f db \<and>
    unat (db_next db') \<le> unat (db_next db) + db_total (\<lambda>_. 1) db + 1 \<and>
    db_options db' = db_options db \<and> db_path db' = db_path db \<and> db_closed db' = db_closed db \<and>
    db_memtable db' = db_memtable db \<and> db_wal db' = db_wal db"
  have ?Q
  proof (cases "Suc l < kMaxLevels")
    case False
    then show ?thesis using compact ok by (simp add: CompactLocked_def)
  next
    case l: True
    note len = compact_run_length [OF ok l]
    have room': "unat (db_next db) + length (compact_run (db_tables db) l) + 1 < 2 ^ 64"
      using room len by linarith
    from compact l ok fits room' show ?thesis
    proof (cases rule: CompactLocked_cases)
      case (stopped n)
      then show ?thesis using bumped_ok [OF ok, of n] len by (auto simp: numbers_taken_def)
    next
      case (installed n cs w2 outs s3 w3)
      have tok: "tables_ok (db_tables db)" using ok by (simp add: db_ok_def version_for_def)
      have "total entry_weight (concat (concat (db_tables db))) < addressable"
        using fits by (simp add: db_fits_def db_total_def store_entries_def)
      from compact_run_ok [OF tok l this] have run: "run_ok (compact_run (db_tables db) l)" .
      have "unat n \<le> unat (db_next db) + length outs"
        using installed(1) by (simp add: compact_inv_def numbers_taken_def)
      moreover have "length outs \<le> length (compact_run (db_tables db) l)"
        using compact_inv_length [OF installed(1)] installed(2) by simp
      ultimately show ?thesis
        using compact_installed_inv [OF ok l installed(1) run installed(2)] len by (auto simp: installed(3))
    qed
  qed
  then show "db_ok db'" "db_view db' = db_view db" "db_total f db' \<le> db_total f db"
    "unat (db_next db') \<le> unat (db_next db) + db_total (\<lambda>_. 1) db + 1"
    "db_options db' = db_options db" "db_path db' = db_path db" "db_closed db' = db_closed db"
    "db_memtable db' = db_memtable db" "db_wal db' = db_wal db"
    by blast+
qed

end
