(* ===== verification/DB_Ops.thy ===== *)
theory DB_Ops
  imports DB_Compact
begin

text \<open>
  The public operations. The compaction loop terminates when the level-0 trigger is positive, and never
  does on an empty database when it is not; writes then apply exactly the batch to the view, flushes
  and background turns leave it alone. A step relation puts client calls and background turns
  in any order, and the interface \<open>kv_store\<close> states what a client may rely on, with
  the engine as its implementation.
\<close>

section \<open>The compaction loop\<close>

text \<open>A level that is not empty counts twice what the next one does.\<close>

definition level_cost :: "nat \<Rightarrow> FileMetaData list \<Rightarrow> nat" where
  "level_cost l fs = (if fs = [] then 0 else 2 ^ (kMaxLevels - 1 - l))"

definition compact_measure :: "DB \<Rightarrow> nat" where
  "compact_measure db = (\<Sum>l<kMaxLevels. level_cost l (levels (db_version db) ! l))"

lemma sum_two:
  fixes f :: "nat \<Rightarrow> nat"
  assumes "Suc l < n"
  shows "(\<Sum>i<n. f i) = f l + f (Suc l) + (\<Sum>i\<in>{..<n} - {l, Suc l}. f i)"
  using assms by (simp add: sum.remove [of _ l] sum.remove [of _ "Suc l"] Diff_insert2 [symmetric] insert_commute)

lemma compact_measure_decreases:
  assumes l: "Suc l < kMaxLevels" and len: "length (levels (db_version db)) = kMaxLevels"
    and ne: "levels (db_version db) ! l \<noteq> []"
  shows "compact_measure (compact_installed db n l fs rs) < compact_measure db"
proof -
  let ?f = "\<lambda>l. level_cost l (levels (db_version db) ! l)"
  let ?g = "\<lambda>i. level_cost i ((levels (db_version db))[l := [], Suc l := fs] ! i)"
  have rest: "(\<Sum>i\<in>{..<kMaxLevels} - {l, Suc l}. ?g i) = (\<Sum>i\<in>{..<kMaxLevels} - {l, Suc l}. ?f i)"
    by (rule sum.cong) auto
  have "?g l = 0" using l len by (simp add: level_cost_def)
  moreover have "?g (Suc l) \<le> 2 ^ (kMaxLevels - 1 - Suc l)" by (simp add: level_cost_def)
  moreover have "?f l = 2 ^ (kMaxLevels - 1 - l)" using ne by (simp add: level_cost_def)
  moreover have "(2 :: nat) ^ (kMaxLevels - 1 - Suc l) < 2 ^ (kMaxLevels - 1 - l)"
    using l by (intro power_strict_increasing) auto
  ultimately show ?thesis
    unfolding compact_measure_def compact_installed_simps sum_two [OF l, of ?f] sum_two [OF l, of ?g] rest
    by linarith
qed

lemma compact_measure_le: "compact_measure db \<le> 63"
proof -
  have "compact_measure db \<le> (\<Sum>l<kMaxLevels. 2 ^ (kMaxLevels - 1 - l))"
    unfolding compact_measure_def by (rule sum_mono) (simp add: level_cost_def)
  also have "\<dots> = 63" by (simp add: kMaxLevels_def numeral_eq_Suc)
  finally show ?thesis .
qed

lemma NeedsCompaction_levels_Some:
  assumes "NeedsCompaction_levels db lvl n target = Some l"
  shows "lvl \<le> l \<and> l < lvl + n \<and> levels (db_version db) ! l \<noteq> []"
  using assms
proof (induction db lvl n target rule: NeedsCompaction_levels.induct)
  case (2 db lvl n target)
  then show ?case by (fastforce simp: Let_def Version_Level_def split: if_splits)
qed simp

lemma NeedsCompactionLocked_Some:
  assumes "NeedsCompactionLocked db = Some l" and "0 < l0_compaction_trigger (db_options db)"
  shows "Suc l < kMaxLevels" "levels (db_version db) ! l \<noteq> []"
  using assms NeedsCompaction_levels_Some [of db 1 "kMaxLevels - 2" "level1_target_bytes (db_options db)" l]
  by (auto simp: NeedsCompactionLocked_def Version_Level_def kMaxLevels_def split: if_splits)

definition db_count :: "DB \<Rightarrow> nat" where
  "db_count db = db_total (\<lambda>_. 1) db"

text \<open>Enough file numbers for every compaction the loop can make.\<close>

definition loop_room :: "DB \<Rightarrow> bool" where
  "loop_room db \<longleftrightarrow> unat (db_next db) + compact_measure db * (db_count db + 1) < 2 ^ 64"

lemma db_fits_mono: "db_fits db \<Longrightarrow> (\<And>f. db_total f db' \<le> db_total f db) \<Longrightarrow> db_fits db'"
  unfolding db_fits_def by (meson order_le_less_trans)

lemma CompactLocked_measure:
  assumes "CompactLocked l db w = (s, db', w')" and "db_ok db" and "db_fits db"
    and room: "unat (db_next db) + db_count db + 1 < 2 ^ 64"
    and l: "Suc l < kMaxLevels" and ne: "levels (db_version db) ! l \<noteq> []" and ok: "Status_ok s"
  shows "compact_measure db' < compact_measure db"
proof -
  have room': "unat (db_next db) + length (compact_run (db_tables db) l) + 1 < 2 ^ 64"
    using room compact_run_length [OF assms(2) l] by (simp add: db_count_def)
  from assms(1) l assms(2,3) room' show ?thesis
  proof (cases rule: CompactLocked_cases)
    case (installed n cs w2 outs s3 w3)
    then show ?thesis
      using compact_measure_decreases [OF l db_ok_length(2) [OF assms(2)] ne] by simp
  qed (use ok in simp)
qed

text \<open>Every turn takes at most one number per entry and one more.\<close>

lemma loop_numbers:
  assumes "compact_measure db' < compact_measure db" and "db_count db' \<le> db_count db"
  shows "compact_measure db' * (db_count db' + 1) + (db_count db + 1) \<le> compact_measure db * (db_count db + 1)"
proof -
  have "compact_measure db' * (db_count db' + 1) + (db_count db + 1) \<le>
      (compact_measure db' + 1) * (db_count db + 1)"
    using assms(2) by (simp add: mult_le_mono)
  also have "\<dots> \<le> compact_measure db * (db_count db + 1)"
    using assms(1) by (intro mult_right_mono) simp_all
  finally show ?thesis .
qed

lemma loop_room_step:
  assumes room: "loop_room db" and m: "compact_measure db' < compact_measure db"
    and c: "db_count db' \<le> db_count db" and n: "unat (db_next db') \<le> unat (db_next db) + db_count db + 1"
  shows "loop_room db'"
  using loop_numbers [OF m c] room n by (simp add: loop_room_def)

text \<open>What the loop leaves alone.\<close>

definition maintained :: "DB \<Rightarrow> DB \<Rightarrow> bool" where
  "maintained db db' \<longleftrightarrow> db_ok db' \<and> db_view db' = db_view db \<and> (\<forall>f. db_total f db' \<le> db_total f db) \<and>
     db_options db' = db_options db \<and> db_path db' = db_path db \<and> db_closed db' = db_closed db \<and>
     db_memtable db' = db_memtable db \<and> db_wal db' = db_wal db"

lemma maintained_refl: "db_ok db \<Longrightarrow> maintained db db"
  by (simp add: maintained_def)

lemma maintained_trans: "maintained db db' \<Longrightarrow> maintained db' db'' \<Longrightarrow> maintained db db''"
  unfolding maintained_def by (metis order_trans)

text \<open>One turn of the loop: it is maintenance, and when it succeeds the measure goes down.\<close>

lemma compaction_turn:
  assumes ok: "db_ok db" and fits: "db_fits db" and room: "loop_room db"
    and trigger: "0 < l0_compaction_trigger (db_options db)"
    and needs: "NeedsCompactionLocked db = Some l" and c: "CompactLocked l db w = (s1, db1, w1)"
  shows "unat (db_next db) + db_count db + 1 < 2 ^ 64" "maintained db db1" "db_fits db1"
    "Status_ok s1 \<Longrightarrow> compact_measure db1 < compact_measure db" "Status_ok s1 \<Longrightarrow> loop_room db1"
    "unat (db_next db1) \<le> unat (db_next db) + compact_measure db * (db_count db + 1)"
    "Status_ok s1 \<Longrightarrow> unat (db_next db1) + compact_measure db1 * (db_count db1 + 1) \<le>
      unat (db_next db) + compact_measure db * (db_count db + 1)"
proof -
  note l = NeedsCompactionLocked_Some [OF needs trigger]
  have "level_cost l (levels (db_version db) ! l) \<le> compact_measure db"
    unfolding compact_measure_def using l(1) by (intro member_le_sum) auto
  moreover have "1 \<le> level_cost l (levels (db_version db) ! l)" using l(2) by (simp add: level_cost_def)
  ultimately have "1 \<le> compact_measure db" by linarith
  then have one: "1 * (db_count db + 1) \<le> compact_measure db * (db_count db + 1)" by (rule mult_right_mono) simp
  then show r: "unat (db_next db) + db_count db + 1 < 2 ^ 64" using room by (simp add: loop_room_def)
  note inv = CompactLocked_inv [OF c ok fits r [unfolded db_count_def]]
  show "maintained db db1" using inv by (simp add: maintained_def)
  show "db_fits db1" using fits inv(3) by (rule db_fits_mono)
  show m: "compact_measure db1 < compact_measure db" if "Status_ok s1"
    by (rule CompactLocked_measure [OF c ok fits r l that])
  show "loop_room db1" if "Status_ok s1"
    using loop_room_step [OF room m [OF that]] inv(3,4) by (simp add: db_count_def)
  have n: "unat (db_next db1) \<le> unat (db_next db) + db_count db + 1" using inv(4) by (simp add: db_count_def)
  then show "unat (db_next db1) \<le> unat (db_next db) + compact_measure db * (db_count db + 1)"
    by (rule order_trans) (use one in simp)
  show "unat (db_next db1) + compact_measure db1 * (db_count db1 + 1) \<le>
      unat (db_next db) + compact_measure db * (db_count db + 1)" if "Status_ok s1"
  proof -
    have c: "db_count db1 \<le> db_count db" using inv(3) by (simp add: db_count_def)
    have "unat (db_next db1) + compact_measure db1 * (db_count db1 + 1) \<le>
        unat (db_next db) + (compact_measure db1 * (db_count db1 + 1) + (db_count db + 1))" using n by simp
    also have "\<dots> \<le> unat (db_next db) + compact_measure db * (db_count db + 1)"
      using loop_numbers [OF m [OF that] c] by (rule add_left_mono)
    finally show ?thesis .
  qed
qed

theorem compaction_while_inv:
  assumes "db_ok db" and "db_fits db" and "loop_room db" and "0 < l0_compaction_trigger (db_options db)"
  shows "\<exists>s db' w'. compaction_while db w = Some (s, db', w') \<and> maintained db db' \<and>
    (Status_ok s \<longrightarrow> NeedsCompactionLocked db' = None) \<and>
    unat (db_next db') \<le> unat (db_next db) + compact_measure db * (db_count db + 1)"
  using assms
proof (induction "compact_measure db" arbitrary: db w rule: less_induct)
  case less
  show ?case
  proof (cases "NeedsCompactionLocked db")
    case None
    then show ?thesis using less.prems by (subst compaction_while.simps) (simp add: maintained_refl)
  next
    case (Some l)
    obtain s1 db1 w1 where c: "CompactLocked l db w = (s1, db1, w1)" by (metis prod_cases3)
    note turn = compaction_turn [OF less.prems Some c]
    show ?thesis
    proof (cases "Status_ok s1")
      case False
      then show ?thesis using Some c turn(2,6) by (subst compaction_while.simps) simp
    next
      case True
      have "\<exists>s db' w'. compaction_while db1 w1 = Some (s, db', w') \<and> maintained db1 db' \<and>
          (Status_ok s \<longrightarrow> NeedsCompactionLocked db' = None) \<and>
          unat (db_next db') \<le> unat (db_next db1) + compact_measure db1 * (db_count db1 + 1)"
        using turn(2,3) less.prems(4) by (intro less.hyps turn(4,5) [OF True]) (simp_all add: maintained_def)
      then show ?thesis
        using Some c turn(2,7) True by (subst compaction_while.simps) (fastforce intro: maintained_trans)
    qed
  qed
qed

lemma loop_roomI: "db_fits db \<Longrightarrow> unat (db_next db) \<le> 2 ^ 63 \<Longrightarrow> loop_room db"
proof -
  assume "db_fits db" and n: "unat (db_next db) \<le> 2 ^ 63"
  then have "db_count db + 1 \<le> 2 ^ 31" by (simp add: db_fits_def db_count_def)
  then have "compact_measure db * (db_count db + 1) \<le> 63 * 2 ^ 31"
    by (intro mult_le_mono compact_measure_le)
  with n show ?thesis by (simp add: loop_room_def)
qed

section \<open>Invariants through maintenance\<close>

text \<open>
  What a flush and a compaction keep, every maintenance pass keeps: the laws are about the two
  elementary steps and the flags of the background thread, the lemmas about the loops and the
  operations built from them.
\<close>

locale maintenance_invariant =
  fixes P :: "DB \<Rightarrow> world \<Rightarrow> bool"
  assumes flush: "FlushMemTableLocked db w = (s, db', w') \<Longrightarrow> db_ok db \<Longrightarrow> db_fits db \<Longrightarrow>
      unat (db_next db) + 1 < 2 ^ 64 \<Longrightarrow> P db w \<Longrightarrow> P db' w'"
    and compact: "CompactLocked l db w = (s, db', w') \<Longrightarrow> db_ok db \<Longrightarrow> db_fits db \<Longrightarrow>
      unat (db_next db) + db_count db + 1 < 2 ^ 64 \<Longrightarrow> P db w \<Longrightarrow> P db' w'"
    and flags: "P (db\<lparr>bg_work_requested := a\<rparr>) w = P db w" "P (db\<lparr>bg_idle := a\<rparr>) w = P db w"
      "P (db\<lparr>bg_running := a\<rparr>) w = P db w" "P (db\<lparr>shutting_down := a\<rparr>) w = P db w"
begin

text \<open>If moreover every compaction succeeds under the invariant, the loop does.\<close>

lemma through_compaction_loop:
  assumes "db_ok db" and "db_fits db" and "loop_room db" and "0 < l0_compaction_trigger (db_options db)"
    and "P db w" and "compaction_while db w = Some (s, db', w')"
  shows "P db' w' \<and> ((\<forall>l db w s db' w'. CompactLocked l db w = (s, db', w') \<longrightarrow> db_ok db \<longrightarrow> db_fits db \<longrightarrow>
    P db w \<longrightarrow> Status_ok s) \<longrightarrow> Status_ok s)"
  using assms
proof (induction "compact_measure db" arbitrary: db w rule: less_induct)
  case less
  show ?case
  proof (cases "NeedsCompactionLocked db")
    case None
    with less.prems(5,6) show ?thesis by (auto simp: compaction_while.simps)
  next
    case (Some l)
    obtain s1 db1 w1 where c: "CompactLocked l db w = (s1, db1, w1)" by (metis prod_cases3)
    note turn = compaction_turn [OF less.prems(1-4) Some c]
    have P1: "P db1 w1" using c less.prems(1,2) turn(1) less.prems(5) by (rule compact)
    show ?thesis
    proof (cases "Status_ok s1")
      case False
      then have "s = s1 \<and> db' = db1 \<and> w' = w1" using Some c less.prems(6) by (simp add: compaction_while.simps [of db])
      then show ?thesis using P1 c less.prems(1,2,5) by blast
    next
      case True
      then have "compaction_while db1 w1 = Some (s, db', w')"
        using Some c less.prems(6) by (simp add: compaction_while.simps [of db])
      then show ?thesis
        using turn(2,3) less.prems(4) by (rule_tac less.hyps [OF turn(4) [OF True] _ _ turn(5) [OF True] _ P1])
          (simp_all add: maintained_def)
    qed
  qed
qed

lemmas through_compaction_while = through_compaction_loop [THEN conjunct1]

end

section \<open>A trigger that is not positive\<close>

lemma newest_first_Nil [simp]: "newest_first [] = []"
  by (simp add: newest_first_def)

lemma compact_empty_calm:
  assumes "calm w" and "Version_Level (db_version db) 0 = []" "Version_Level (db_version db) 1 = []"
    "db_readers db ! 0 = []" "db_readers db ! 1 = []"
    "length (levels (db_version db)) = kMaxLevels" "length (db_readers db) = kMaxLevels"
  shows "\<exists>w'. CompactLocked 0 db w = (Status_OK, db, w') \<and> calm w'"
proof -
  have lists: "(levels (db_version db))[0 := [], Suc 0 := []] = levels (db_version db)"
    "(db_readers db)[0 := [], Suc 0 := []] = db_readers db"
    using assms by (simp_all add: Version_Level_def) (metis list_update_id)+
  then have "set_level (set_level db 0 [] []) (Suc 0) [] [] = db"
    by (simp add: set_level_def Version_SetLevel_def)
  moreover obtain w' where "Version_Save (db_version db) (ManifestPath (db_path db)) w = (Status_OK, w')" "calm w'"
    using Version_Save_calm [OF assms(1)] by blast
  ultimately show ?thesis
    using assms by (auto simp: CompactLocked_def flush_batch_def kMaxLevels_def)
qed

text \<open>Level 0 and level 1 hold nothing.\<close>

definition top_levels_empty :: "DB \<Rightarrow> bool" where
  "top_levels_empty db \<longleftrightarrow> Version_Level (db_version db) 0 = [] \<and> Version_Level (db_version db) 1 = [] \<and>
     db_readers db ! 0 = [] \<and> db_readers db ! 1 = [] \<and>
     length (levels (db_version db)) = kMaxLevels \<and> length (db_readers db) = kMaxLevels"

lemma compaction_while_diverges:
  assumes "l0_compaction_trigger (db_options db) \<le> 0" and "calm w" and "top_levels_empty db"
  shows "compaction_while db w = None"
proof -
  have "\<not> (l0_compaction_trigger (db_options db) \<le> 0 \<and> calm w \<and> top_levels_empty db)"
    if "compaction_while db w = Some y" for y
  proof (rule compaction_while.raw_induct [OF _ that, where P = "\<lambda>db w y.
      \<not> (l0_compaction_trigger (db_options db) \<le> 0 \<and> calm w \<and> top_levels_empty db)"])
    fix cw db w y
    assume IH: "\<And>db w y. cw db w = Some y \<Longrightarrow>
        \<not> (l0_compaction_trigger (db_options db) \<le> 0 \<and> calm w \<and> top_levels_empty db)"
      and body: "(case NeedsCompactionLocked db of None \<Rightarrow> Some (Status_OK, db, w)
        | Some level \<Rightarrow> (case CompactLocked level db w of (s, db', w') \<Rightarrow>
            if \<not> Status_ok s then Some (s, db', w') else cw db' w')) = Some y"
    show "\<not> (l0_compaction_trigger (db_options db) \<le> 0 \<and> calm w \<and> top_levels_empty db)"
    proof
      assume *: "l0_compaction_trigger (db_options db) \<le> 0 \<and> calm w \<and> top_levels_empty db"
      then obtain w' where "CompactLocked 0 db w = (Status_OK, db, w')" "calm w'"
        using compact_empty_calm [of w db] by (auto simp: top_levels_empty_def)
      moreover have "NeedsCompactionLocked db = Some 0"
        using * by (simp add: NeedsCompactionLocked_def top_levels_empty_def)
      ultimately have "cw db w' = Some y" using body by simp
      from IH [OF this] \<open>calm w'\<close> * show False by blast
    qed
  qed
  with assms show ?thesis by (cases "compaction_while db w") auto
qed

section \<open>Writes\<close>

text \<open>The abstract effect of a batch on a key/value map.\<close>

fun op_view :: "batch_op \<Rightarrow> (bytes \<rightharpoonup> bytes) \<Rightarrow> bytes \<rightharpoonup> bytes" where
  "op_view (OpPut k v) V = V(k \<mapsto> v)"
| "op_view (OpDelete k) V = V(k := None)"

definition ops_view :: "batch_op list \<Rightarrow> (bytes \<rightharpoonup> bytes) \<Rightarrow> bytes \<rightharpoonup> bytes" where
  "ops_view ops V = fold op_view ops V"

lemma store_view_apply: "store_view (mem_apply ops mt) tss = ops_view ops (store_view mt tss)"
proof (induction ops arbitrary: mt)
  case (Cons op ops)
  have "store_view (handle_op MemTable_Put MemTable_Delete op mt) tss = op_view op (store_view mt tss)"
    by (cases op) (auto simp: store_view_def store_lookup_def fun_eq_iff map_add_def mem_lookup_Put mem_lookup_Delete)
  with Cons show ?case by (simp add: ops_view_def)
qed (simp add: ops_view_def)

lemma entries_ok_assign:
  assumes "list_all entry_ok (map flush_entry m)" and "entry_ok (flush_entry (k, mv))"
  shows "list_all entry_ok (map flush_entry (map_assign k mv m))"
  using assms set_map_assign_subset [of k mv m] by (auto simp: list_all_iff)

lemma mem_ok_apply [inv_intros]:
  "mem_ok mt \<Longrightarrow> list_all op_ok ops \<Longrightarrow> mem_ok (mem_apply ops mt)"
proof (induction ops arbitrary: mt)
  case (Cons op ops)
  have "mem_ok (handle_op MemTable_Put MemTable_Delete op mt)"
    using Cons.prems
    by (cases op)
      (auto simp: mem_ok_def memtable_entries_of_def MemTable_ok_Put MemTable_ok_Delete MemTable_Put_def
        MemTable_Delete_def flush_entry_def entry_ok_def lps_ok_def
        intro!: entries_ok_assign MemTable_ok_Put [unfolded MemTable_Put_def]
          MemTable_ok_Delete [unfolded MemTable_Delete_def])
  with Cons show ?case by simp
qed simp

lemma db_ok_memtable: "db_ok db \<Longrightarrow> mem_ok mt \<Longrightarrow> db_ok (db\<lparr>db_memtable := mt\<rparr>)"
  by (simp add: db_ok_def)

text \<open>A batch built through \<open>Put\<close> and \<open>Delete\<close> whose serialised form is below 4 GiB.\<close>

definition batch_ok :: "batch_op list \<Rightarrow> bool" where
  "batch_ok ops \<longleftrightarrow> list_all op_ok ops \<and> ops \<noteq> [] \<and> length ops < 2 ^ 32 \<and> wal_ok (rep (batch_of ops))"

text \<open>The database with the batch in its memtable.\<close>

definition applied :: "batch_op list \<Rightarrow> DB \<Rightarrow> DB" where
  "applied ops db = db\<lparr>db_memtable := mem_apply ops (db_memtable db)\<rparr>"

lemma applied_simps [simp]:
  "db_path (applied ops db) = db_path db" "db_options (applied ops db) = db_options db"
  "db_version (applied ops db) = db_version db" "db_wal (applied ops db) = db_wal db"
  "db_closed (applied ops db) = db_closed db" "db_tables (applied ops db) = db_tables db"
  by (simp_all add: applied_def)

lemma applied_ok: "db_ok db \<Longrightarrow> batch_ok ops \<Longrightarrow> db_ok (applied ops db)"
  by (simp add: applied_def batch_ok_def db_ok_memtable mem_ok_apply db_ok_def)

lemma applied_view: "db_view (applied ops db) = ops_view ops (db_view db)"
  by (simp add: db_view_def store_view_apply) (simp add: applied_def store_view_apply)

lemma ApplyBatchLocked_ok:
  "batch_ok ops \<Longrightarrow> ApplyBatchLocked (batch_of ops) db = (Status_OK, applied ops db)"
  by (simp add: ApplyBatchLocked_def batch_ok_def Iterate_batch_of applied_def)

text \<open>Room for the data and for the file numbers of one more operation.\<close>

definition capacity :: "DB \<Rightarrow> bool" where
  "capacity db \<longleftrightarrow> db_fits db \<and> unat (db_next db) < 2 ^ 63"

text \<open>What a maintenance pass (a flush, compactions or both) leaves alone, whatever fails.\<close>

definition same_store :: "DB \<Rightarrow> DB \<Rightarrow> bool" where
  "same_store db db' \<longleftrightarrow> db_ok db' \<and> db_view db' = db_view db \<and> db_options db' = db_options db \<and>
     db_path db' = db_path db \<and> db_closed db' = db_closed db"

lemma flush_then_compact:
  assumes ok: "db_ok db" and cap: "capacity db" and trigger: "0 < l0_compaction_trigger (db_options db)"
  shows "\<exists>s db' w'. DB_Flush db w = Some (s, db', w') \<and> same_store db db'"
proof -
  obtain s1 db1 w1 where fl: "FlushMemTableLocked db w = (s1, db1, w1)" by (metis prod_cases3)
  have fits: "db_fits db" and n: "unat (db_next db) < 2 ^ 63" using cap by (simp_all add: capacity_def)
  then have room: "unat (db_next db) + 1 < 2 ^ 64" by simp
  note inv = FlushMemTableLocked_inv [OF fl ok fits room]
  show ?thesis
  proof (cases "Status_ok s1")
    case False
    then show ?thesis using fl inv by (simp add: DB_Flush_def same_store_def)
  next
    case True
    have fits1: "db_fits db1" using fits inv(3) [OF True] by (simp add: db_fits_def)
    have "unat (db_next db1) \<le> 2 ^ 63" using inv(4) n by linarith
    from compaction_while_inv [OF inv(1) fits1 loop_roomI [OF fits1 this]] inv(5) trigger
    obtain s db' w' where "compaction_while db1 w1 = Some (s, db', w')" "maintained db1 db'" by metis
    then show ?thesis using fl True inv by (auto simp: DB_Flush_def same_store_def maintained_def)
  qed
qed

lemma MaybeFlush_total:
  assumes ok: "db_ok db" and cap: "capacity db" and trigger: "0 < l0_compaction_trigger (db_options db)"
  shows "\<exists>s db' w'. MaybeFlushLocked db w = Some (s, db', w') \<and> same_store db db'"
proof (cases "MemTable_ApproximateBytes (db_memtable db) \<ge> memtable_flush_bytes (db_options db)")
  case True
  then have "MaybeFlushLocked db w = DB_Flush db w" by (simp add: MaybeFlushLocked_def DB_Flush_def)
  then show ?thesis using flush_then_compact [OF assms] by simp
next
  case False
  have fits: "db_fits db" and n: "unat (db_next db) \<le> 2 ^ 63" using cap by (simp_all add: capacity_def)
  from compaction_while_inv [OF ok fits loop_roomI [OF fits n] trigger]
  obtain s db' w' where "compaction_while db w = Some (s, db', w')" "maintained db db'" by metis
  with False show ?thesis by (auto simp: MaybeFlushLocked_def same_store_def maintained_def)
qed

lemma batch_not_empty: "batch_ok ops \<Longrightarrow> \<not> WriteBatch_is_empty (batch_of ops)"
proof -
  assume "batch_ok ops"
  then have "0 < length ops" "length ops < 2 ^ 64" by (simp_all add: batch_ok_def)
  then have "unat (of_nat (length ops) :: u64) \<noteq> 0" by simp
  then show ?thesis by (auto simp: WriteBatch_is_empty_def count_batch_of)
qed

text \<open>
  A write returns; if the log refused the record nothing has changed, otherwise the
  batch is applied, even when the maintenance that follows reports an error.
\<close>

theorem DB_Write_cases:
  assumes ok: "db_ok db" and open_db: "\<not> db_closed db" and ops: "batch_ok ops"
    and cap: "capacity (applied ops db)"
    and trigger: "background_compaction (db_options db) \<or> 0 < l0_compaction_trigger (db_options db)"
    and log: "WriteAheadLog_AddRecord (db_wal db) (rep (batch_of ops)) (sync opts \<or> sync_writes (db_options db)) w = (s1, w1)"
  obtains (refused) "\<not> Status_ok s1" "DB_Write opts (batch_of ops) db w = Some (s1, db, w1)"
    | (accepted) s db' w' where "Status_ok s1" "DB_Write opts (batch_of ops) db w = Some (s, db', w')"
        "same_store (applied ops db) db'"
proof (cases "Status_ok s1")
  case False
  then show thesis
    using open_db log batch_not_empty [OF ops] by (intro refused) (simp_all add: DB_Write_def)
next
  case True
  note aok = applied_ok [OF ok ops]
  have eq: "DB_Write opts (batch_of ops) db w =
    (if background_compaction (db_options db)
     then Some (Status_OK, (applied ops db)\<lparr>bg_work_requested := True, bg_idle := False\<rparr>, w1)
     else MaybeFlushLocked (applied ops db) w1)"
    using open_db log batch_not_empty [OF ops] True by (simp add: DB_Write_def ApplyBatchLocked_ok [OF ops])
  show thesis
  proof (cases "background_compaction (db_options db)")
    case bg: True
    then show thesis
      using eq aok True
      by (intro accepted [of Status_OK "(applied ops db)\<lparr>bg_work_requested := True, bg_idle := False\<rparr>" w1])
        (simp_all add: same_store_def)
  next
    case fg: False
    then have "0 < l0_compaction_trigger (db_options (applied ops db))" using trigger by simp
    from MaybeFlush_total [OF aok cap this, of w1] obtain s db' w'
      where "MaybeFlushLocked (applied ops db) w1 = Some (s, db', w')" "same_store (applied ops db) db'" by blast
    with fg eq True show thesis by (intro accepted) simp_all
  qed
qed

lemma Background_total:
  assumes ok: "db_ok db" and cap: "capacity db" and trigger: "0 < l0_compaction_trigger (db_options db)"
  shows "\<exists>db' w'. BackgroundLoop_turn db w = Some (db', w') \<and> same_store db db'"
proof (cases "shutting_down db")
  case True
  then show ?thesis using ok by (simp add: BackgroundLoop_turn_def same_store_def)
next
  case False
  let ?db = "db\<lparr>bg_work_requested := False\<rparr>"
  have "capacity ?db" using cap by (simp add: capacity_def db_fits_def db_total_def db_tables_def)
  moreover have "db_ok ?db" using ok by simp
  ultimately obtain s db' w' where fl: "DB_Flush ?db w = Some (s, db', w')" and same: "same_store ?db db'"
    using flush_then_compact [of ?db w] trigger by auto
  then have "BackgroundLoop_turn db w = Some (db'\<lparr>bg_idle := True\<rparr>, w')"
    using False by (auto simp: DB_Flush_def BackgroundLoop_turn_def split: prod.splits if_splits)
  then show ?thesis using same by (simp add: same_store_def)
qed

context maintenance_invariant
begin

lemma through_flush:
  assumes ok: "db_ok db" and cap: "capacity db" and trigger: "0 < l0_compaction_trigger (db_options db)"
    and P: "P db w" and f: "DB_Flush db w = Some (s, db', w')"
  shows "P db' w'"
proof -
  obtain s1 db1 w1 where fl: "FlushMemTableLocked db w = (s1, db1, w1)" by (metis prod_cases3)
  have fits: "db_fits db" and n: "unat (db_next db) < 2 ^ 63" using cap by (simp_all add: capacity_def)
  then have room: "unat (db_next db) + 1 < 2 ^ 64" by simp
  note inv = FlushMemTableLocked_inv [OF fl ok fits room]
  have P1: "P db1 w1" using fl ok fits room P by (rule flush)
  show ?thesis
  proof (cases "Status_ok s1")
    case True
    have fits1: "db_fits db1" using fits inv(3) [OF True] by (simp add: db_fits_def)
    have "unat (db_next db1) \<le> 2 ^ 63" using inv(4) n by linarith
    with fl True f inv(5) trigger show ?thesis
      by (intro through_compaction_while [OF inv(1) fits1 loop_roomI [OF fits1] _ P1]) (simp_all add: DB_Flush_def)
  qed (use fl f P1 in \<open>simp add: DB_Flush_def\<close>)
qed

lemma through_MaybeFlush:
  assumes ok: "db_ok db" and cap: "capacity db" and trigger: "0 < l0_compaction_trigger (db_options db)"
    and P: "P db w" and f: "MaybeFlushLocked db w = Some (s, db', w')"
  shows "P db' w'"
proof (cases "MemTable_ApproximateBytes (db_memtable db) \<ge> memtable_flush_bytes (db_options db)")
  case True
  then have "DB_Flush db w = Some (s, db', w')" using f by (simp add: MaybeFlushLocked_def DB_Flush_def)
  then show ?thesis by (rule through_flush [OF ok cap trigger P])
next
  case False
  have fits: "db_fits db" and n: "unat (db_next db) \<le> 2 ^ 63" using cap by (simp_all add: capacity_def)
  from False f have "compaction_while db w = Some (s, db', w')" by (simp add: MaybeFlushLocked_def)
  then show ?thesis by (rule through_compaction_while [OF ok fits loop_roomI [OF fits n] trigger P])
qed

lemma through_background:
  assumes ok: "db_ok db" and cap: "capacity db" and trigger: "0 < l0_compaction_trigger (db_options db)"
    and P: "P db w" and b: "BackgroundLoop_turn db w = Some (db', w')"
  shows "P db' w'"
proof (cases "shutting_down db")
  case True
  then show ?thesis using b P by (auto simp: BackgroundLoop_turn_def flags)
next
  case False
  let ?db = "db\<lparr>bg_work_requested := False\<rparr>"
  have "BackgroundLoop_turn db w = map_option (\<lambda>(s, db2, w2). (db2\<lparr>bg_idle := True\<rparr>, w2)) (DB_Flush ?db w)"
    using False by (simp add: BackgroundLoop_turn_def DB_Flush_def split: prod.split)
  then obtain s db1 where fl: "DB_Flush ?db w = Some (s, db1, w')" and db': "db' = db1\<lparr>bg_idle := True\<rparr>"
    using b by (cases "DB_Flush ?db w") auto
  have "capacity ?db" using cap by (simp add: capacity_def db_fits_def db_total_def db_tables_def)
  then have "P db1 w'"
    using fl ok trigger P by (rule_tac through_flush [of ?db w s]) (simp_all add: flags)
  then show ?thesis by (simp add: db' flags)
qed

end

section \<open>Close\<close>

lemma Close_begin_same: "db_ok db \<Longrightarrow> same_store db (DB_Close_begin db)"
  by (simp add: same_store_def DB_Close_begin_def)

lemma capacity_flags [simp]: "capacity (DB_Close_begin db) = capacity db" "capacity (db\<lparr>bg_running := b\<rparr>) = capacity db"
  by (simp_all add: DB_Close_begin_def capacity_def db_fits_def db_total_def db_tables_def)

lemma DB_Close_finish_inv:
  assumes "DB_Close_finish db w = (s, db', w')" and ok: "db_ok db" and cap: "capacity db"
  shows "db_ok db'" "db_view db' = db_view db" "db_closed db'"
proof -
  let ?db = "db\<lparr>bg_running := False\<rparr>"
  obtain s1 db1 w1 where fl: "FlushMemTableLocked ?db w = (s1, db1, w1)" by (metis prod_cases3)
  have "db_fits ?db" "unat (db_next ?db) + 1 < 2 ^ 64" "db_ok ?db"
    using cap ok by (simp_all add: capacity_def db_fits_def db_total_def db_tables_def)
  note inv = FlushMemTableLocked_inv [OF fl this(3,1,2)]
  show "db_ok db'" "db_view db' = db_view db" "db_closed db'"
    using assms fl inv by (auto simp: DB_Close_finish_def Let_def split: if_splits prod.splits)
qed

lemma DB_Close_inv:
  assumes "DB_Close db w = (s, db', w')" and "db_ok db" and "capacity db"
  shows "db_ok db'" "db_view db' = db_view db" "db_closed db'"
  using assms DB_Close_finish_inv [of "DB_Close_begin db" w s db' w'] Close_begin_same [of db]
  by (auto simp: DB_Close_def same_store_def split: if_splits)

section \<open>Interleavings\<close>

text \<open>
  Client calls and turns of the background thread in any order; the mutex makes each of them
  one step. \<open>Close\<close> gives up the mutex while it waits for the thread, so its first part is a step of its own
  (\<open>EvClosing\<close>), after which other clients may still write until the second part runs. The capacity premises say that the data stays within the sizes of the file formats.
\<close>

datatype db_event = EvWrite "batch_op list" Status | EvFlush Status | EvBackground | EvClosing

inductive db_step :: "DB \<times> world \<Rightarrow> db_event \<Rightarrow> DB \<times> world \<Rightarrow> bool" where
  step_write: "batch_ok ops \<Longrightarrow> capacity (applied ops db) \<Longrightarrow>
    DB_Write opts (batch_of ops) db w = Some (s, db', w') \<Longrightarrow>
    db_step (db, w) (EvWrite ops s) (db', w')"
| step_flush: "capacity db \<Longrightarrow> DB_Flush db w = Some (s, db', w') \<Longrightarrow>
    db_step (db, w) (EvFlush s) (db', w')"
| step_background: "capacity db \<Longrightarrow> BackgroundLoop_awake db \<Longrightarrow>
    BackgroundLoop_turn db w = Some (db', w') \<Longrightarrow> db_step (db, w) EvBackground (db', w')"
| step_closing: "\<not> db_closed db \<Longrightarrow> db_step (db, w) EvClosing (DB_Close_begin db, w)"

inductive_cases db_step_writeE: "db_step st (EvWrite ops s) st'"
inductive_cases db_step_flushE: "db_step st (EvFlush s) st'"
inductive_cases db_step_backgroundE: "db_step st EvBackground st'"

inductive db_run :: "DB \<times> world \<Rightarrow> db_event list \<Rightarrow> DB \<times> world \<Rightarrow> bool" where
  run_nil: "db_run st [] st"
| run_step: "db_step st ev st' \<Longrightarrow> db_run st' evs st'' \<Longrightarrow> db_run st (ev # evs) st''"

text \<open>The views an event may lead to: a write that reports an error may have been applied.\<close>

fun event_views :: "db_event \<Rightarrow> (bytes \<rightharpoonup> bytes) \<Rightarrow> (bytes \<rightharpoonup> bytes) set" where
  "event_views (EvWrite ops s) V = (if Status_ok s then {ops_view ops V} else {V, ops_view ops V})"
| "event_views (EvFlush s) V = {V}"
| "event_views EvBackground V = {V}"
| "event_views EvClosing V = {V}"

fun run_views :: "db_event list \<Rightarrow> (bytes \<rightharpoonup> bytes) \<Rightarrow> (bytes \<rightharpoonup> bytes) set" where
  "run_views [] V = {V}"
| "run_views (ev # evs) V = (\<Union>V' \<in> event_views ev V. run_views evs V')"

definition serving :: "DB \<Rightarrow> bool" where
  "serving db \<longleftrightarrow> db_ok db \<and> \<not> db_closed db \<and> 0 < l0_compaction_trigger (db_options db)"

lemma serving_same: "serving db \<Longrightarrow> same_store db db' \<Longrightarrow> serving db'"
  by (simp add: serving_def same_store_def)

lemma DB_Write_step:
  assumes "serving db" and "batch_ok ops" and "capacity (applied ops db)"
    and w: "DB_Write opts (batch_of ops) db w = Some (s, db', w')"
  shows "serving db' \<and> db_view db' \<in> event_views (EvWrite ops s) (db_view db)"
proof -
  have serv: "db_ok db" "\<not> db_closed db"
    "background_compaction (db_options db) \<or> 0 < l0_compaction_trigger (db_options db)"
    using assms(1) by (simp_all add: serving_def)
  have aserv: "serving (applied ops db)" using assms(1,2) by (simp add: serving_def applied_ok)
  obtain s1 w1 where log: "WriteAheadLog_AddRecord (db_wal db) (rep (batch_of ops))
      (sync opts \<or> sync_writes (db_options db)) w = (s1, w1)" by fastforce
  from serv(1,2) assms(2,3) serv(3) log show ?thesis
  proof (cases rule: DB_Write_cases)
    case refused
    then show ?thesis using assms(1) w by simp
  next
    case (accepted s2 db2 w2)
    then have "serving db'" "db_view db' = ops_view ops (db_view db)"
      using w serving_same [OF aserv] by (simp_all add: same_store_def applied_view)
    then show ?thesis by simp
  qed
qed

theorem db_step_inv:
  assumes "db_step st ev st'" and "serving (fst st)"
  shows "serving (fst st') \<and> db_view (fst st') \<in> event_views ev (db_view (fst st))"
  using assms
proof (cases rule: db_step.cases)
  case (step_write ops db opts w s db' w')
  then show ?thesis using DB_Write_step assms(2) by simp
next
  case (step_flush db w s db' w')
  then have "\<exists>s db' w'. DB_Flush db w = Some (s, db', w') \<and> same_store db db'"
    using assms(2) by (intro flush_then_compact) (simp_all add: serving_def)
  then show ?thesis using step_flush assms(2) serving_same [of db db'] by (auto simp: same_store_def)
next
  case (step_background db w db' w')
  then have "\<exists>db' w'. BackgroundLoop_turn db w = Some (db', w') \<and> same_store db db'"
    using assms(2) by (intro Background_total) (simp_all add: serving_def)
  then show ?thesis using step_background assms(2) serving_same [of db db'] by (auto simp: same_store_def)
next
  case (step_closing db w)
  then show ?thesis using assms(2) Close_begin_same [of db] serving_same [of db "DB_Close_begin db"]
    by (simp add: serving_def same_store_def)
qed

lemma db_run_inv:
  "db_run st evs st' \<Longrightarrow> serving (fst st) \<Longrightarrow>
    serving (fst st') \<and> db_view (fst st') \<in> run_views evs (db_view (fst st))"
proof (induction rule: db_run.induct)
  case (run_step st ev st' evs st'')
  then show ?case using db_step_inv [OF run_step.hyps(1)] by auto
qed simp

section \<open>What a client may rely on\<close>

text \<open>
  A store whose successful writes take effect as a whole and whose maintenance is invisible.
  The operations are relations, because the engine's also depend on the world.
\<close>

locale kv_store =
  fixes invar :: "'s \<Rightarrow> bool"
    and view :: "'s \<Rightarrow> bytes \<rightharpoonup> bytes"
    and commit :: "batch_op list \<Rightarrow> 's \<Rightarrow> 's \<Rightarrow> bool"
    and maintain :: "'s \<Rightarrow> 's \<Rightarrow> bool"
    and get :: "'s \<Rightarrow> bytes \<Rightarrow> bytes option"
    and scan :: "'s \<Rightarrow> (bytes \<times> bytes) list"
  assumes commit_invar: "invar s \<Longrightarrow> commit ops s s' \<Longrightarrow> invar s'"
    and commit_view: "invar s \<Longrightarrow> commit ops s s' \<Longrightarrow> view s' = ops_view ops (view s)"
    and maintain_invar: "invar s \<Longrightarrow> maintain s s' \<Longrightarrow> invar s'"
    and maintain_view: "invar s \<Longrightarrow> maintain s s' \<Longrightarrow> view s' = view s"
    and get_view: "invar s \<Longrightarrow> get s k = view s k"
    and scan_sorted: "invar s \<Longrightarrow> sorted_wrt (<) (map fst (scan s))"
    and scan_view: "invar s \<Longrightarrow> map_of (scan s) = view s"
begin

lemma maintains: "maintain\<^sup>*\<^sup>* s s' \<Longrightarrow> invar s \<Longrightarrow> invar s' \<and> view s' = view s"
  by (induction rule: rtranclp_induct) (auto simp: maintain_invar maintain_view)

text \<open>A committed batch is visible as a whole until the next write, whatever is maintained in between.\<close>

lemma commit_visible:
  assumes "invar s" and "commit ops s s'" and "maintain\<^sup>*\<^sup>* s' s''"
  shows "get s'' k = ops_view ops (get s) k"
proof -
  have "get s = view s" using assms(1) by (simp add: fun_eq_iff get_view)
  then show ?thesis
    using maintains [OF assms(3)] commit_invar [OF assms(1,2)] commit_view [OF assms(1,2)] get_view [of s'' k]
    by simp
qed

lemma scan_get:
  assumes "invar s"
  shows "(k, v) \<in> set (scan s) \<longleftrightarrow> get s k = Some v"
  using assms sorted_less_distinct [OF scan_sorted [OF assms]] scan_view [OF assms, symmetric]
  by (simp add: get_view)

end

definition db_commit :: "batch_op list \<Rightarrow> DB \<times> world \<Rightarrow> DB \<times> world \<Rightarrow> bool" where
  "db_commit ops st st' \<longleftrightarrow> db_step st (EvWrite ops Status_OK) st'"

definition db_maintain :: "DB \<times> world \<Rightarrow> DB \<times> world \<Rightarrow> bool" where
  "db_maintain st st' \<longleftrightarrow> (\<exists>s. db_step st (EvFlush s) st') \<or> db_step st EvBackground st' \<or> db_step st EvClosing st'"

definition db_get :: "DB \<times> world \<Rightarrow> bytes \<Rightarrow> bytes option" where
  "db_get st k =
     (case DB_Get \<lparr>verify_checksums = True\<rparr> k [] (fst st) of (s, v) \<Rightarrow> if Status_ok s then Some v else None)"

definition db_scan :: "DB \<times> world \<Rightarrow> (bytes \<times> bytes) list" where
  "db_scan st = Iterator_scan (DB_NewIterator (fst st))"

interpretation db_store: kv_store "\<lambda>st. serving (fst st)" "\<lambda>st. db_view (fst st)" db_commit db_maintain db_get db_scan
proof
  fix st st' :: "DB \<times> world" and ops k
  assume inv: "serving (fst st)"
  show "serving (fst st')" "db_view (fst st') = ops_view ops (db_view (fst st))" if "db_commit ops st st'"
    using db_step_inv [OF that [unfolded db_commit_def] inv] by simp_all
  show "serving (fst st')" "db_view (fst st') = db_view (fst st)" if "db_maintain st st'"
    using that db_step_inv [OF _ inv] unfolding db_maintain_def by fastforce+
  show "db_get st k = db_view (fst st) k"
    using inv by (simp add: db_get_def serving_def DB_Get_view split: option.splits)
  show "sorted_wrt (<) (map fst (db_scan st))" "map_of (db_scan st) = db_view (fst st)"
    using inv NewIterator_scan [of "fst st"] by (simp_all add: db_scan_def serving_def std_map_ok_def)
qed

end
