(* ===== verification/Well_Formed.thy ===== *)
theory Well_Formed
  imports DB_Ops
begin

text \<open>
  The structural type of a running database, in terms of the data members alone: what the manifest's
  metadata say about the open readers, how the files of a level lie, and which numbers are in use. Every
  operation keeps it, so that it holds of every database a program can reach.
\<close>

definition file_matches :: "FileMetaData \<Rightarrow> SSTableReader \<Rightarrow> bool" where
  "file_matches fm r \<longleftrightarrow> min_key fm = r_min_key r \<and> max_key fm = r_max_key r \<and> min_key fm \<le> max_key fm \<and>
     Status_ok (fst (SSTableReader_ReadAll r)) \<and>
     list_all (\<lambda>e. min_key fm \<le> e_key e \<and> e_key e \<le> max_key fm) (snd (SSTableReader_ReadAll r))"

text \<open>Files one behind the other, without overlaps.\<close>

definition level_disjoint :: "FileMetaData list \<Rightarrow> bool" where
  "level_disjoint fms \<longleftrightarrow> sorted_wrt (\<lambda>a b. max_key a < min_key b) fms"

definition well_formed :: "DB \<Rightarrow> bool" where
  "well_formed db \<longleftrightarrow>
     length (levels (db_version db)) = kMaxLevels \<and>
     list_all2 (list_all2 file_matches) (levels (db_version db)) (db_readers db) \<and>
     list_all level_disjoint (drop 1 (levels (db_version db))) \<and>
     sorted_wrt (<) (map number (levels (db_version db) ! 0)) \<and>
     distinct (version_numbers (db_version db)) \<and>
     list_all (\<lambda>n. n < next_file_number (db_version db)) (version_numbers (db_version db)) \<and>
     MemTable_ok (db_memtable db)"

lemma reader_for_range: "reader_for r es \<Longrightarrow> r_min_key r = e_key (hd es) \<and> r_max_key r = e_key (last es)"
  by (auto simp: reader_for_def table_reader_def)

lemma file_matches_reader:
  assumes "meta_for fm (reader_entries r)" and r: "reader_for r (reader_entries r)"
  shows "file_matches fm r"
proof -
  let ?es = "reader_entries r"
  have t: "?es \<noteq> []" "sorted_wrt (<) (map e_key ?es)"
    using r by (simp_all add: reader_for_def table_ok_def)
  have rng: "e_key (hd ?es) \<le> e_key e \<and> e_key e \<le> e_key (last ?es)" if "e \<in> set ?es" for e
    using that entries_in_range [OF t(2), of "e_key e"] by (auto simp: table_lookup_None_iff)
  show ?thesis
    using assms(1) reader_for_range [OF r] ReadAll_reader [OF r] rng t(1) rng [of "hd ?es"]
    by (auto simp: file_matches_def meta_for_def list_all_iff)
qed

lemma level_sorted_disjoint:
  assumes "list_all2 meta_for fms ts" and "level_sorted ts" and "list_all table_ok ts"
  shows "level_disjoint fms"
  using assms
proof (induction rule: list_all2_induct)
  case (Cons fm fms es ts)
  have ne: "es \<noteq> []" "\<forall>es\<in>set ts. es \<noteq> []" using Cons.prems(2) by (auto simp: table_ok_def list_all_iff)
  have "max_key fm < min_key fm'" if fm': "fm' \<in> set fms" for fm'
  proof -
    obtain es' where "es' \<in> set ts" "meta_for fm' es'"
      using Cons.hyps(2) fm' list_all2_lengthD [OF Cons.hyps(2)]
      by (metis in_set_conv_nth list_all2_nthD2 nth_mem)
    moreover from this have "hd es' \<in> set (concat ts)" using ne(2) by (auto intro!: bexI [of _ es'])
    moreover have "last es \<in> set es" using ne(1) by simp
    ultimately show ?thesis
      using Cons.hyps(1) Cons.prems(1) by (auto simp: meta_for_def level_sorted_def sorted_wrt_append)
  qed
  moreover have "level_disjoint fms"
    using Cons by (simp add: level_sorted_def sorted_wrt_append)
  ultimately show ?case by (simp add: level_disjoint_def)
qed (simp add: level_disjoint_def)

lemma db_ok_well_formed:
  assumes ok: "db_ok db"
  shows "well_formed db"
proof -
  let ?v = "db_version db" and ?tss = "db_tables db"
  have v: "version_for ?v ?tss" and rs: "list_all (list_all (\<lambda>r. reader_for r (reader_entries r))) (db_readers db)"
    using ok by (simp_all add: db_ok_def)
  then have all2: "list_all2 (list_all2 (\<lambda>fm r. meta_for fm (reader_entries r))) (levels ?v) (db_readers db)"
    by (simp add: version_for_def db_tables_def list_all2_map2)
  have "list_all2 (list_all2 file_matches) (levels ?v) (db_readers db)"
    using all2 by (rule list.rel_mono_strong)
      (rule list.rel_mono_strong, assumption, use rs in \<open>auto simp: list_all_iff intro: file_matches_reader\<close>)
  moreover have "level_disjoint (levels ?v ! l)" if l: "0 < l" "l < kMaxLevels" for l
  proof (rule level_sorted_disjoint)
    show "list_all2 meta_for (levels ?v ! l) (?tss ! l)" using version_for_length(3) [OF v l(2)] .
    have len: "length ?tss = kMaxLevels" using version_for_length(2) [OF v] .
    have "list_all level_sorted (drop 1 ?tss)" "list_all (list_all table_ok) ?tss"
      using v by (simp_all add: version_for_def tables_ok_def)
    then show "level_sorted (?tss ! l)" "list_all table_ok (?tss ! l)"
      using l len by (auto simp: list_all_length dest: spec [of _ "l - 1"])
  qed
  ultimately show ?thesis
    using v ok version_for_length(1) [OF v]
    by (auto simp: well_formed_def version_for_def db_ok_def mem_ok_def list_all_length list_all_iff)
qed

end
