(* ===== verification/Recovery.thy ===== *)
theory Recovery
  imports DB_Ops
begin

text \<open>
  Durability. What a process leaves on disk is described by the manifest, the table files it names
  and the log; \<open>durable\<close> says that this description has the same view as the running database.
  Maintenance keeps it whatever fails and wherever the process dies, an acknowledged write keeps it, and
  a write that is cut short leaves the view before or after the batch. Opening the directory
  afterwards gives that view back.
\<close>

section \<open>What is on disk\<close>

definition disk_version :: "world \<Rightarrow> path \<Rightarrow> Version \<Rightarrow> bool" where
  "disk_version w dbp v \<longleftrightarrow>
     (fget w (ManifestPath dbp) = Some (Save_bytes v) \<and> Version_ok v) \<or>
     (fget w (ManifestPath dbp) = None \<and> v = Version_new)"

definition disk_tables :: "world \<Rightarrow> path \<Rightarrow> Version \<Rightarrow> table list list \<Rightarrow> bool" where
  "disk_tables w dbp v tss \<longleftrightarrow>
     list_all2 (list_all2 (\<lambda>fm es. disk_table w (SSTablePath dbp (number fm)) es)) (levels v) tss"

definition log_of :: "batch_op list list \<Rightarrow> bytes" where
  "log_of opss = concat (map (\<lambda>ops. wal_record (rep (batch_of ops))) opss)"

definition replayed :: "batch_op list list \<Rightarrow> MemTable" where
  "replayed opss = mem_apply (concat opss) MemTable_empty"

text \<open>
  A directory from which the view \<open>V\<close> can be recovered: a manifest (or none yet), its tables, and a
  log of complete batches followed by bytes that replay ignores.
\<close>

definition recoverable_with ::
  "world \<Rightarrow> path \<Rightarrow> Version \<Rightarrow> table list list \<Rightarrow> batch_op list list \<Rightarrow> bytes \<Rightarrow> bool" where
  "recoverable_with w dbp v tss opss tail \<longleftrightarrow>
     canon_dir dbp \<in> set (dirs w) \<and> disk_version w dbp v \<and> version_for v tss \<and> disk_tables w dbp v tss \<and>
     list_all batch_ok opss \<and> the_default [] (fget w (WalPath dbp)) = log_of opss @ tail \<and>
     wal_records tail = []"

definition recoverable :: "world \<Rightarrow> path \<Rightarrow> (bytes \<rightharpoonup> bytes) \<Rightarrow> bool" where
  "recoverable w dbp V \<longleftrightarrow>
     (\<exists>v tss opss tail. recoverable_with w dbp v tss opss tail \<and> store_view (replayed opss) tss = V)"

text \<open>The same with the bytes known that may follow the complete batches.\<close>

definition recovers :: "bytes \<Rightarrow> world \<Rightarrow> path \<Rightarrow> (bytes \<rightharpoonup> bytes) \<Rightarrow> bool" where
  "recovers torn w p V \<longleftrightarrow>
     (\<exists>v tss opss. \<exists>tail\<in>{torn, []}. recoverable_with w p v tss opss tail \<and> store_view (replayed opss) tss = V)"

lemma recovers_recoverable: "(\<exists>torn. recovers torn w p V) \<longleftrightarrow> recoverable w p V"
  unfolding recovers_def recoverable_def by blast

text \<open>The log has the last entry of every key of the memtable (and possibly keys flushed since).\<close>

definition log_covers :: "batch_op list list \<Rightarrow> MemTable \<Rightarrow> bool" where
  "log_covers opss mt \<longleftrightarrow>
     (\<forall>k. mem_lookup mt k = None \<or> mem_lookup (replayed opss) k = mem_lookup mt k)"

text \<open>
  The running database and its directory agree: the directory recovers to the current view, with the torn
  bytes \<open>torn\<close> at the end of its log or none, the log covers the memtable, the tables in use are on disk too,
  the numbers still to come are unused, and the log is open on the log file unless it is closed.
\<close>

definition in_step :: "bytes \<Rightarrow> DB \<Rightarrow> world \<Rightarrow> bool" where
  "in_step torn db w \<longleftrightarrow>
     (\<exists>v tss opss. \<exists>tail\<in>{torn, []}. recoverable_with w (db_path db) v tss opss tail \<and>
        store_view (replayed opss) tss = db_view db \<and> log_covers opss (db_memtable db) \<and>
        next_file_number v \<le> db_next db) \<and>
     disk_tables w (db_path db) (db_version db) (db_tables db) \<and>
     (wal_file (db_wal db) = None \<or>
      db_wal db = wal_opened (WalPath (db_path db)) \<and> fget w (WalPath (db_path db)) \<noteq> None)"

text \<open>With no torn bytes, what is appended next will be read back.\<close>

abbreviation durable :: "DB \<Rightarrow> world \<Rightarrow> bool" where
  "durable \<equiv> in_step []"

lemmas durable_def = in_step_def [of "[]", simplified]

lemma in_stepI:
  assumes "recoverable_with w (db_path db) v tss opss tail" and "tail \<in> {torn, []}"
    and "store_view (replayed opss) tss = db_view db"
    and "log_covers opss (db_memtable db)" and "next_file_number v \<le> db_next db"
    and "disk_tables w (db_path db) (db_version db) (db_tables db)"
    and "wal_file (db_wal db) = None \<or>
      db_wal db = wal_opened (WalPath (db_path db)) \<and> fget w (WalPath (db_path db)) \<noteq> None"
  shows "in_step torn db w"
  unfolding in_step_def using assms by blast

lemmas durableI = in_stepI [where tail = "[]" and torn = "[]", simplified]

lemma in_stepE:
  assumes "in_step torn db w"
  obtains v tss opss tail where "recoverable_with w (db_path db) v tss opss tail" "tail \<in> {torn, []}"
    "store_view (replayed opss) tss = db_view db" "log_covers opss (db_memtable db)" "next_file_number v \<le> db_next db"
    "disk_tables w (db_path db) (db_version db) (db_tables db)"
    "wal_file (db_wal db) = None \<or>
      db_wal db = wal_opened (WalPath (db_path db)) \<and> fget w (WalPath (db_path db)) \<noteq> None"
  using assms unfolding in_step_def by blast

lemma in_step_recovers: "in_step torn db w \<Longrightarrow> recovers torn w (db_path db) (db_view db)"
  unfolding in_step_def recovers_def by blast

lemma in_step_recoverable: "in_step torn db w \<Longrightarrow> recoverable w (db_path db) (db_view db)"
  using in_step_recovers recovers_recoverable by blast

lemma in_step_fewer: "durable db w \<Longrightarrow> in_step torn db w"
  unfolding in_step_def by blast

lemma in_step_empty_log: "in_step torn db w \<Longrightarrow> fget w (WalPath (db_path db)) = Some [] \<Longrightarrow> durable db w"
  unfolding in_step_def by (auto simp: recoverable_with_def)

lemmas durable_recoverable = in_step_recoverable [of "[]"]

lemma durable_cong:
  "db_path db' = db_path db \<Longrightarrow> db_version db' = db_version db \<Longrightarrow> db_readers db' = db_readers db \<Longrightarrow>
    db_memtable db' = db_memtable db \<Longrightarrow> db_wal db' = db_wal db \<Longrightarrow> durable db' w = durable db w"
  by (simp add: durable_def db_view_def db_tables_def)

section \<open>Frames\<close>

lemma disk_tables_frame:
  assumes "disk_tables w dbp v tss" and "changes_only P w w'"
    and apart: "\<And>n. n \<in> set (version_numbers v) \<Longrightarrow> canon (SSTablePath dbp n) \<notin> P"
  shows "disk_tables w' dbp v tss"
  unfolding disk_tables_def
proof (rule list.rel_mono_strong [OF assms(1) [unfolded disk_tables_def]])
  fix fms tabs
  assume fms: "fms \<in> set (levels v)" and "list_all2 (\<lambda>fm es. disk_table w (SSTablePath dbp (number fm)) es) fms tabs"
  from this(2) show "list_all2 (\<lambda>fm es. disk_table w' (SSTablePath dbp (number fm)) es) fms tabs"
  proof (rule list.rel_mono_strong)
    fix fm es
    assume "fm \<in> set fms" and d: "disk_table w (SSTablePath dbp (number fm)) es"
    then have "number fm \<in> set (version_numbers v)" using fms by (auto simp: version_numbers_def)
    then show "disk_table w' (SSTablePath dbp (number fm)) es"
      using d disk_table_frame [OF assms(2) apart] by simp
  qed
qed

lemma disk_version_frame:
  "disk_version w dbp v \<Longrightarrow> fget w' (ManifestPath dbp) = fget w (ManifestPath dbp) \<Longrightarrow> disk_version w' dbp v"
  by (simp add: disk_version_def)

lemma recoverable_with_frame:
  assumes r: "recoverable_with w dbp v tss opss tail" and ch: "changes_only P w w'"
    and "canon (ManifestPath dbp) \<notin> P" and "canon (WalPath dbp) \<notin> P"
    and "\<And>n. n \<in> set (version_numbers v) \<Longrightarrow> canon (SSTablePath dbp n) \<notin> P"
  shows "recoverable_with w' dbp v tss opss tail"
  using r disk_tables_frame [OF _ ch assms(5)] disk_version_frame [of w dbp v w']
  by (auto simp: recoverable_with_def changes_only_dirs [OF ch] changes_only_fget [OF ch assms(3)]
      changes_only_fget [OF ch assms(4)])

text \<open>Only the log file changes.\<close>

lemma recoverable_with_log:
  assumes r: "recoverable_with w dbp v tss opss tail" and ch: "changes_only {canon (WalPath dbp)} w w'"
    and "list_all batch_ok opss'" and "the_default [] (fget w' (WalPath dbp)) = log_of opss' @ tail'"
    and "wal_records tail' = []"
  shows "recoverable_with w' dbp v tss opss' tail'"
proof -
  have "fget w' (ManifestPath dbp) = fget w (ManifestPath dbp)"
    using ch by (rule changes_only_fget) (simp add: paths_apart(7) [symmetric])
  moreover have "disk_tables w' dbp v tss"
    using r disk_tables_frame [OF _ ch, of dbp v tss] by (simp add: recoverable_with_def)
  ultimately show ?thesis
    using r assms(3-5) disk_version_frame [of w dbp v w']
    by (simp add: recoverable_with_def changes_only_dirs [OF ch])
qed

section \<open>Appending to the log\<close>

lemma log_of_simps [simp]: "log_of [] = []" "log_of (a @ b) = log_of a @ log_of b"
  "log_of [ops] = wal_record (rep (batch_of ops))"
  by (simp_all add: log_of_def)

lemma replayed_snoc: "replayed (opss @ [ops]) = mem_apply ops (replayed opss)"
  by (simp add: replayed_def)

lemma log_covers_snoc: "log_covers opss mt \<Longrightarrow> log_covers (opss @ [ops]) (mem_apply ops mt)"
  unfolding log_covers_def replayed_snoc by (auto simp: mem_lookup_apply split: option.splits)

lemma replayed_snoc_view: "store_view (replayed (opss @ [ops])) tss = ops_view ops (store_view (replayed opss) tss)"
  by (simp add: replayed_def store_view_apply)

text \<open>
  Appending a batch under any fault: acknowledged, it is in the log; otherwise the directory
  still recovers to the view without it or with it.
\<close>

lemma durable_append:
  assumes d: "durable db w" and ops: "batch_ok ops"
    and add: "WriteAheadLog_AddRecord (db_wal db) (rep (batch_of ops)) do_sync w = (s, w')"
  shows "Status_ok s \<Longrightarrow> durable (applied ops db) w'"
    "\<exists>V\<in>{db_view db, ops_view ops (db_view db)}. recoverable w' (db_path db) V"
proof -
  let ?p = "db_path db" and ?rec = "wal_record (rep (batch_of ops))"
  obtain v tss opss where r: "recoverable_with w ?p v tss opss []"
    and V: "store_view (replayed opss) tss = db_view db" and cov: "log_covers opss (db_memtable db)"
    and n: "next_file_number v \<le> db_next db"
    and tabs: "disk_tables w ?p (db_version db) (db_tables db)"
    and log: "wal_file (db_wal db) = None \<or> db_wal db = wal_opened (WalPath ?p) \<and> fget w (WalPath ?p) \<noteq> None"
    using d unfolding durable_def by blast
  have "(Status_ok s \<longrightarrow> durable (applied ops db) w') \<and>
    (\<exists>V\<in>{db_view db, ops_view ops (db_view db)}. recoverable w' ?p V)"
  proof (cases "wal_file (db_wal db) = None")
    case True
    then have "w' = w" "\<not> Status_ok s" using add by (auto simp: WriteAheadLog_AddRecord_def)
    then show ?thesis using durable_recoverable [OF d] by simp
  next
    case False
    with log have open_log: "db_wal db = wal_opened (WalPath ?p)" and ne: "fget w (WalPath ?p) \<noteq> None" by auto
    have old: "fget w (WalPath ?p) = Some (log_of opss)"
      using ne r by (auto simp: recoverable_with_def)
    obtain k where k: "fget w' (WalPath ?p) = Some (log_of opss @ take k ?rec)"
      and full: "Status_ok s \<Longrightarrow> fget w' (WalPath ?p) = Some (log_of opss @ ?rec) \<and> \<not> crashed w'"
      and ch: "changes_only {canon (WalPath ?p)} w w'"
      using WriteAheadLog_AddRecord_effect [OF add [unfolded open_log] old] by blast
    have bok: "list_all batch_ok opss" using r by (simp add: recoverable_with_def)
    have whole: "recoverable_with w' ?p v tss (opss @ [ops]) []" if "fget w' (WalPath ?p) = Some (log_of opss @ ?rec)"
      using that bok ops by (intro recoverable_with_log [OF r ch]) simp_all
    have V': "store_view (replayed (opss @ [ops])) tss = ops_view ops (db_view db)"
      using V by (simp add: replayed_snoc_view)
    have "disk_tables w' ?p (db_version db) (db_tables db)" using tabs ch by (rule disk_tables_frame) simp
    moreover have "log_covers (opss @ [ops]) (db_memtable (applied ops db))"
      using log_covers_snoc [OF cov] by (simp add: applied_def)
    ultimately have "durable (applied ops db) w'" if "Status_ok s"
      using full [OF that] whole V' n unfolding durable_def by (auto simp: open_log applied_view)
    moreover have "\<exists>V\<in>{db_view db, ops_view ops (db_view db)}. recoverable w' ?p V"
    proof (cases "k < length ?rec")
      case True
      have "wal_records (take k ?rec) = []"
        using next_record_torn [of "rep (batch_of ops)" k] True ops
        by (subst wal_records_step) (simp add: batch_ok_def)
      then have "recoverable_with w' ?p v tss opss (take k ?rec)"
        using k bok by (intro recoverable_with_log [OF r ch]) simp_all
      then show ?thesis using V unfolding recoverable_def by blast
    next
      case False
      then have "recoverable w' ?p (ops_view ops (db_view db))"
        using whole k V' unfolding recoverable_def by fastforce
      then show ?thesis by blast
    qed
    ultimately show ?thesis by blast
  qed
  then show "Status_ok s \<Longrightarrow> durable (applied ops db) w'"
    "\<exists>V\<in>{db_view db, ops_view ops (db_view db)}. recoverable w' (db_path db) V" by blast+
qed

section \<open>Flushing\<close>

text \<open>A version whose tables hold fewer than 2^32 entries can be represented in the manifest.\<close>

lemma length_level_le:
  assumes "list_all table_ok ts"
  shows "length ts \<le> length (concat ts)"
  using assms
proof (induction ts)
  case (Cons t ts)
  then show ?case by (cases t) (auto simp: table_ok_def)
qed simp

lemma length_concat_level: "ts \<in> set tss \<Longrightarrow> length (concat ts) \<le> length (concat (concat tss))"
  by (induction tss) auto

lemma meta_for_ok: "meta_for fm es \<Longrightarrow> table_ok es \<Longrightarrow> file_meta_ok fm"
  by (cases es) (auto simp: meta_for_def table_ok_def file_meta_ok_def entry_ok_def list_all_iff)

lemma Version_ok_for:
  assumes v: "version_for v tss" and small: "length (concat (concat tss)) < 2 ^ 32"
  shows "Version_ok v"
  unfolding Version_ok_def
proof (intro conjI ballI)
  show "length (levels v) = kMaxLevels" using v by (rule version_for_length)
  fix fs
  assume "fs \<in> set (levels v)"
  then obtain i where i: "i < length (levels v)" "fs = levels v ! i" by (auto simp: in_set_conv_nth)
  have tok: "list_all (list_all table_ok) tss" and len: "length tss = kMaxLevels"
    and all2: "list_all2 (list_all2 meta_for) (levels v) tss"
    using v by (simp_all add: version_for_def tables_ok_def)
  have ti: "tss ! i \<in> set tss" using i all2 by (auto dest: list_all2_lengthD)
  have fi: "list_all2 meta_for fs (tss ! i)" using all2 i by (simp add: list_all2_conv_all_nth)
  have oki: "list_all table_ok (tss ! i)" using tok ti by (simp add: list_all_iff)
  have "length (tss ! i) \<le> length (concat (tss ! i))" using oki by (rule length_level_le)
  also have "\<dots> \<le> length (concat (concat tss))"
    using ti by (rule length_concat_level)
  finally show "length fs < 2 ^ 32" using fi small by (auto dest: list_all2_lengthD)
  from fi oki show "list_all file_meta_ok fs"
    by (induction rule: list_all2_induct) (auto simp: meta_for_ok)
qed

lemma db_tables_count:
  assumes "db_fits db"
  shows "length (concat (concat (db_tables db))) < 2 ^ 31"
  using assms unfolding db_fits_def db_total_def store_entries_def total_count by simp

lemma store_view_mem: "mem_lookup mt k \<noteq> None \<Longrightarrow> store_view mt tss k = entry_view (mem_lookup mt k)"
  by (auto simp: store_view_def store_lookup_def map_add_def)

lemma store_view_no_mem: "mem_lookup mt k = None \<Longrightarrow> store_view mt tss k = entry_view (tables_lookup tss k)"
  by (simp add: store_view_def store_lookup_def map_add_def)

text \<open>
  Replacing the recovered tables by ones that have the current view under the memtable is safe for the
  log, whether or not the log still holds older entries.
\<close>

lemma replayed_new_tables:
  assumes "store_view (replayed opss) tss = V" and "log_covers opss mt" and "store_view mt tss' = V"
  shows "store_view (replayed opss) tss' = V"
proof
  fix k
  show "store_view (replayed opss) tss' k = V k"
  proof (cases "mem_lookup (replayed opss) k")
    case None
    then have "mem_lookup mt k = None" using assms(2) by (auto simp: log_covers_def)
    with None show ?thesis using assms(3) by (auto simp: store_view_no_mem)
  next
    case (Some e)
    then show ?thesis using assms(1) store_view_mem [of "replayed opss" k] by auto
  qed
qed

lemma log_covers_empty [simp]: "log_covers opss MemTable_empty" "log_covers opss (MemTable_Clear mt)"
  by (simp_all add: log_covers_def)

lemma disk_tables_add_l0:
  assumes "disk_tables w dbp v tss" and "disk_table w (SSTablePath dbp (number fm)) es"
    and "levels v = l0 # ls" "tss = t0 # ts"
  shows "disk_tables w dbp (v\<lparr>levels := (levels v)[0 := levels v ! 0 @ [fm]], next_file_number := n\<rparr>)
    (tss[0 := tss ! 0 @ [es]])"
  using assms by (auto simp: disk_tables_def intro: list_all2_appendI)

lemma version_number_less:
  assumes "version_for v tss" and "next_file_number v \<le> n" and "m \<in> set (version_numbers v)"
  shows "m < n"
  using assms by (auto simp: version_for_def)

text \<open>A successful save makes the in-memory version the recovered one.\<close>

lemma saved_recoverable:
  assumes r: "recoverable_with w0 dbp v0 tss0 opss tail" and V: "store_view (replayed opss) tss0 = V"
    and save: "Version_Save v (ManifestPath dbp) w = (s, w')" "Status_ok s"
    and same_log: "fget w (WalPath dbp) = fget w0 (WalPath dbp)" "dirs w = dirs w0"
    and v: "version_for v tss" "Version_ok v" and d: "disk_tables w dbp v tss"
    and view: "log_covers opss mt" "store_view mt tss = V"
  shows "recoverable_with w' dbp v tss opss tail" "store_view (replayed opss) tss = V"
proof -
  note ch = Version_Save_paths [OF save(1)]
  have "fget w' (ManifestPath dbp) = Some (Save_bytes v)" using save by (auto elim: Version_Save_cases)
  moreover have "fget w' (WalPath dbp) = fget w (WalPath dbp)"
    using ch by (rule changes_only_fget) simp
  moreover have "disk_tables w' dbp v tss"
    using d ch by (rule disk_tables_frame) simp
  ultimately show "recoverable_with w' dbp v tss opss tail"
    using r v same_log by (simp add: recoverable_with_def disk_version_def changes_only_dirs [OF ch])
  show "store_view (replayed opss) tss = V" using V view by (rule replayed_new_tables)
qed

text \<open>A failed save leaves the directory as it was.\<close>

lemma unsaved_recoverable:
  assumes r: "recoverable_with w dbp v tss opss tail"
    and save: "Version_Save v' (ManifestPath dbp) w = (s, w')" "\<not> Status_ok s"
  shows "recoverable_with w' dbp v tss opss tail"
proof -
  note ch = Version_Save_paths [OF save(1)]
  have "fget w' (ManifestPath dbp) = fget w (ManifestPath dbp)" using save by (auto elim: Version_Save_cases)
  moreover have "fget w' (WalPath dbp) = fget w (WalPath dbp)"
    using ch by (rule changes_only_fget) simp
  moreover have "disk_tables w' dbp v tss" if "disk_tables w dbp v tss"
    using that ch by (rule disk_tables_frame) simp
  ultimately show ?thesis
    using r disk_version_frame [of w dbp v w'] by (simp add: recoverable_with_def changes_only_dirs [OF ch])
qed

lemma disk_tables_manifest:
  assumes "Version_Save v' (ManifestPath dbp) w = (s, w')" and "disk_tables w dbp v tss"
  shows "disk_tables w' dbp v tss"
  using assms(2) Version_Save_paths [OF assms(1)]
  by (rule disk_tables_frame) simp

text \<open>Writing files of numbers not yet taken disturbs neither the recovered nor the current version.\<close>

lemma fresh_files:
  assumes d: "in_step torn db w" and ok: "db_ok db" and ch: "changes_only (table_paths (db_path db) N) w w'"
    and N: "\<And>n. n \<in> N \<Longrightarrow> db_next db \<le> n"
  obtains v tss opss tail where "recoverable_with w' (db_path db) v tss opss tail" "tail \<in> {torn, []}"
    "store_view (replayed opss) tss = db_view db" "log_covers opss (db_memtable db)" "next_file_number v \<le> db_next db"
    "disk_tables w' (db_path db) (db_version db) (db_tables db)"
    "fget w' (WalPath (db_path db)) = fget w (WalPath (db_path db))"
proof -
  obtain v tss opss tail where r: "recoverable_with w (db_path db) v tss opss tail" and T: "tail \<in> {torn, []}"
    and V: "store_view (replayed opss) tss = db_view db" and cov: "log_covers opss (db_memtable db)"
    and n: "next_file_number v \<le> db_next db"
    and tabs: "disk_tables w (db_path db) (db_version db) (db_tables db)"
    using d by (rule in_stepE)
  have vf: "version_for v tss" using r by (simp add: recoverable_with_def)
  have vd: "version_for (db_version db) (db_tables db)" using ok by (simp add: db_ok_def)
  show thesis
  proof (rule that [OF _ T V cov n])
    show "recoverable_with w' (db_path db) v tss opss tail"
      using r ch by (rule recoverable_with_frame)
        (use version_number_less [OF vf n] N in \<open>fastforce+\<close>)
    show "disk_tables w' (db_path db) (db_version db) (db_tables db)"
      using tabs ch by (rule disk_tables_frame) (use version_number_less [OF vd order_refl] N in fastforce)
    show "fget w' (WalPath (db_path db)) = fget w (WalPath (db_path db))"
      using ch by (rule changes_only_fget) simp
  qed
qed

lemma flush_installed_disk:
  assumes ok: "db_ok db" and r: "reader_for r (memtable_entries_of (db_memtable db))"
    and d: "disk_tables w (db_path db) (db_version db) (db_tables db)"
    and new: "disk_table w (SSTablePath (db_path db) (db_next db)) (memtable_entries_of (db_memtable db))"
  shows "disk_tables w (db_path db) (db_version (flush_installed db sz r)) (db_tables (flush_installed db sz r))"
proof -
  obtain fm where fm: "number fm = db_next db"
    "db_version (flush_installed db sz r) = (db_version db)
      \<lparr>levels := (levels (db_version db))[0 := levels (db_version db) ! 0 @ [fm]], next_file_number := db_next db + 1\<rparr>"
    using flush_installed_version by blast
  obtain l0 ls where "levels (db_version db) = l0 # ls"
    using db_ok_length(2) [OF ok] by (cases "levels (db_version db)") (auto simp: kMaxLevels_def)
  moreover obtain t0 ts where "db_tables db = t0 # ts"
    using db_tables_nonempty [OF ok] by (cases "db_tables db") auto
  ultimately show ?thesis
    unfolding fm(2) flush_installed_tables [OF ok r refl] using d new fm(1)
    by (intro disk_tables_add_l0) simp_all
qed

lemma flush_installed_count:
  assumes ok: "db_ok db" and fits: "db_fits db" and r: "reader_for r (memtable_entries_of (db_memtable db))"
  shows "length (concat (concat (db_tables (flush_installed db sz r)))) < 2 ^ 32"
proof -
  let ?db = "(flush_installed db sz r)\<lparr>db_memtable := MemTable_Clear (db_memtable db), db_wal := db_wal db\<rparr>"
  have "db_total (\<lambda>_. 1) ?db = db_total (\<lambda>_. 1) db" by (rule flush_installed_total [OF ok r])
  moreover have "length (concat (concat (db_tables ?db))) \<le> db_total (\<lambda>_. 1) ?db"
    unfolding db_total_def store_entries_def total_count by simp
  ultimately show ?thesis using fits unfolding db_fits_def by simp
qed

lemma table_paths_single: "{canon (SSTablePath d n)} = table_paths d {n}"
  by (simp add: table_paths_def)

lemma store_view_empty: "store_view MemTable_empty tss = (\<lambda>k. entry_view (tables_lookup tss k))"
  by (auto simp: store_view_def store_lookup_def map_add_def fun_eq_iff)

lemma flush_installed_alone:
  assumes "db_ok db" and "reader_for r (memtable_entries_of (db_memtable db))"
  shows "store_view MemTable_empty (db_tables (flush_installed db sz r)) = db_view db"
  unfolding store_view_empty flush_installed_lookup [OF assms]
  by (simp add: db_view_def store_view_def [abs_def])

text \<open>
  A flush keeps the directory in step with the database, whichever of its calls fails or is the last
  one the process makes.
\<close>

lemma in_step_flush:
  assumes flush: "FlushMemTableLocked db w = (s, db', w')" and ok: "db_ok db" and fits: "db_fits db"
    and room: "unat (db_next db) + 1 < 2 ^ 64" and d: "in_step torn db w"
  shows "in_step torn db' w'"
proof (cases "MemTable_is_empty (db_memtable db)")
  case True
  then show ?thesis using flush d by (simp add: FlushMemTableLocked_def)
next
  case False
  let ?p = "db_path db" and ?n = "db_next db" and ?es = "memtable_entries_of (db_memtable db)"
  have mem: "mem_ok (db_memtable db)" using ok by (simp add: db_ok_def)
  have small: "total entry_weight ?es < addressable" using fits by (intro mem_fits) (simp add: db_fits_def)
  have le: "?n \<le> ?n + 1" using self_less_succ [OF room] by (rule less_imp_le)
  have log: "wal_file (db_wal db) = None \<or> db_wal db = wal_opened (WalPath ?p) \<and> fget w (WalPath ?p) \<noteq> None"
    using d unfolding in_step_def by blast
  from flush False mem small show ?thesis
  proof (cases rule: FlushMemTableLocked_cases)
    case early
    obtain v tss opss tail where "recoverable_with w' ?p v tss opss tail" "tail \<in> {torn, []}" "store_view (replayed opss) tss = db_view db"
      "log_covers opss (db_memtable db)" "next_file_number v \<le> ?n" "disk_tables w' ?p (db_version db) (db_tables db)"
      "fget w' (WalPath ?p) = fget w (WalPath ?p)"
      by (rule fresh_files [OF d ok early(3) [unfolded table_paths_single]]) simp
    then show ?thesis
      using log le unfolding early(2)
      by (intro in_stepI [of w' _ v tss opss tail]) (auto simp: disk_tables_def db_tables_def intro: order_trans)
  next
    case (installed sz r w3 s4 w4)
    let ?db2 = "flush_installed db sz r"
    obtain v tss opss tail where r3: "recoverable_with w3 ?p v tss opss tail" and T: "tail \<in> {torn, []}" and V: "store_view (replayed opss) tss = db_view db"
      and cov: "log_covers opss (db_memtable db)" and n: "next_file_number v \<le> ?n" and t3: "disk_tables w3 ?p (db_version db) (db_tables db)"
      and l3: "fget w3 (WalPath ?p) = fget w (WalPath ?p)"
      by (rule fresh_files [OF d ok installed(2) [unfolded table_paths_single]]) simp
    note d2 = flush_installed_disk [OF ok installed(1) t3 installed(3), of sz]
    note d4 = disk_tables_manifest [OF installed(4) d2]
    have l4: "fget w4 (WalPath ?p) = fget w3 (WalPath ?p)"
      using Version_Save_paths [OF installed(4)] by (rule changes_only_fget) simp
    show ?thesis
    proof (cases "Status_ok s4")
      case unsaved: False
      then have eq: "db' = ?db2" "w' = w4" using installed(5) by simp_all
      have "recoverable_with w4 ?p v tss opss tail" using r3 installed(4) unsaved by (rule unsaved_recoverable)
      then show ?thesis
        using T V cov n le d4 log l3 l4 flush_installed_view(1) [OF ok installed(1), of sz]
        unfolding eq by (intro in_stepI [of w4 _ v tss opss tail]) (auto intro: order_trans)
    next
      case saved: True
      then obtain lg where eq: "db' = ?db2\<lparr>db_memtable := MemTable_Clear (db_memtable db), db_wal := lg\<rparr>"
        and ch: "changes_only {canon (WalPath ?p)} w4 w'"
        and wal: "fget w' (WalPath ?p) \<in> {fget w4 (WalPath ?p), None, Some []}"
        and lg: "wal_file lg = None \<or> lg = wal_opened (WalPath ?p) \<and> fget w' (WalPath ?p) \<noteq> None"
        using installed(6) by blast
      have vf: "version_for (db_version ?db2) (db_tables ?db2)"
        using flush_installed_ok [OF ok room installed(1)] by (simp add: db_ok_def)
      note alone = flush_installed_alone [OF ok installed(1), of sz]
      note sv = saved_recoverable [OF r3 V installed(4) saved refl refl vf
          Version_ok_for [OF vf flush_installed_count [OF ok fits installed(1)]] d2 log_covers_empty(1) alone]
      have t': "disk_tables w' ?p (db_version ?db2) (db_tables ?db2)" using d4 ch by (rule disk_tables_frame) simp
      have "\<exists>opss'. \<exists>t\<in>{torn, []}. recoverable_with w' ?p (db_version ?db2) (db_tables ?db2) opss' t \<and>
          store_view (replayed opss') (db_tables ?db2) = db_view db"
      proof (cases "fget w' (WalPath ?p) = fget w4 (WalPath ?p)")
        case True
        then have "recoverable_with w' ?p (db_version ?db2) (db_tables ?db2) opss tail"
          using sv(1) by (intro recoverable_with_log [OF sv(1) ch]) (simp_all add: recoverable_with_def)
        with sv(2) T show ?thesis by blast
      next
        case False
        with wal have "the_default [] (fget w' (WalPath ?p)) = log_of [] @ []" by auto
        then have "recoverable_with w' ?p (db_version ?db2) (db_tables ?db2) [] []"
          by (intro recoverable_with_log [OF sv(1) ch]) simp_all
        moreover have "store_view (replayed []) (db_tables ?db2) = db_view db" using alone by (simp add: replayed_def)
        ultimately show ?thesis by blast
      qed
      then obtain opss' t where "recoverable_with w' ?p (db_version ?db2) (db_tables ?db2) opss' t" "t \<in> {torn, []}"
        "store_view (replayed opss') (db_tables ?db2) = db_view db" by blast
      then show ?thesis
        using t' lg flush_installed_view(2) [OF ok installed(1), where sz = sz and mt = "db_memtable db" and log = lg]
        unfolding eq by (intro in_stepI [where v = "db_version ?db2" and tss = "db_tables ?db2" and opss = opss' and tail = t]) simp_all
    qed
  qed
qed

section \<open>Compacting\<close>

text \<open>The files a compaction deletes are not among those of the version it installs.\<close>

lemma distinct_middle: "distinct (a @ b @ c @ d) \<Longrightarrow> (set b \<union> set c) \<inter> (set a \<union> set d) = {}"
  by auto

lemma compact_numbers_apart:
  assumes v: "version_for v tss" and l: "Suc l < kMaxLevels"
    and fs: "\<forall>fm\<in>set fs. next_file_number v \<le> number fm"
    and n: "n \<in> set (map number (concat ((levels v)[l := [], Suc l := fs])))"
  shows "n \<notin> number ` (set (levels v ! l) \<union> set (levels v ! Suc l))"
proof -
  obtain A B where AB: "levels v = A @ levels v ! l # levels v ! Suc l # B" "length A = l"
    using split_at_pair [of l "levels v"] l version_for_length(1) [OF v] by auto
  have new: "(levels v)[l := [], Suc l := fs] = A @ [] # fs # B"
    by (subst AB(1)) (simp add: list_update_append AB(2))
  have nv: "version_numbers v = map number (concat A) @ map number (levels v ! l) @
      map number (levels v ! Suc l) @ map number (concat B)"
    unfolding version_numbers_def by (subst AB(1)) simp
  have old: "set (map number (levels v ! l)) \<union> set (map number (levels v ! Suc l)) \<subseteq> {..<next_file_number v}"
    "(set (map number (levels v ! l)) \<union> set (map number (levels v ! Suc l))) \<inter>
      (set (map number (concat A)) \<union> set (map number (concat B))) = {}"
    subgoal using v unfolding version_for_def nv by auto
    subgoal using v unfolding version_for_def nv by (intro distinct_middle) blast
    done
  have "n \<in> set (map number (concat A)) \<union> set (map number (concat B)) \<or> n \<in> number ` set fs"
    using n unfolding new by auto
  then show ?thesis
  proof
    assume "n \<in> number ` set fs"
    then have "next_file_number v \<le> n" using fs by auto
    then show ?thesis using old(1) by fastforce
  next
    assume "n \<in> set (map number (concat A)) \<union> set (map number (concat B))"
    with old(2) have "n \<notin> set (map number (levels v ! l)) \<union> set (map number (levels v ! Suc l))" by blast
    then show ?thesis by auto
  qed
qed

lemma compact_installed_disk:
  assumes "disk_tables w (db_path db) (db_version db) (db_tables db)"
    and "list_all2 (\<lambda>fm es. disk_table w (SSTablePath (db_path db) (number fm)) es) fs outs"
  shows "list_all2 (list_all2 (\<lambda>fm es. disk_table w (SSTablePath (db_path db) (number fm)) es))
    ((levels (db_version db))[l := [], Suc l := fs]) ((db_tables db)[l := [], Suc l := outs])"
  using assms unfolding disk_tables_def by (intro list_all2_update_cong) simp_all

lemma in_step_compact:
  assumes compact: "CompactLocked l db w = (s, db', w')" and ok: "db_ok db" and fits: "db_fits db"
    and room: "unat (db_next db) + db_count db + 1 < 2 ^ 64" and d: "in_step torn db w"
  shows "in_step torn db' w'"
proof (cases "Suc l < kMaxLevels")
  case False
  then show ?thesis using compact d by (simp add: CompactLocked_def)
next
  case l: True
  let ?p = "db_path db"
  have log: "wal_file (db_wal db) = None \<or> db_wal db = wal_opened (WalPath ?p) \<and> fget w (WalPath ?p) \<noteq> None"
    using d unfolding in_step_def by blast
  have room': "unat (db_next db) + length (compact_run (db_tables db) l) + 1 < 2 ^ 64"
    using room compact_run_length [OF ok l] by (simp add: db_count_def)
  from compact l ok fits room' show ?thesis
  proof (cases rule: CompactLocked_cases)
    case (stopped n)
    then have ch: "changes_only (table_paths ?p {db_next db..<n}) w w'" and le: "db_next db \<le> n"
      by (simp_all add: numbers_taken_def)
    obtain v tss opss tail where "recoverable_with w' ?p v tss opss tail" "tail \<in> {torn, []}" "store_view (replayed opss) tss = db_view db"
      "log_covers opss (db_memtable db)" "next_file_number v \<le> db_next db"
      "disk_tables w' ?p (db_version db) (db_tables db)" "fget w' (WalPath ?p) = fget w (WalPath ?p)"
      by (rule fresh_files [OF d ok ch]) simp
    then show ?thesis
      using log le bumped_ok(2) [OF ok le] unfolding stopped(2)
      by (intro in_stepI [of w' _ v tss opss tail]) (auto simp: disk_tables_def db_tables_def intro: order_trans)
  next
    case (installed n cs w2 outs s3 w3)
    have inv: "compact_inv db w n cs w2 outs" by fact
    then have ch: "changes_only (table_paths ?p {db_next db..<n}) w w2" and le: "db_next db \<le> n"
      by (simp_all add: compact_inv_def numbers_taken_def)
    obtain v tss opss tail where r2: "recoverable_with w2 ?p v tss opss tail" and T: "tail \<in> {torn, []}" and V: "store_view (replayed opss) tss = db_view db"
      and cov: "log_covers opss (db_memtable db)" and n: "next_file_number v \<le> db_next db"
      and t2: "disk_tables w2 ?p (db_version db) (db_tables db)"
      and l2: "fget w2 (WalPath ?p) = fget w (WalPath ?p)"
      by (rule fresh_files [OF d ok ch]) simp
    have tok: "tables_ok (db_tables db)" using ok by (simp add: db_ok_def version_for_def)
    have "total entry_weight (concat (concat (db_tables db))) < addressable"
      using fits by (simp add: db_fits_def db_total_def store_entries_def)
    from compact_run_ok [OF tok l this] have run: "run_ok (compact_run (db_tables db) l)" .
    note new = compact_installed_inv [OF ok l inv run installed(2), folded installed(3)]
    have fields: "db_path db' = ?p" "db_memtable db' = db_memtable db" "db_wal db' = db_wal db" "db_next db' = n"
      by (simp_all add: installed(3))
    have d2: "disk_tables w2 ?p (db_version db') (db_tables db')"
      unfolding disk_tables_def new(4) unfolding installed(3) compact_installed_simps
      using t2 inv by (intro compact_installed_disk) (simp_all add: compact_inv_def)
    note d3 = disk_tables_manifest [OF installed(4) d2]
    have l3: "fget w3 (WalPath ?p) = fget w (WalPath ?p)"
      using changes_only_fget [OF Version_Save_paths [OF installed(4)]] l2 by simp
    have nn: "next_file_number v \<le> n" using n le by (rule order_trans)
    show ?thesis
    proof (cases "Status_ok s3")
      case unsaved: False
      then have "recoverable_with w' ?p v tss opss tail"
        using unsaved_recoverable [OF r2 installed(4)] installed(5) by simp
      then show ?thesis
        using installed(5) unsaved T V cov nn d3 l3 log new(2)
        by (intro in_stepI [of w' _ v tss opss tail]) (auto simp: fields)
    next
      case saved: True
      have vf: "version_for (db_version db') (db_tables db')" using new(1) by (simp add: db_ok_def)
      have "length (concat (concat (db_tables db'))) < 2 ^ 32"
        using db_tables_count [OF db_fits_mono [OF fits new(3)]] by simp
      note vok = Version_ok_for [OF vf this]
      have view: "store_view (db_memtable db) (db_tables db') = db_view db"
        using new(2) by (simp add: db_view_def fields)
      note sv = saved_recoverable [OF r2 V installed(4) saved refl refl vf vok d2 cov view]
      let ?old = "number ` (set (levels (db_version db) ! l) \<union> set (levels (db_version db) ! Suc l))"
      have rm: "changes_only (table_paths ?p ?old) w3 w'" using installed(6) [OF saved] by blast
      have v0: "version_for (db_version db) (db_tables db)" using ok by (simp add: db_ok_def)
      have apart: "m \<notin> ?old" if "m \<in> set (version_numbers (db_version db'))" for m
        by (rule compact_numbers_apart [OF v0 l, of "cs_files cs"])
          (use inv that in \<open>auto simp: compact_inv_def installed(3) version_numbers_def\<close>)
      have "recoverable_with w' ?p (db_version db') (db_tables db') opss tail"
        using sv(1) rm by (rule recoverable_with_frame) (use apart in simp_all)
      moreover have "disk_tables w' ?p (db_version db') (db_tables db')"
        using d3 rm by (rule disk_tables_frame) (use apart in simp)
      moreover have "fget w' (WalPath ?p) = fget w (WalPath ?p)"
        using changes_only_fget [OF rm] l3 by simp
      ultimately show ?thesis
        using sv(2) T cov log new(2)
        by (intro in_stepI [where v = "db_version db'" and tss = "db_tables db'" and opss = opss and tail = tail]) (simp_all add: fields)
    qed
  qed
qed

section \<open>Operations\<close>

interpretation durability: maintenance_invariant "in_step torn" for torn
proof
  show "in_step torn db' w'" if "FlushMemTableLocked db w = (s, db', w')" "db_ok db" "db_fits db"
    "unat (db_next db) + 1 < 2 ^ 64" "in_step torn db w" for db w s db' w'
    using that by (rule in_step_flush)
  show "in_step torn db' w'" if "CompactLocked l db w = (s, db', w')" "db_ok db" "db_fits db"
    "unat (db_next db) + db_count db + 1 < 2 ^ 64" "in_step torn db w" for l db w s db' w'
    using that by (rule in_step_compact)
qed (simp_all add: in_step_def db_view_def db_tables_def)

lemma durable_write:
  assumes serv: "serving db" and ops: "batch_ok ops" and cap: "capacity (applied ops db)" and d: "durable db w"
    and wr: "DB_Write opts (batch_of ops) db w = Some (s, db', w')"
  shows "Status_ok s \<Longrightarrow> durable db' w'"
    "\<exists>V\<in>event_views (EvWrite ops s) (db_view db). recoverable w' (db_path db) V"
proof -
  have ok: "db_ok db" "\<not> db_closed db" "0 < l0_compaction_trigger (db_options db)"
    and trigger: "background_compaction (db_options db) \<or> 0 < l0_compaction_trigger (db_options db)"
    using serv by (simp_all add: serving_def)
  obtain s1 w1 where log: "WriteAheadLog_AddRecord (db_wal db) (rep (batch_of ops))
      (sync opts \<or> sync_writes (db_options db)) w = (s1, w1)" by fastforce
  note app = durable_append [OF d ops log]
  have "(Status_ok s \<longrightarrow> durable db' w') \<and> (\<exists>V\<in>event_views (EvWrite ops s) (db_view db). recoverable w' (db_path db) V)"
  proof (cases "Status_ok s1")
    case False
    then have "s = s1" "w' = w1"
      using wr log ok(2) batch_not_empty [OF ops] by (simp_all add: DB_Write_def)
    then show ?thesis using False app(2) by simp
  next
    case True
    have "durable db' w' \<and> db_path db' = db_path db \<and> db_view db' = ops_view ops (db_view db)"
    proof (cases "background_compaction (db_options db)")
      case bg: True
      then have "db' = (applied ops db)\<lparr>bg_work_requested := True, bg_idle := False\<rparr>" "w' = w1"
        using wr log ok(2) batch_not_empty [OF ops] True by (simp_all add: DB_Write_def ApplyBatchLocked_ok [OF ops])
      then show ?thesis using app(1) [OF True] by (simp add: durability.flags applied_view)
    next
      case fg: False
      then have m: "MaybeFlushLocked (applied ops db) w1 = Some (s, db', w')"
        using wr log ok(2) batch_not_empty [OF ops] True by (simp add: DB_Write_def ApplyBatchLocked_ok [OF ops])
      have aok: "db_ok (applied ops db)" and tr: "0 < l0_compaction_trigger (db_options (applied ops db))"
        using applied_ok [OF ok(1) ops] ok(3) by simp_all
      have "durable db' w'" by (rule durability.through_MaybeFlush [OF aok cap tr app(1) [OF True] m])
      then show ?thesis
        using MaybeFlush_total [OF aok cap tr, of w1] m by (auto simp: same_store_def applied_view)
    qed
    then show ?thesis using durable_recoverable [of db' w'] by auto
  qed
  then show "Status_ok s \<Longrightarrow> durable db' w'"
    "\<exists>V\<in>event_views (EvWrite ops s) (db_view db). recoverable w' (db_path db) V" by blast+
qed

text \<open>
  Every event of a run keeps the directory in step; a write whose status is an error may leave torn
  bytes in the log, after which only recoverability is claimed.
\<close>

fun acknowledged :: "db_event \<Rightarrow> bool" where
  "acknowledged (EvWrite ops s) \<longleftrightarrow> Status_ok s"
| "acknowledged _ \<longleftrightarrow> True"

lemma in_step_begin: "in_step torn (DB_Close_begin db) w = in_step torn db w"
  by (simp add: DB_Close_begin_def durability.flags(4))

text \<open>The events that write nothing to the log.\<close>

fun maintenance :: "db_event \<Rightarrow> bool" where
  "maintenance (EvWrite ops s) \<longleftrightarrow> False"
| "maintenance _ \<longleftrightarrow> True"

lemma in_step_maintained:
  assumes st: "db_step (db, w) ev (db', w')" and serv: "serving db" and d: "in_step torn db w" and m: "maintenance ev"
  shows "in_step torn db' w'" "db_path db' = db_path db" "db_view db' = db_view db"
proof -
  have ok: "db_ok db" "0 < l0_compaction_trigger (db_options db)" using serv by (simp_all add: serving_def)
  have "in_step torn db' w' \<and> db_path db' = db_path db \<and> db_view db' = db_view db"
    using st
  proof (cases rule: db_step.cases)
    case (step_flush s)
    then show ?thesis
      using durability.through_flush [OF ok(1) step_flush(2) ok(2) d step_flush(3)]
        flush_then_compact [OF ok(1) step_flush(2) ok(2), of w] by (auto simp: same_store_def)
  next
    case step_background
    then show ?thesis
      using durability.through_background [OF ok(1) step_background(2) ok(2) d step_background(4)]
        Background_total [OF ok(1) step_background(2) ok(2), of w] by (auto simp: same_store_def)
  next
    case step_closing
    then show ?thesis using d ok(1) Close_begin_same [of db] by (simp add: in_step_begin same_store_def)
  qed (use m in simp)
  then show "in_step torn db' w'" "db_path db' = db_path db" "db_view db' = db_view db" by blast+
qed

lemma durable_step:
  assumes st: "db_step (db, w) ev (db', w')" and serv: "serving db" and d: "durable db w"
  shows "acknowledged ev \<Longrightarrow> durable db' w'" "db_path db' = db_path db"
    "\<exists>V\<in>event_views ev (db_view db). recoverable w' (db_path db) V"
proof -
  have ok: "db_ok db" "\<not> db_closed db"
    "background_compaction (db_options db) \<or> 0 < l0_compaction_trigger (db_options db)"
    using serv by (simp_all add: serving_def)
  have "(acknowledged ev \<longrightarrow> durable db' w') \<and> db_path db' = db_path db \<and>
    (\<exists>V\<in>event_views ev (db_view db). recoverable w' (db_path db) V)"
  proof (cases "maintenance ev")
    case True
    note mt = in_step_maintained [OF st serv d True]
    then have "recoverable w' (db_path db) (db_view db)" using durable_recoverable [of db' w'] by simp
    with mt True show ?thesis by (cases ev) simp_all
  next
    case False
    then obtain ops s where ev: "ev = EvWrite ops s" by (cases ev) simp_all
    from st [unfolded ev] obtain opts where wr: "batch_ok ops" "capacity (applied ops db)"
      "DB_Write opts (batch_of ops) db w = Some (s, db', w')" by (auto elim: db_step_writeE)
    obtain s1 w1 where log: "WriteAheadLog_AddRecord (db_wal db) (rep (batch_of ops))
      (sync opts \<or> sync_writes (db_options db)) w = (s1, w1)" by fastforce
    from ok(1,2) wr(1,2) ok(3) log have "db_path db' = db_path db"
      by (cases rule: DB_Write_cases) (use wr(3) in \<open>auto simp: same_store_def\<close>)
    then show ?thesis using durable_write [OF serv wr(1,2) d wr(3)] by (simp add: ev)
  qed
  then show "acknowledged ev \<Longrightarrow> durable db' w'" "db_path db' = db_path db"
    "\<exists>V\<in>event_views ev (db_view db). recoverable w' (db_path db) V" by blast+
qed

lemma durable_run:
  "db_run st evs st' \<Longrightarrow> serving (fst st) \<Longrightarrow> durable (fst st) (snd st) \<Longrightarrow> list_all acknowledged evs \<Longrightarrow>
    durable (fst st') (snd st') \<and> db_path (fst st') = db_path (fst st)"
proof (induction rule: db_run.induct)
  case (run_step st ev st' evs st'')
  obtain db w db1 w1 where st: "st = (db, w)" "st' = (db1, w1)" by fastforce
  have s: "db_step (db, w) ev (db1, w1)" "serving db" "durable db w"
    using run_step.hyps(1) run_step.prems by (simp_all add: st)
  have "durable db1 w1" "db_path db1 = db_path db" "serving db1"
    using durable_step(1,2) [OF s] db_step_inv [OF s(1)] s(2) run_step.prems(3) by simp_all
  then show ?case using run_step.IH run_step.prems(3) by (simp add: st)
qed simp

lemma db_run_snoc:
  "db_run st evs st' \<Longrightarrow> db_step st' ev st'' \<Longrightarrow> db_run st (evs @ [ev]) st''"
  by (induction rule: db_run.induct) (auto intro: db_run.intros)

lemma run_views_append: "run_views (evs @ evs') V = (\<Union>V'\<in>run_views evs V. run_views evs' V')"
  by (induction evs arbitrary: V) auto

text \<open>Wherever the last step of a run is cut off, the directory recovers to a view the history allows.\<close>

lemma crash_recoverable:
  assumes run: "db_run (db, w) evs (db1, w1)" and last: "db_step (db1, w1) ev (db2, w2)"
    and "serving db" and "durable db w" and "list_all acknowledged evs"
  shows "\<exists>V\<in>run_views (evs @ [ev]) (db_view db). recoverable w2 (db_path db) V"
proof -
  have "durable db1 w1" "db_path db1 = db_path db" "serving db1" "db_view db1 \<in> run_views evs (db_view db)"
    using durable_run [OF run] db_run_inv [OF run] assms(3-5) by simp_all
  then show ?thesis
    using durable_step(3) [OF last] by (auto simp: run_views_append)
qed

section \<open>Close\<close>

lemma in_step_save:
  assumes save: "Version_Save (db_version db) (ManifestPath (db_path db)) w = (s, w')" and d: "in_step torn db w"
    and ok: "db_ok db" and count: "length (concat (concat (db_tables db))) < 2 ^ 32"
  shows "in_step torn db w'"
proof -
  let ?p = "db_path db"
  obtain v tss opss tail where r: "recoverable_with w ?p v tss opss tail" and T: "tail \<in> {torn, []}" and V: "store_view (replayed opss) tss = db_view db"
    and cov: "log_covers opss (db_memtable db)" and n: "next_file_number v \<le> db_next db"
    and t: "disk_tables w ?p (db_version db) (db_tables db)"
    and log: "wal_file (db_wal db) = None \<or> db_wal db = wal_opened (WalPath ?p) \<and> fget w (WalPath ?p) \<noteq> None"
    using d by (rule in_stepE)
  have l: "fget w' (WalPath ?p) = fget w (WalPath ?p)"
    using Version_Save_paths [OF save] by (rule changes_only_fget) simp
  note t' = disk_tables_manifest [OF save t]
  show ?thesis
  proof (cases "Status_ok s")
    case False
    from unsaved_recoverable [OF r save False] T V cov n t' show ?thesis
      by (rule in_stepI) (use log l in simp)
  next
    case True
    have vf: "version_for (db_version db) (db_tables db)" using ok by (simp add: db_ok_def)
    have view: "store_view (db_memtable db) (db_tables db) = db_view db" by (simp add: db_view_def)
    note sv = saved_recoverable [OF r V save True refl refl vf Version_ok_for [OF vf count] t cov view]
    from sv(1) T sv(2) cov order_refl t' show ?thesis by (rule in_stepI) (use log l in simp)
  qed
qed

lemma in_step_closed_log:
  assumes "in_step torn db w" and "changes_only {} w w'" and "wal_file log = None"
  shows "in_step torn (db\<lparr>db_wal := log, db_closed := c\<rparr>) w'"
proof -
  have same: "fget w' p = fget w p" for p using assms(2) by (simp add: changes_only_fget)
  obtain v tss opss tail where r: "recoverable_with w (db_path db) v tss opss tail" and T: "tail \<in> {torn, []}"
    and rest: "store_view (replayed opss) tss = db_view db" "log_covers opss (db_memtable db)"
      "next_file_number v \<le> db_next db" and t: "disk_tables w (db_path db) (db_version db) (db_tables db)"
    using assms(1) by (rule in_stepE)
  have "recoverable_with w' (db_path db) v tss opss tail" using r assms(2) by (rule recoverable_with_frame) simp_all
  moreover have "disk_tables w' (db_path db) (db_version db) (db_tables db)" using t assms(2) by (rule disk_tables_frame) simp
  ultimately show ?thesis
    using rest T assms(3) by (intro in_stepI [of w' _ v tss opss tail]) (simp_all add: db_view_def db_tables_def)
qed

lemma flush_tables_count:
  assumes flush: "FlushMemTableLocked db w = (s, db', w')" and ok: "db_ok db" and fits: "db_fits db"
  shows "length (concat (concat (db_tables db'))) < 2 ^ 32"
proof (cases "MemTable_is_empty (db_memtable db)")
  case True
  then show ?thesis using flush db_tables_count [OF fits] by (simp add: FlushMemTableLocked_def)
next
  case False
  have mem: "mem_ok (db_memtable db)" using ok by (simp add: db_ok_def)
  have small: "total entry_weight (memtable_entries_of (db_memtable db)) < addressable"
    using fits by (intro mem_fits) (simp add: db_fits_def)
  from flush False mem small show ?thesis
  proof (cases rule: FlushMemTableLocked_cases)
    case early
    then show ?thesis using db_tables_count [OF fits] by (simp add: db_tables_def)
  next
    case (installed sz r w3 s4 w4)
    then show ?thesis
      using flush_installed_count [OF ok fits installed(1), of sz] by (cases "Status_ok s4") auto
  qed
qed

text \<open>After the flush inside \<open>Close\<close> the rest of it keeps whatever that flush has achieved.\<close>

lemma in_step_finish_flushed:
  assumes cl: "DB_Close_finish db w = (s, db', w')" and ok: "db_ok db" and cap: "capacity db"
    and fl: "FlushMemTableLocked (db\<lparr>bg_running := False\<rparr>) w = (s1, db1, w1)" and d1: "in_step torn db1 w1"
  shows "in_step torn db' w' \<and> db_path db' = db_path db \<and> db_view db' = db_view db"
proof -
  let ?db = "db\<lparr>bg_running := False\<rparr>"
  obtain s2 log w2 where wc: "WriteAheadLog_Close (db_wal db1) w1 = (s2, log, w2)" by (metis prod_cases3)
  obtain s3 w3 where sv: "Version_Save (db_version db1) (ManifestPath (db_path db1)) w2 = (s3, w3)" by fastforce
  let ?db1 = "db1\<lparr>db_wal := log, db_closed := True\<rparr>"
  have eq: "db' = ?db1" "w' = w3" using cl fl wc sv by (simp_all add: DB_Close_finish_def Let_def)
  have pre: "db_ok ?db" "db_fits ?db" "unat (db_next ?db) + 1 < 2 ^ 64"
    using ok cap by (simp_all add: capacity_def db_fits_def db_total_def db_tables_def)
  note inv = FlushMemTableLocked_inv [OF fl pre]
  have "in_step torn ?db1 w2"
    using d1 WriteAheadLog_Close_frame [OF wc] by (intro in_step_closed_log) blast+
  moreover have "db_ok ?db1" using inv(1) by simp
  moreover have "length (concat (concat (db_tables ?db1))) < 2 ^ 32"
    using flush_tables_count [OF fl pre(1,2)] by (simp add: db_tables_def)
  ultimately have "in_step torn ?db1 w3" using sv by (rule_tac in_step_save [of ?db1 w2 s3]) simp_all
  then show ?thesis using inv(2,6) eq by simp
qed

lemma in_step_finish:
  assumes cl: "DB_Close_finish db w = (s, db', w')" and ok: "db_ok db" and cap: "capacity db" and d: "in_step torn db w"
  shows "in_step torn db' w'" "db_path db' = db_path db" "db_view db' = db_view db"
proof -
  let ?db = "db\<lparr>bg_running := False\<rparr>"
  obtain s1 db1 w1 where fl: "FlushMemTableLocked ?db w = (s1, db1, w1)" by (metis prod_cases3)
  have "db_ok ?db" "db_fits ?db" "unat (db_next ?db) + 1 < 2 ^ 64" "in_step torn ?db w"
    using ok cap d durability.flags(3) by (simp_all add: capacity_def db_fits_def db_total_def db_tables_def)
  from in_step_finish_flushed [OF cl ok cap fl in_step_flush [OF fl this]]
  show "in_step torn db' w'" "db_path db' = db_path db" "db_view db' = db_view db" by blast+
qed

lemma in_step_close:
  assumes "DB_Close db w = (s, db', w')" and "db_ok db" and "capacity db" and "in_step torn db w"
  shows "in_step torn db' w'" "db_path db' = db_path db" "db_view db' = db_view db"
  using assms in_step_finish [of "DB_Close_begin db" w s db' w' torn] Close_begin_same [of db]
  by (auto simp: DB_Close_def in_step_begin same_store_def split: if_splits)

end
