(* ===== verification/Reopen.thy ===== *)
theory Reopen
  imports Recovery
begin

text \<open>
  \<open>DB::Open\<close> on a directory that a process left behind, in a world without further faults: the sweep
  removes only files that the manifest does not name, every live table gets a reader for its entries, the
  log is replayed into the memtable, and the database has the recovered view.
\<close>

section \<open>The sweep\<close>

text \<open>A database directory named without a trailing separator.\<close>

definition dir_name :: "path \<Rightarrow> bool" where
  "dir_name p \<longleftrightarrow> p \<noteq> [] \<and> last p \<noteq> CHR ''/''"

lemma path_append_dir: "dir_name p \<Longrightarrow> path_append p name = p @ ''/'' @ name"
  by (simp add: path_append_def dir_name_def)

lemma path_extensions [simp]: "path_extension ''MANIFEST'' = []" "path_extension ''CURRENT.wal'' = ''.wal''"
  "path_extension [] = []"
  by (simp_all add: path_extension_def Let_def)

definition live_paths :: "path \<Rightarrow> Version \<Rightarrow> path list" where
  "live_paths dbp v = map (\<lambda>fm. SSTablePath dbp (number fm)) (concat (levels v))"

lemma fs_list_names: "name \<in> set (fs_list p w) \<Longrightarrow> CHR ''/'' \<notin> set name"
  by (auto simp: fs_list_def Let_def)

text \<open>The table files the sweep may remove.\<close>

definition sweepable :: "path \<Rightarrow> path list \<Rightarrow> path set" where
  "sweepable p live = {canon (p @ ''/'' @ name) | name. plain_name name \<and> path_extension name = ''.sst'' \<and>
      p @ ''/'' @ name \<notin> set live}"

text \<open>The loop of the sweep over the names it was given.\<close>

definition sweep :: "path \<Rightarrow> path list \<Rightarrow> string list \<Rightarrow> world \<Rightarrow> world" where
  "sweep p live = fold (\<lambda>name w. if path_extension name = ''.sst'' \<and> path_append p name \<notin> set live
     then fremove (path_append p name) w else w)"

lemma sweep_simps [simp]:
  "sweep p live [] w = w"
  "sweep p live (name # names) w = sweep p live names
     (if path_extension name = ''.sst'' \<and> path_append p name \<notin> set live
      then fremove (path_append p name) w else w)"
  by (simp_all add: sweep_def)

lemma Open_sweep_eq:
  "Open_sweep db w =
    (if fs_exists (db_path db) w
     then case fs_directory_iterator (db_path db) w of
       (names, w1) \<Rightarrow> sweep (db_path db) (live_paths (db_path db) (db_version db)) names w1
     else w)"
  by (simp add: Open_sweep_def sweep_def live_paths_def Let_def)

lemma sweep_frame:
  assumes "dir_name p" and "\<forall>name\<in>set names. CHR ''/'' \<notin> set name"
  shows "changes_only (sweepable p live) w (sweep p live names w)"
  using assms(2)
proof (induction names arbitrary: w)
  case (Cons name names)
  let ?w1 = "if path_extension name = ''.sst'' \<and> path_append p name \<notin> set live
      then fremove (path_append p name) w else w"
  have "canon (path_append p name) \<in> sweepable p live"
    if "path_extension name = ''.sst''" "path_append p name \<notin> set live"
    using that Cons.prems path_append_dir [OF assms(1), of name] unfolding sweepable_def plain_name_def
    by (cases "name = []") auto
  then have "changes_only (sweepable p live) w ?w1"
    using fremove_frame [of "path_append p name" w] by (auto elim!: changes_only_mono)
  then show ?case using Cons.IH [of ?w1] Cons.prems by (auto intro: changes_only_trans)
qed simp

lemma Open_sweep_frame:
  assumes "dir_name (db_path db)"
  shows "changes_only (sweepable (db_path db) (live_paths (db_path db) (db_version db))) w (Open_sweep db w)"
proof (cases "fs_exists (db_path db) w")
  case True
  obtain names w1 where it: "fs_directory_iterator (db_path db) w = (names, w1)" by fastforce
  have "set names \<subseteq> set (fs_list (db_path db) w1)"
    using it by (auto simp: fs_directory_iterator_def split: prod.splits fault.splits)
  then have "\<forall>name\<in>set names. CHR ''/'' \<notin> set name" using fs_list_names by blast
  from changes_only_trans [OF io_frameD(8) [OF it] sweep_frame [OF assms this]] show ?thesis
    using True it by (simp add: Open_sweep_eq)
qed (simp add: Open_sweep_eq)

lemma sweep_calm: "calm w \<Longrightarrow> calm (sweep p live names w)"
  by (induction names arbitrary: w) simp_all

lemma Open_sweep_calm: "calm w \<Longrightarrow> calm (Open_sweep db w)"
  by (simp add: Open_sweep_eq sweep_calm)

text \<open>The sweep spares the manifest, the log and every table the manifest names, whatever fails.\<close>

lemma sweepable_spares:
  shows "canon (ManifestPath p) \<notin> sweepable p (live_paths p v)" "canon (WalPath p) \<notin> sweepable p (live_paths p v)"
    "n \<in> set (version_numbers v) \<Longrightarrow> canon (SSTablePath p n) \<notin> sweepable p (live_paths p v)"
proof -
  have names: "name = m" if "canon (p @ ''/'') @ m = canon (p @ ''/'' @ name)" "plain_name name" for name m
    using that canon_under [OF that(2), of p] by simp
  then show "canon (ManifestPath p) \<notin> sweepable p (live_paths p v)" "canon (WalPath p) \<notin> sweepable p (live_paths p v)"
    unfolding canon_paths sweepable_def by fastforce+
  assume n: "n \<in> set (version_numbers v)"
  show "canon (SSTablePath p n) \<notin> sweepable p (live_paths p v)"
  proof
    assume "canon (SSTablePath p n) \<in> sweepable p (live_paths p v)"
    then obtain name where "canon (p @ ''/'') @ table_name n = canon (p @ ''/'' @ name)"
      and name: "plain_name name" "p @ ''/'' @ name \<notin> set (live_paths p v)" unfolding canon_paths sweepable_def by blast
    then have "p @ ''/'' @ name = SSTablePath p n"
      using names [of "table_name n" name] by (simp add: SSTablePath_def table_name_def)
    with n name(2) show False by (auto simp: live_paths_def version_numbers_def)
  qed
qed

lemma Open_sweep_recoverable:
  assumes r: "recoverable_with w p v tss opss tail" and "dir_name p" and "db_path db = p" and "db_version db = v"
  shows "recoverable_with (Open_sweep db w) p v tss opss tail"
  using r Open_sweep_frame [of db w] by (rule recoverable_with_frame) (use assms sweepable_spares in simp_all)

section \<open>Readers and log\<close>

lemma Open_level_calm:
  assumes "calm w" and "list_all2 (\<lambda>fm es. disk_table w (SSTablePath p (number fm)) es) fms tabs"
  shows "\<exists>rs'. Open_level p fms rs w = (Status_OK, rs @ rs', w) \<and> list_all2 reader_for rs' tabs"
  using assms(2)
proof (induction arbitrary: rs rule: list_all2_induct)
  case (Cons fm fms es tabs)
  then obtain filt bits where t: "table_ok es" and f: "BloomFilter_Build (map e_key es) bits = Some filt"
    "table_fits es filt" and d: "fget w (SSTablePath p (number fm)) = Some (table_bytes es filt)"
    by (auto simp: disk_table_def)
  have "SSTableReader_Open (SSTablePath p (number fm)) w = (Status_OK, table_reader (SSTablePath p (number fm)) es filt, w)"
    using t f(2) Build_nonempty [OF f(1)] assms(1) d by (rule SSTableReader_Open_calm)
  moreover have "reader_for (table_reader (SSTablePath p (number fm)) es filt) es"
    using t f by (auto simp: reader_for_def)
  ultimately show ?case
    using Cons.IH [of "rs @ [table_reader (SSTablePath p (number fm)) es filt]"] by auto
qed simp

lemma Open_levels_calm:
  assumes "calm w"
    and "list_all2 (list_all2 (\<lambda>fm es. disk_table w (SSTablePath p (number fm)) es)) fmss tss"
  shows "\<exists>rss'. Open_levels p fmss rss w = (Status_OK, rss @ rss', w) \<and> list_all2 (list_all2 reader_for) rss' tss"
  using assms(2)
proof (induction arbitrary: rss rule: list_all2_induct)
  case (Cons fms fmss tabs tss)
  from Open_level_calm [OF assms(1) Cons.hyps(1), of "[]"]
  obtain rs where "Open_level p fms [] w = (Status_OK, rs, w)" "list_all2 reader_for rs tabs" by auto
  then show ?case using Cons.IH [of "rss @ [rs]"] by auto
qed simp

lemma replay_record_batch: "batch_ok ops \<Longrightarrow> replay_record mt (rep (batch_of ops)) = mem_apply ops mt"
  by (simp add: replay_record_def WriteBatch_SetData_def Iterate_state rep_batch_of ops_of_encoded batch_ok_def)

lemma replay_batches:
  "list_all batch_ok opss \<Longrightarrow>
    fold (\<lambda>r s. replay_record s r) (map (\<lambda>ops. rep (batch_of ops)) opss) mt = mem_apply (concat opss) mt"
  by (induction opss arbitrary: mt) (simp_all add: replay_record_batch)

lemma replay_log:
  assumes "list_all batch_ok opss" and "wal_records tail = []"
  shows "fold (\<lambda>r s. replay_record s r) (wal_records (log_of opss @ tail)) MemTable_empty = replayed opss"
proof -
  have "wal_records (log_of opss @ tail) = map (\<lambda>ops. rep (batch_of ops)) opss"
    using wal_records_intact [of "map (\<lambda>ops. rep (batch_of ops)) opss" tail] assms
    by (simp add: log_of_def comp_def list_all_iff batch_ok_def)
  then show ?thesis using replay_batches [OF assms(1)] by (simp add: replayed_def)
qed

section \<open>Open\<close>

text \<open>The object \<open>Open\<close> hands out.\<close>

definition opened :: "Options \<Rightarrow> path \<Rightarrow> Version \<Rightarrow> SSTableReader list list \<Rightarrow> MemTable \<Rightarrow> DB" where
  "opened options p v rss mt = (DB_new options p)
     \<lparr>db_version := v, db_readers := rss, db_memtable := mt, db_wal := wal_opened (WalPath p),
      bg_running := background_compaction options\<rparr>"

lemma opened_simps [simp]:
  "db_path (opened options p v rss mt) = p" "db_options (opened options p v rss mt) = options"
  "db_version (opened options p v rss mt) = v" "db_readers (opened options p v rss mt) = rss"
  "db_memtable (opened options p v rss mt) = mt" "db_wal (opened options p v rss mt) = wal_opened (WalPath p)"
  "\<not> db_closed (opened options p v rss mt)"
  by (simp_all add: opened_def DB_new_def)

lemma Version_Load_disk:
  assumes "disk_version w p v" and "calm w"
  shows "\<exists>s. Version_Load Version_new (ManifestPath p) w = (s, v, w) \<and> (Status_ok s \<or> Status_IsNotFound s)"
  using assms(1) unfolding disk_version_def
proof
  assume "fget w (ManifestPath p) = Some (Save_bytes v) \<and> Version_ok v"
  then show ?thesis using Version_Load_calm [of v w "ManifestPath p" Version_new] assms(2) by simp
next
  assume "fget w (ManifestPath p) = None \<and> v = Version_new"
  then show ?thesis using assms(2) by (simp add: Version_Load_def)
qed

lemma Open_object_calm:
  assumes r: "recoverable_with w p v tss opss tail" and w: "calm w" and p: "dir_name p"
  obtains rss w' where "list_all2 (list_all2 reader_for) rss tss" "calm w'"
    "recoverable_with w' p v tss opss tail" "fget w' (WalPath p) = Some (log_of opss @ tail)"
    "\<And>existed. Open_object existed (DB_new options p) w =
       (if existed then (Status_OK, Some (opened options p v rss (replayed opss)), w')
        else (Status_OK, Some (opened options p v rss (replayed opss)), snd (Version_Save v (ManifestPath p) w')))"
proof -
  obtain s where load: "Version_Load Version_new (ManifestPath p) w = (s, v, w)" and s: "Status_ok s \<or> Status_IsNotFound s"
    using Version_Load_disk [OF _ w] r unfolding recoverable_with_def by blast
  let ?db1 = "(DB_new options p)\<lparr>db_version := v\<rparr>"
  let ?w2 = "Open_sweep ?db1 w"
  have dbp: "db_path ?db1 = p" "db_version ?db1 = v" "db_path (DB_new options p) = p"
    "db_version (DB_new options p) = Version_new" "db_memtable (DB_new options p) = MemTable_empty"
    "db_options (DB_new options p) = options"
    by (simp_all add: DB_new_def)
  have w2: "calm ?w2" using w by (rule Open_sweep_calm)
  have r2: "recoverable_with ?w2 p v tss opss tail" using r p dbp(1,2) by (rule Open_sweep_recoverable)
  from w2 r2 obtain rss where lv: "Open_levels p (levels v) [] ?w2 = (Status_OK, rss, ?w2)"
    and rss: "list_all2 (list_all2 reader_for) rss tss"
    using Open_levels_calm [of ?w2 p "levels v" tss "[]"] by (auto simp: recoverable_with_def disk_tables_def)
  have logd: "the_default [] (fget ?w2 (WalPath p)) = log_of opss @ tail"
    and bok: "list_all batch_ok opss" "wal_records tail = []"
    using r2 by (simp_all add: recoverable_with_def)
  have rep: "WriteAheadLog_ReplayAll (WalPath p) replay_record MemTable_empty ?w2 = (Status_OK, replayed opss, ?w2)"
    using WriteAheadLog_ReplayAll_calm [OF w2, of "WalPath p" replay_record MemTable_empty]
    by (simp add: logd replay_log [OF bok])
  let ?w5 = "if fget ?w2 (WalPath p) = None then fset (WalPath p) [] ?w2 else ?w2"
  have op: "WriteAheadLog_Open WriteAheadLog_new (WalPath p) ?w2 = (Status_OK, wal_opened (WalPath p), ?w5)"
    using w2 by (simp add: WriteAheadLog_Open_def WriteAheadLog_new_def wal_opened_def)
  have l5: "fget ?w5 (WalPath p) = Some (log_of opss @ tail)" using logd by auto
  have "changes_only {canon (WalPath p)} ?w2 ?w5" using WriteAheadLog_Open_frame [OF op] .
  then have r5: "recoverable_with ?w5 p v tss opss tail"
    using r2 l5 bok by (rule_tac recoverable_with_log [OF r2]) simp_all
  have w5: "calm ?w5" using w2 by simp
  obtain w6 where save: "Version_Save v (ManifestPath p) ?w5 = (Status_OK, w6)" using Version_Save_calm [OF w5] by blast
  show thesis
  proof (rule that [OF rss w5 r5 l5])
    fix existed
    have go_on: "(\<not> Status_ok s \<and> \<not> Status_IsNotFound s) = False" using s by blast
    show "Open_object existed (DB_new options p) w =
       (if existed then (Status_OK, Some (opened options p v rss (replayed opss)), ?w5)
        else (Status_OK, Some (opened options p v rss (replayed opss)), snd (Version_Save v (ManifestPath p) ?w5)))"
      using load lv rep op save
      by (simp add: Open_object_def dbp opened_def Let_def go_on del: de_Morgan_disj)
  qed
qed

lemma mem_ok_replayed: "list_all batch_ok opss \<Longrightarrow> mem_ok (replayed opss)"
  unfolding replayed_def
  by (rule mem_ok_apply) (auto simp: mem_ok_def memtable_entries_of_def MemTable_empty_def MemTable_ok_def
      list_all_iff batch_ok_def)

text \<open>Readers for the tables of a version and a memtable replayed from good batches make a well-formed object.\<close>

lemma opened_view:
  fixes options :: Options and p :: path
  assumes rss: "list_all2 (list_all2 reader_for) rss tss" and "version_for v tss" and "list_all batch_ok opss"
  defines "db \<equiv> opened options p v rss (replayed opss)"
  shows "db_tables db = tss" "db_ok db" "db_view db = store_view (replayed opss) tss"
proof -
  show t: "db_tables db = tss"
    using rss unfolding db_tables_def db_def opened_simps
  proof (induction rule: list_all2_induct)
    case (Cons rs rss ts tss)
    from Cons.hyps(1) have "map reader_entries rs = ts"
      by (induction rule: list_all2_induct) (simp_all add: reader_entries_for)
    with Cons show ?case by simp
  qed simp
  have "list_all (list_all (\<lambda>r. reader_for r (reader_entries r))) rss"
    using rss
  proof (induction rule: list_all2_induct)
    case (Cons rs rss ts tss)
    from Cons.hyps(1) have "list_all (\<lambda>r. reader_for r (reader_entries r)) rs"
      by (induction rule: list_all2_induct) (auto dest: reader_entries_for)
    with Cons show ?case by simp
  qed simp
  then show "db_ok db" using assms(2,3) mem_ok_replayed by (simp add: db_ok_def t) (simp add: db_def)
  show "db_view db = store_view (replayed opss) tss" by (simp add: db_view_def t) (simp add: db_def)
qed

lemma opened_ok:
  fixes options :: Options
  assumes rss: "list_all2 (list_all2 reader_for) rss tss" and r: "recoverable_with w p v tss opss tail"
  defines "db \<equiv> opened options p v rss (replayed opss)"
  shows "db_tables db = tss" "db_ok db" "db_view db = store_view (replayed opss) tss"
    "fget w (WalPath p) \<noteq> None \<Longrightarrow> in_step tail db w"
proof -
  have "version_for v tss" "list_all batch_ok opss" using r by (simp_all add: recoverable_with_def)
  note V = opened_view [OF rss this, of options p, folded db_def]
  show "db_tables db = tss" "db_ok db" "db_view db = store_view (replayed opss) tss" by (rule V)+
  assume "fget w (WalPath p) \<noteq> None"
  with r V(1,3) show "in_step tail db w"
    by (intro in_stepI [of w db v tss opss tail]) (simp_all add: db_def recoverable_with_def log_covers_def)
qed

text \<open>Opening after any end of the previous process.\<close>

lemma DB_Open_recovers:
  assumes r: "recoverable_with w p v tss opss tail" and p: "dir_name p" and opts: "\<not> error_if_exists options"
  obtains rss w' where "DB_Open options p (reboot [] w) = (Status_OK, Some (opened options p v rss (replayed opss)), w')"
    "list_all2 (list_all2 reader_for) rss tss" "calm w'" "recoverable_with w' p v tss opss tail"
    "fget w' (WalPath p) = Some (log_of opss @ tail)"
proof -
  have r': "recoverable_with (reboot [] w) p v tss opss tail"
    using r by (simp add: recoverable_with_def disk_version_def disk_tables_def disk_table_def reboot_def fget_def)
  have "fs_exists p (reboot [] w)" using r' by (simp add: fs_exists_def recoverable_with_def)
  moreover obtain rss w' where "list_all2 (list_all2 reader_for) rss tss" "calm w'"
    "recoverable_with w' p v tss opss tail" "fget w' (WalPath p) = Some (log_of opss @ tail)"
    "Open_object True (DB_new options p) (reboot [] w) = (Status_OK, Some (opened options p v rss (replayed opss)), w')"
    by (rule Open_object_calm [OF r' _ p, of options]) auto
  ultimately show thesis using opts by (intro that [of rss w']) (simp_all add: DB_Open_def)
qed

text \<open>
  The new object is in step with the directory it was opened from. After an orderly end, or a crash outside
  an append, the log has no torn bytes and appending can go on.
\<close>

lemma reopen_recovers:
  assumes "recovers torn w p V" and p: "dir_name p" and opts: "\<not> error_if_exists options"
  obtains db' w' where "DB_Open options p (reboot [] w) = (Status_OK, Some db', w')"
    "db_ok db'" "db_view db' = V" "\<not> db_closed db'" "db_options db' = options" "db_path db' = p"
    "in_step torn db' w'" "calm w'"
proof -
  obtain v tss opss tail where r: "recoverable_with w p v tss opss tail" and T: "tail \<in> {torn, []}"
    and V: "store_view (replayed opss) tss = V"
    using assms(1) unfolding recovers_def by blast
  from r p opts show thesis
  proof (rule DB_Open_recovers)
    fix rss w'
    assume o: "DB_Open options p (reboot [] w) = (Status_OK, Some (opened options p v rss (replayed opss)), w')"
      and rss: "list_all2 (list_all2 reader_for) rss tss" and "calm w'" and r': "recoverable_with w' p v tss opss tail"
      and l: "fget w' (WalPath p) = Some (log_of opss @ tail)"
    note ok = opened_ok(2-4) [OF rss r', of options]
    have "in_step torn (opened options p v rss (replayed opss)) w'"
      using ok(3) l T in_step_fewer by auto
    then show thesis using ok(1,2) V \<open>calm w'\<close> by (intro that [OF o]) simp_all
  qed
qed

lemma reopen_recoverable:
  assumes "recoverable w p V" and "dir_name p" and "\<not> error_if_exists options"
  obtains db' w' where "DB_Open options p (reboot [] w) = (Status_OK, Some db', w')"
    "db_ok db'" "db_view db' = V" "\<not> db_closed db'" "db_options db' = options" "db_path db' = p" "calm w'"
  using assms reopen_recovers unfolding recovers_recoverable [symmetric] by metis

lemma reopen_in_step:
  assumes "in_step torn db w" and "dir_name (db_path db)" and "\<not> error_if_exists options"
  obtains db' w' where "DB_Open options (db_path db) (reboot [] w) = (Status_OK, Some db', w')"
    "db_ok db'" "db_view db' = db_view db" "\<not> db_closed db'" "db_options db' = options" "db_path db' = db_path db"
    "in_step torn db' w'" "calm w'"
  using in_step_recovers [OF assms(1)] assms(2,3) by (rule reopen_recovers)

section \<open>A new database\<close>

text \<open>Nothing is there yet: no directory, and no database files under its name.\<close>

definition vacant :: "world \<Rightarrow> path \<Rightarrow> bool" where
  "vacant w p \<longleftrightarrow> \<not> fs_exists p w \<and> fget w (ManifestPath p) = None \<and> fget w (WalPath p) = None"

lemma version_for_new: "version_for Version_new (replicate kMaxLevels [])"
  by (auto simp: version_for_def Version_new_def tables_ok_def version_numbers_def list_all2_conv_all_nth
      list_all_length level_sorted_def)

lemma recoverable_vacant:
  assumes "vacant w p"
  shows "recoverable_with (w\<lparr>dirs := canon_dir p # dirs w\<rparr>) p Version_new (replicate kMaxLevels []) [] []"
  using assms version_for_new
  by (simp add: recoverable_with_def vacant_def disk_version_def disk_tables_def fget_def Version_new_def
      list_all2_conv_all_nth)

lemma DB_Open_vacant:
  assumes vac: "vacant w p" and w: "calm w" and p: "dir_name p" and opts: "create_if_missing options"
  obtains db' w' where "DB_Open options p w = (Status_OK, Some db', w')" "db_ok db'" "db_view db' = Map.empty"
    "\<not> db_closed db'" "db_options db' = options" "db_path db' = p" "durable db' w'" "calm w'"
    "db_memtable db' = MemTable_empty" "db_tables db' = replicate kMaxLevels []" "db_version db' = Version_new"
    "db_wal db' = wal_opened (WalPath p)"
proof -
  let ?w1 = "w\<lparr>dirs := canon_dir p # dirs w\<rparr>"
  have mk: "fs_create_directories p w = (True, ?w1)" using w by (simp add: fs_create_directories_def)
  have w1: "calm ?w1" using w by (simp add: calm_def)
  from recoverable_vacant [OF vac] w1 p show thesis
  proof (rule Open_object_calm)
    fix rss w'
    let ?db = "opened options p Version_new rss (replayed [])"
    assume rss: "list_all2 (list_all2 reader_for) rss (replicate kMaxLevels [])" and w': "calm w'"
      and r: "recoverable_with w' p Version_new (replicate kMaxLevels []) [] []"
      and l: "fget w' (WalPath p) = Some (log_of [] @ [])"
      and op: "\<And>existed. Open_object existed (DB_new options p) ?w1 =
       (if existed then (Status_OK, Some ?db, w')
        else (Status_OK, Some ?db, snd (Version_Save Version_new (ManifestPath p) w')))"
    note ok = opened_ok [OF rss r, of options]
    obtain w2 where save: "Version_Save Version_new (ManifestPath p) w' = (Status_OK, w2)" and w2: "calm w2"
      using Version_Save_calm [OF w'] by blast
    have "db_view ?db = Map.empty"
      unfolding ok(3) by (auto simp: store_view_def store_lookup_def tables_lookup_concat replayed_def fun_eq_iff map_add_def)
    moreover have "durable ?db w2"
      using save ok(1,2,4) l by (rule_tac in_step_save [of ?db w' Status_OK]) simp_all
    moreover have "DB_Open options p w = (Status_OK, Some ?db, w2)"
      using vac opts mk op [of False] save by (simp add: DB_Open_def vacant_def)
    ultimately show thesis using ok(1,2) w2 by (rule_tac that [of ?db w2]) (simp_all add: replayed_def)
  qed
qed

end
