(* ===== verification/Open_Faults.thy ===== *)
theory Open_Faults
  imports Reopen
begin

text \<open>
  What \<open>DB::Open\<close> does when it gives up. The object has been constructed by then, so its destructor runs
  \<open>Close\<close>, which saves the version read so far over the manifest: one unreadable manifest and the next
  \<open>Open\<close> finds an empty database and sweeps its tables. And a directory named with a trailing
  separator makes the sweep take every table for an orphan.
\<close>

section \<open>The destructor after a failed open\<close>

text \<open>An object that never got as far as a memtable or a log.\<close>

definition unstarted :: "DB \<Rightarrow> bool" where
  "unstarted db \<longleftrightarrow> MemTable_is_empty (db_memtable db) \<and> wal_file (db_wal db) = None \<and> \<not> db_closed db"

lemma DB_destroy_unstarted:
  "unstarted db \<Longrightarrow> DB_destroy db w = snd (Version_Save (db_version db) (ManifestPath (db_path db)) w)"
  by (simp add: unstarted_def DB_destroy_def DB_Close_def DB_Close_finish_def DB_Close_begin_def FlushMemTableLocked_def WriteAheadLog_Close_def Let_def
      split: prod.splits)

lemma unstarted_new [simp]: "unstarted ((DB_new options p)\<lparr>db_version := v\<rparr>)"
  "unstarted ((DB_new options p)\<lparr>db_version := v, db_readers := rss\<rparr>)"
  by (simp_all add: unstarted_def DB_new_def MemTable_is_empty_def MemTable_empty_def WriteAheadLog_new_def)

lemma DB_new_fields [simp]:
  "db_path (DB_new options p) = p" "db_version (DB_new options p) = Version_new"
  "db_memtable (DB_new options p) = MemTable_empty" "db_options (DB_new options p) = options"
  by (simp_all add: DB_new_def)

text \<open>Any error while reading the manifest but its absence.\<close>

lemma Open_object_load_error:
  assumes "Version_Load Version_new (ManifestPath p) w = (s, v, w1)" and "\<not> Status_ok s" "\<not> Status_IsNotFound s"
  shows "Open_object existed (DB_new options p) w = (s, None, snd (Version_Save v (ManifestPath p) w1))"
  using assms DB_destroy_unstarted [of "(DB_new options p)\<lparr>db_version := v\<rparr>"]
  by (simp add: Open_object_def Open_fail_def)

lemma Version_Load_read_error:
  assumes "\<not> crashed w" and "faults w = Fail # fs"
  shows "Version_Load v mp w = (Status_IOError (mp @ '': '' @ strerror EIO), v, w\<lparr>faults := fs\<rparr>)"
  using assms by (simp add: Version_Load_def fopen_rb_def next_fault_def)

text \<open>The directory after a manifest has been replaced by an empty one.\<close>

lemma recoverable_with_emptied:
  assumes r: "recoverable_with w p v tss opss tail"
    and save: "Version_Save Version_new (ManifestPath p) w = (Status_OK, w')"
  shows "recoverable_with w' p Version_new (replicate kMaxLevels []) opss tail"
proof -
  note ch = Version_Save_paths [OF save]
  have "fget w' (WalPath p) = fget w (WalPath p)" using ch by (rule changes_only_fget) simp
  moreover have "fget w' (ManifestPath p) = Some (Save_bytes Version_new)"
    using save by (auto elim: Version_Save_cases)
  moreover have "Version_ok Version_new" using version_for_new by (rule Version_ok_for) simp
  moreover have "disk_tables w' p Version_new (replicate kMaxLevels [])"
    by (simp add: disk_tables_def Version_new_def list_all2_conv_all_nth)
  ultimately show ?thesis
    using r version_for_new by (simp add: recoverable_with_def disk_version_def changes_only_dirs [OF ch])
qed

lemma recoverable_with_reboot:
  "recoverable_with (reboot fs w) p v tss opss tail = recoverable_with w p v tss opss tail"
  by (simp add: recoverable_with_def disk_version_def disk_tables_def disk_table_def reboot_def fget_def)

lemma failed_open_empties:
  assumes r: "recoverable_with w p v tss opss tail" and opts: "\<not> error_if_exists options"
  obtains m w1 where "DB_Open options p (reboot [Fail] w) = (Status_IOError m, None, w1)"
    "recoverable_with w1 p Version_new (replicate kMaxLevels []) opss tail"
proof -
  let ?w = "reboot [Fail] w" and ?wc = "(reboot [Fail] w)\<lparr>faults := []\<rparr>"
  have ex: "fs_exists p ?w" using r by (simp add: fs_exists_def recoverable_with_def reboot_def)
  have w: "\<not> crashed ?w" "faults ?w = [Fail]" by (simp_all add: reboot_def)
  have w0: "?wc = reboot [] w" by (simp add: reboot_def)
  have "calm ?wc" unfolding w0 by (rule calm_reboot)
  then obtain w1 where save: "Version_Save Version_new (ManifestPath p) ?wc = (Status_OK, w1)"
    using Version_Save_calm by blast
  have "recoverable_with ?wc p v tss opss tail" using r by (simp add: w0 recoverable_with_reboot)
  from recoverable_with_emptied [OF this save]
  have "recoverable_with w1 p Version_new (replicate kMaxLevels []) opss tail" .
  moreover have "DB_Open options p ?w = (Status_IOError (ManifestPath p @ '': '' @ strerror EIO), None, w1)"
    using ex opts Open_object_load_error [OF Version_Load_read_error [OF w, of Version_new "ManifestPath p"]] save
    by (simp add: DB_Open_def)
  ultimately show thesis by (rule_tac that)
qed

section \<open>A trailing separator\<close>

lemma canon_slash: "canon (d @ ''/'' @ ''/'' @ s) = canon (d @ ''/'' @ s)"
  by (induction d rule: canon.induct) simp_all

lemma slashed_paths:
  "canon (ManifestPath (d @ ''/'')) = canon (ManifestPath d)" "canon (WalPath (d @ ''/'')) = canon (WalPath d)"
  "canon (SSTablePath (d @ ''/'') n) = canon (SSTablePath d n)"
  using canon_slash [of d] by (simp_all add: ManifestPath_def WalPath_def SSTablePath_def)

lemma ZeroPad_no_dot: "CHR ''.'' \<notin> set (ZeroPad n)"
proof -
  have "(char_of (48 + d :: nat) :: char) \<noteq> CHR ''.''" if "d < 10" for d
  proof
    assume "(char_of (48 + d :: nat) :: char) = CHR ''.''"
    then have "of_char (char_of (48 + d :: nat) :: char) = (of_char (CHR ''.'') :: nat)" by simp
    with of_char_digit [OF that] show False by simp
  qed
  then have "CHR ''.'' \<notin> set (dec_digits m)" for m
    using dec_digits_digits [of m] by (force simp del: char_of_nat)
  then show ?thesis by (simp add: ZeroPad_def Let_def)
qed

lemma ZeroPad_nonempty: "ZeroPad n \<noteq> []"
  by (simp add: ZeroPad_def Let_def) (subst dec_digits.simps, simp)

lemma path_extension_table [simp]: "path_extension (table_name n) = ''.sst''"
proof -
  have "dropWhile (\<lambda>c. c \<noteq> CHR ''.'') (rev (table_name n)) = CHR ''.'' # rev (ZeroPad n)"
    by (simp add: table_name_def)
  then show ?thesis
    using ZeroPad_nonempty [of n] by (simp add: path_extension_def table_name_def)
qed

text \<open>The names differ by one separator, so no table in the directory counts as live.\<close>

lemma sweep_keeps_absent: "calm w \<Longrightarrow> fget w q = None \<Longrightarrow> fget (sweep p live names w) q = None"
  by (induction names arbitrary: w) simp_all

lemma sweep_removes:
  assumes "calm w" and "name \<in> set names" and ext: "path_extension name = ''.sst''" "path_append p name \<notin> set live"
  shows "fget (sweep p live names w) (path_append p name) = None"
  using assms(1,2)
proof (induction names arbitrary: w)
  case (Cons n names)
  then show ?case
    using ext by (cases "n = name") (simp_all add: sweep_keeps_absent)
qed simp

lemma sweep_slashed:
  assumes "calm w" and "db_path db = d @ ''/''" and "fs_exists (d @ ''/'') w"
  shows "fget (Open_sweep db w) (SSTablePath d n) = None"
proof (cases "fget w (SSTablePath d n)")
  case None
  then show ?thesis using assms by (simp add: Open_sweep_eq sweep_keeps_absent)
next
  case (Some data)
  let ?pre = "canon (d @ ''/'')"
  have pre: "canon ((d @ ''/'') @ ''/'') = ?pre" using canon_slash [of d "[]"] by simp
  have "?pre @ table_name n \<in> fst ` set (files w)"
    using Some map_of_SomeD [of "files w"] by (force simp: fget_def canon_paths)
  moreover have "CHR ''/'' \<notin> set (table_name n)" using plain_names(1) by (simp add: plain_name_def)
  ultimately have "table_name n \<in> set (fs_list (d @ ''/'') w)"
    unfolding fs_list_def Let_def pre by force
  moreover have "path_append (d @ ''/'') (table_name n) = SSTablePath d n"
    by (simp add: path_append_def SSTablePath_def table_name_def)
  moreover have "SSTablePath d n \<notin> set (live_paths (d @ ''/'') (db_version db))"
  proof
    assume "SSTablePath d n \<in> set (live_paths (d @ ''/'') (db_version db))"
    then obtain m where "ZeroPad n @ ''.sst'' = CHR ''/'' # ZeroPad m @ ''.sst''" by (auto simp: SSTablePath_def live_paths_def)
    then have "CHR ''/'' \<in> set (ZeroPad n)" using ZeroPad_nonempty [of n] by (cases "ZeroPad n") auto
    then show False by (simp add: ZeroPad_no_slash)
  qed
  ultimately show ?thesis
    using sweep_removes [OF assms(1), of "table_name n" "fs_list (d @ ''/'') w" "d @ ''/''"] assms
    by (simp add: Open_sweep_eq)
qed

text \<open>
  So the sweep deletes the tables the manifest names, opening a reader for one of them fails, and the
  database cannot be opened any more under either name.
\<close>

lemma SSTableReader_Open_missing:
  "calm w \<Longrightarrow> fget w path = None \<Longrightarrow> \<exists>s r. SSTableReader_Open path w = (s, r, w) \<and> \<not> Status_ok s"
  by (simp add: SSTableReader_Open_def)

lemma Open_levels_missing:
  assumes "calm w" and "\<forall>n. fget w (SSTablePath p n) = None" and "concat fmss \<noteq> []"
  shows "\<exists>s rss'. Open_levels p fmss rss w = (s, rss', w) \<and> \<not> Status_ok s"
  using assms(3)
proof (induction fmss arbitrary: rss)
  case (Cons fms fmss)
  show ?case
  proof (cases fms)
    case Nil
    then show ?thesis using Cons by simp
  next
    case (Cons fm rest)
    then show ?thesis
      using SSTableReader_Open_missing [OF assms(1), of "SSTablePath p (number fm)"] assms(2) by auto
  qed
qed simp

lemma canon_dir_slash: "dir_name d \<Longrightarrow> canon_dir (d @ ''/'') = canon_dir d"
proof -
  assume d: "dir_name d"
  have last: "last (canon xs) = last xs" "canon xs \<noteq> []" if "xs \<noteq> []" for xs
    using that by (induction xs rule: canon.induct) auto
  have "canon (d @ ''/'') = canon d @ ''/''"
    using d unfolding dir_name_def by (induction d rule: canon.induct) (auto split: if_splits)
  moreover have "canon d \<noteq> []" "last (canon d) \<noteq> CHR ''/''" using d last [of d] by (auto simp: dir_name_def)
  ultimately show ?thesis by (simp add: canon_dir_def Let_def)
qed

lemma trailing_separator_destroys:
  assumes r: "recoverable_with w d v tss opss tail" and d: "dir_name d" and some: "concat (levels v) \<noteq> []"
    and opts: "\<not> error_if_exists options"
  obtains s w' where "DB_Open options (d @ ''/'') (reboot [] w) = (s, None, w')" "\<not> Status_ok s"
    "\<And>n. fget w' (SSTablePath d n) = None" "fget w' (ManifestPath d) = Some (Save_bytes v)"
proof -
  let ?p = "d @ ''/''" and ?wr = "reboot [] w"
  have r': "recoverable_with ?wr d v tss opss tail" using r by (simp add: recoverable_with_reboot)
  then have man: "fget ?wr (ManifestPath d) = Some (Save_bytes v)" "Version_ok v"
    using some by (auto simp: recoverable_with_def disk_version_def Version_new_def)
  have load: "Version_Load Version_new (ManifestPath ?p) ?wr = (Status_OK, v, ?wr)"
    using man slashed_paths(1) [of d] by (intro Version_Load_calm) (simp_all add: fget_def)
  have ex: "fs_exists ?p ?wr"
    using r' canon_dir_slash [OF d] by (simp add: fs_exists_def recoverable_with_def)
  let ?db1 = "(DB_new options ?p)\<lparr>db_version := v\<rparr>"
  let ?ws = "Open_sweep ?db1 ?wr"
  have ws: "calm ?ws" using ex Open_sweep_eq [of ?db1 ?wr] by (simp add: sweep_calm)
  have gone: "fget ?ws (SSTablePath d n) = None" for n
    using ex by (intro sweep_slashed) simp_all
  then have "\<forall>n. fget ?ws (SSTablePath ?p n) = None" using slashed_paths(3) [of d] by (simp add: fget_def)
  from Open_levels_missing [OF ws this some, of "[]"] obtain s rss
    where lv: "Open_levels ?p (levels v) [] ?ws = (s, rss, ?ws)" and s: "\<not> Status_ok s" by blast
  obtain w' where save: "Version_Save v (ManifestPath ?p) ?ws = (Status_OK, w')"
    using Version_Save_calm [OF ws] by blast
  have "DB_destroy (?db1\<lparr>db_readers := rss\<rparr>) ?ws = w'"
    using DB_destroy_unstarted [of "?db1\<lparr>db_readers := rss\<rparr>"] save by simp
  then have "DB_Open options ?p ?wr = (s, None, w')"
    using ex opts load lv s by (simp add: DB_Open_def Open_object_def Open_fail_def Let_def)
  moreover have "fget w' (SSTablePath d n) = None" for n
    using changes_only_fget [OF Version_Save_paths [OF save], of "SSTablePath d n"] gone [of n]
      paths_apart(4) [of ?p n] by (simp add: slashed_paths)
  moreover have "fget w' (ManifestPath d) = Some (Save_bytes v)"
    using save slashed_paths(1) [of d] by (auto elim!: Version_Save_cases simp: fget_def)
  ultimately show thesis using s by (intro that)
qed

end
