(* ===== verification/Open_Outcomes.thy ===== *)
theory Open_Outcomes
  imports Open_Faults
begin

text \<open>
  \<open>DB::Open\<close> on a recoverable directory under any schedule of faults. When it reports success, every table
  has its reader and the log has been replayed up to some batch, the whole log unless its read came back
  short. When the only fault is the death of the process, wherever it happens, the directory still
  recovers to the same view, so that recovery may be cut off any number of times.
\<close>

section \<open>Schedules\<close>

text \<open>No call fails or comes back short, but the process may die inside any of them.\<close>

definition only_crashes :: "world \<Rightarrow> bool" where
  "only_crashes w \<longleftrightarrow> (\<forall>f\<in>set (faults w). f = NoFault \<or> (\<exists>n. f = Crash n))"

definition no_short :: "world \<Rightarrow> bool" where
  "no_short w \<longleftrightarrow> (\<forall>n. Short n \<notin> set (faults w))"

lemma only_crashes_no_short: "only_crashes w \<Longrightarrow> no_short w"
  by (fastforce simp: only_crashes_def no_short_def)

lemma schedule_used:
  assumes "changes_only P w w'"
  shows "only_crashes w \<Longrightarrow> only_crashes w'" "no_short w \<Longrightarrow> no_short w'"
  using changes_only_faults [OF assms] by (auto simp: only_crashes_def no_short_def)

lemma fopen_rb_no_short:
  assumes "no_short w" and "fopen_rb p w = (Inr f, w1)"
  shows "\<exists>d. fget w p = Some d \<and> f = \<lparr>rf_size = length d, rf_data = d\<rparr>"
  using assms
  by (rule_tac next_fault_cases [of w])
    (auto simp: fopen_rb_def no_short_def split: fault.splits option.splits)

text \<open>In such a world a call succeeds or the process is dead.\<close>

lemma only_crashes_calls:
  assumes w: "only_crashes w"
  shows "fopen_rb p w = (x, w1) \<Longrightarrow> crashed w1 \<or>
      x = (case fget w p of None \<Rightarrow> Inl ENOENT | Some d \<Rightarrow> Inr \<lparr>rf_size = length d, rf_data = d\<rparr>)"
    and "fopen_ab p w = (y, w1) \<Longrightarrow> crashed w1 \<or> y = Inr ()"
    and "fopen_wb p w = (y, w1) \<Longrightarrow> crashed w1 \<or> y = Inr ()"
    and "fwrite p d w = (n, w1) \<Longrightarrow> crashed w1 \<or> n = length d"
    and "fsync_call w = (b, w1) \<Longrightarrow> crashed w1 \<or> b"
    and "frename p q w = (b, w1) \<Longrightarrow> fget w p \<noteq> None \<Longrightarrow> crashed w1 \<or> b"
  using w
  by (rule_tac next_fault_cases [of w],
      auto simp: fopen_rb_def fopen_ab_def fopen_wb_def fwrite_def fsync_call_def frename_def only_crashes_def
        split: fault.splits option.splits)+

section \<open>A log read only in part\<close>

lemma next_record_take:
  assumes "next_record (take n d) = Some (r, rest)"
  shows "\<exists>rest'. next_record d = Some (r, rest') \<and> rest = take (n - (8 + length r)) rest'"
proof -
  have n: "8 \<le> n" using assms by (auto simp: next_record_def Let_def split: if_splits)
  have h: "take 4 (drop 4 (take n d)) = take 4 (drop 4 d)" "take 8 (take n d) = take 8 d"
    "drop 8 (take n d) = take (n - 8) (drop 8 d)"
    using n by (simp_all add: drop_take)
  from assms show ?thesis
    unfolding next_record_def Let_def h
    by (auto simp: drop_take min_def split: if_splits)
qed

lemma wal_records_take: "\<exists>m. wal_records (take n d) = take m (wal_records d)"
proof (induction d arbitrary: n rule: length_induct)
  case (1 d)
  show ?case
  proof (cases "next_record (take n d)")
    case None
    then show ?thesis by (intro exI [of _ 0]) (simp add: wal_records_step [of "take n d"])
  next
    case (Some x)
    then obtain r rest where "next_record (take n d) = Some (r, rest)" by (cases x) auto
    moreover from next_record_take [OF this] obtain rest'
      where x: "next_record d = Some (r, rest')" and rest: "rest = take (n - (8 + length r)) rest'" by blast
    moreover obtain m where "wal_records (take (n - (8 + length r)) rest') = take m (wal_records rest')"
      using "1.IH" next_record_shorter [OF x] by blast
    ultimately show ?thesis
      by (intro exI [of _ "Suc m"]) (simp add: wal_records_step [of "take n d"] wal_records_step [of d])
  qed
qed

lemma wal_records_log:
  assumes "list_all batch_ok opss" and "wal_records tail = []"
  shows "wal_records (log_of opss @ tail) = map (\<lambda>ops. rep (batch_of ops)) opss"
  using wal_records_intact [of "map (\<lambda>ops. rep (batch_of ops)) opss" tail] assms
  by (simp add: log_of_def comp_def list_all_iff batch_ok_def)

text \<open>Whatever the device delivers, the memtable is rebuilt from the first batches of the log.\<close>

lemma replay_outcome:
  assumes r: "recoverable_with w p v tss opss tail"
    and rep: "WriteAheadLog_ReplayAll (WalPath p) replay_record MemTable_empty w = (s, mt, w')"
  shows "changes_only P w w'" and "only_crashes w \<Longrightarrow> crashed w' \<or> Status_ok s"
    and "\<not> Status_ok s \<Longrightarrow> mt = MemTable_empty"
    and "Status_ok s \<Longrightarrow> \<exists>n. mt = replayed (take n opss) \<and> (no_short w \<longrightarrow> n = length opss)"
proof -
  have log: "the_default [] (fget w (WalPath p)) = log_of opss @ tail" and bok: "list_all batch_ok opss"
    and tail: "wal_records tail = []"
    using r by (simp_all add: recoverable_with_def)
  note recs = wal_records_log [OF bok tail]
  obtain x where o: "fopen_rb (WalPath p) w = (x, w')"
    using rep by (auto simp: WriteAheadLog_ReplayAll_def split: prod.splits sum.splits errno.splits)
  show "changes_only P w w'" using o by (rule io_frameD(3))
  show "only_crashes w \<Longrightarrow> crashed w' \<or> Status_ok s" "\<not> Status_ok s \<Longrightarrow> mt = MemTable_empty"
    using rep o only_crashes_calls(1) [OF _ o]
    by (auto simp: WriteAheadLog_ReplayAll_def split: sum.splits errno.splits option.splits)
  assume ok: "Status_ok s"
  show "\<exists>n. mt = replayed (take n opss) \<and> (no_short w \<longrightarrow> n = length opss)"
  proof (cases x)
    case (Inl e)
    then have "e = ENOENT" and mt: "mt = MemTable_empty"
      using rep o ok by (auto simp: WriteAheadLog_ReplayAll_def split: errno.splits)
    then have "log_of opss @ tail = []" using log fopen_rb_ENOENT [of "WalPath p" w w'] o Inl by simp
    then have "opss = []" using recs by simp
    then show ?thesis using mt by (simp add: replayed_def)
  next
    case (Inr f)
    obtain n where f: "rf_data f = take n (log_of opss @ tail)"
      using fopen_rb_ok [of "WalPath p" w f w'] o log Inr by auto
    have mt: "mt = fold (\<lambda>r s. replay_record s r) (wal_records (rf_data f)) MemTable_empty"
      using rep o Inr by (simp add: WriteAheadLog_ReplayAll_def ReplayAll_loop_fold)
    obtain m where "wal_records (rf_data f) = take m (map (\<lambda>ops. rep (batch_of ops)) opss)"
      using wal_records_take [of n "log_of opss @ tail"] unfolding f recs by blast
    moreover have "list_all batch_ok (take m opss)" using bok by (auto simp: list_all_iff dest: in_set_takeD)
    ultimately have m: "mt = replayed (take m opss)"
      using replay_batches [of "take m opss" MemTable_empty] mt by (simp add: take_map replayed_def)
    moreover have "mt = replayed opss" if "no_short w"
      using fopen_rb_no_short [OF that, of "WalPath p" f w'] o Inr log mt recs replay_batches [OF bok, of MemTable_empty]
      by (auto simp: replayed_def)
    ultimately show ?thesis by (metis order_refl take_all)
  qed
qed

section \<open>Manifest, tables and log file\<close>

lemma Load_files_status: "Load_files mp n p fs = (s, fs', p') \<Longrightarrow> \<not> Status_IsNotFound s"
  by (induction n arbitrary: p fs) (auto simp: Let_def split: if_splits option.splits)

lemma Load_levels_status: "Load_levels mp n p lvls = (s, lvls') \<Longrightarrow> \<not> Status_IsNotFound s"
  by (induction n arbitrary: p lvls) (auto split: if_splits prod.splits dest: Load_files_status)

lemma load_outcome:
  assumes d: "disk_version w p v" and load: "Version_Load Version_new (ManifestPath p) w = (s, v', w')"
  shows "Status_ok s \<or> Status_IsNotFound s \<Longrightarrow> v' = v"
    and "only_crashes w \<Longrightarrow> crashed w' \<or> Status_ok s \<or> Status_IsNotFound s"
proof -
  obtain x where o: "fopen_rb (ManifestPath p) w = (x, w')"
    using load by (auto simp: Version_Load_def Let_def split: prod.splits sum.splits errno.splits if_splits)
  show "v' = v" if ok: "Status_ok s \<or> Status_IsNotFound s"
  proof (cases "Status_ok s")
    case True
    then show ?thesis
      using d load Version_Load_ok [of v w "ManifestPath p" Version_new s v' w']
        Version_Load_missing [of w "ManifestPath p" Version_new s v' w'] by (auto simp: disk_version_def)
  next
    case False
    then have "x = Inl ENOENT"
      using ok o load by (auto simp: Version_Load_def Load_body_def Let_def split: sum.splits errno.splits if_splits prod.splits
          dest!: Load_levels_status)
    then show ?thesis
      using d o load fopen_rb_ENOENT [of "ManifestPath p" w w'] by (auto simp: disk_version_def Version_Load_def)
  qed
  show "crashed w' \<or> Status_ok s \<or> Status_IsNotFound s" if "only_crashes w"
    using d only_crashes_calls(1) [OF that o] o load Version_Load_image [of v "ManifestPath p" w w' Version_new]
    by (auto simp: disk_version_def Version_Load_def)
qed

lemma SSTableReader_Open_outcome:
  assumes "disk_table w q es" and op: "SSTableReader_Open q w = (s, r, w')"
  shows "Status_ok s \<Longrightarrow> reader_for r es" and "only_crashes w \<Longrightarrow> crashed w' \<or> Status_ok s"
proof -
  obtain filt bits where t: "table_ok es" and f: "BloomFilter_Build (map e_key es) bits = Some filt"
    "table_fits es filt" and d: "fget w q = Some (table_bytes es filt)"
    using assms(1) by (auto simp: disk_table_def)
  note ne = Build_nonempty [OF f(1)]
  show "reader_for r es" if "Status_ok s"
    using SSTableReader_Open_ok [OF t f(2) ne d op that] t f by (auto simp: reader_for_def)
  show "crashed w' \<or> Status_ok s" if w: "only_crashes w"
  proof -
    obtain x w1 where o: "fopen_rb q w = (x, w1)" by fastforce
    from only_crashes_calls(1) [OF w this] show ?thesis
    proof
      assume "crashed w1"
      then have "crashed w'"
        using op o by (auto simp: SSTableReader_Open_def Let_def abort_process_def split: sum.splits if_splits option.splits)
      then show ?thesis ..
    next
      assume "x = (case fget w q of None \<Rightarrow> Inl ENOENT | Some d \<Rightarrow> Inr \<lparr>rf_size = length d, rf_data = d\<rparr>)"
      then show ?thesis using op o SSTableReader_Open_image [OF t f(2) ne, of q w w1] d by simp
    qed
  qed
qed

lemma Open_level_outcome:
  assumes "list_all2 (\<lambda>fm es. disk_table w (SSTablePath p (number fm)) es) fms tabs"
    and "Open_level p fms rs w = (s, rs', w')"
  shows "changes_only {} w w' \<and> (only_crashes w \<longrightarrow> crashed w' \<or> Status_ok s) \<and>
    (Status_ok s \<longrightarrow> (\<exists>rs''. rs' = rs @ rs'' \<and> list_all2 reader_for rs'' tabs))"
  using assms
proof (induction fms tabs arbitrary: rs w rule: list_induct2')
  case (4 fm fms es tabs)
  obtain s1 r w1 where o: "SSTableReader_Open (SSTablePath p (number fm)) w = (s1, r, w1)" by (metis prod_cases3)
  have d: "disk_table w (SSTablePath p (number fm)) es" using "4.prems"(1) by simp
  note out = SSTableReader_Open_outcome [OF d o]
  have ch: "changes_only {} w w1" using o by (rule SSTableReader_Open_frame)
  show ?case
  proof (cases "Status_ok s1")
    case False
    then show ?thesis using "4.prems"(2) o ch out(2) by auto
  next
    case True
    have "list_all2 (\<lambda>fm es. disk_table w1 (SSTablePath p (number fm)) es) fms tabs"
      using "4.prems"(1) disk_table_frame [OF ch] by (auto elim: list_all2_mono)
    moreover have "Open_level p fms (rs @ [r]) w1 = (s, rs', w')" using "4.prems"(2) o True by simp
    ultimately show ?thesis
      using "4.IH" [of w1 "rs @ [r]"] out(1) [OF True] changes_only_trans [OF ch] schedule_used(1) [OF ch]
      by (auto simp: list_all2_Cons2)
  qed
qed auto

lemma Open_levels_outcome:
  assumes "list_all2 (list_all2 (\<lambda>fm es. disk_table w (SSTablePath p (number fm)) es)) fmss tss"
    and "Open_levels p fmss rss w = (s, rss', w')"
  shows "changes_only {} w w' \<and> (only_crashes w \<longrightarrow> crashed w' \<or> Status_ok s) \<and>
    (Status_ok s \<longrightarrow> (\<exists>rss''. rss' = rss @ rss'' \<and> list_all2 (list_all2 reader_for) rss'' tss))"
  using assms
proof (induction fmss tss arbitrary: rss w rule: list_induct2')
  case (4 fms fmss tabs tss)
  obtain s1 rs w1 where o: "Open_level p fms [] w = (s1, rs, w1)" by (metis prod_cases3)
  from "4.prems"(1) have "list_all2 (\<lambda>fm es. disk_table w (SSTablePath p (number fm)) es) fms tabs" by simp
  note out = Open_level_outcome [OF this o]
  then have ch: "changes_only {} w w1" by simp
  show ?case
  proof (cases "Status_ok s1")
    case False
    then show ?thesis using "4.prems"(2) o ch out by auto
  next
    case True
    have "list_all2 (list_all2 (\<lambda>fm es. disk_table w1 (SSTablePath p (number fm)) es)) fmss tss"
      using "4.prems"(1) disk_table_frame [OF ch] by (auto elim!: list_all2_mono)
    moreover have "Open_levels p fmss (rss @ [rs]) w1 = (s, rss', w')" using "4.prems"(2) o True by simp
    ultimately show ?thesis
      using "4.IH" [of w1 "rss @ [rs]"] out True changes_only_trans [OF ch] schedule_used(1) [OF ch]
      by (auto simp: list_all2_Cons2)
  qed
qed auto

lemma log_open_outcome:
  assumes r: "recoverable_with w p v tss opss tail"
    and op: "WriteAheadLog_Open WriteAheadLog_new (WalPath p) w = (s, log, w')"
  shows "recoverable_with w' p v tss opss tail" and "changes_only {canon (WalPath p)} w w'"
    and "only_crashes w \<Longrightarrow> crashed w' \<or> Status_ok s"
    and "Status_ok s \<Longrightarrow> log = wal_opened (WalPath p) \<and> fget w' (WalPath p) = Some (log_of opss @ tail)"
proof -
  have logd: "the_default [] (fget w (WalPath p)) = log_of opss @ tail" "list_all batch_ok opss" "wal_records tail = []"
    using r by (simp_all add: recoverable_with_def)
  show ch: "changes_only {canon (WalPath p)} w w'" using op by (rule WriteAheadLog_Open_frame)
  have "the_default [] (fget w' (WalPath p)) = log_of opss @ tail"
    using logd(1) WriteAheadLog_Open_ok [OF op] WriteAheadLog_Open_fail [OF op] by (cases "Status_ok s") auto
  with logd show "recoverable_with w' p v tss opss tail" by (intro recoverable_with_log [OF r ch])
  show "log = wal_opened (WalPath p) \<and> fget w' (WalPath p) = Some (log_of opss @ tail)" if "Status_ok s"
    using WriteAheadLog_Open_ok [OF op that] logd by simp
  show "crashed w' \<or> Status_ok s" if "only_crashes w"
    using op only_crashes_calls(2) [OF that, of "WalPath p"]
    by (auto simp: WriteAheadLog_Open_def WriteAheadLog_new_def split: prod.splits sum.splits)
qed

lemma Version_Save_only_crashes:
  assumes "Version_Save v mp w = (s, w')" and "only_crashes w"
  shows "crashed w' \<or> Status_ok s"
proof (rule ccontr)
  let ?t = "mp @ ''.tmp''"
  assume *: "\<not> (crashed w' \<or> Status_ok s)"
  obtain x w1 where w1: "fopen_wb ?t w = (x, w1)" by fastforce
  obtain n w2 where w2: "fwrite ?t (Save_bytes v) w1 = (n, w2)" by fastforce
  obtain b w3 where w3: "fsync_call w2 = (b, w3)" by fastforce
  obtain c w4 where w4: "frename ?t mp w3 = (c, w4)" by fastforce
  note ch = io_frameD(1) [OF w1] io_frameD(4) [OF w2] io_frameD(5) [where P = "{}", OF w3]
  have h: "only_crashes w1" "only_crashes w2" "only_crashes w3"
    using assms(2) schedule_used(1) [OF ch(1)] schedule_used(1) [OF ch(2)] schedule_used(1) [OF ch(3)] by blast+
  note calls = only_crashes_calls(3) [OF assms(2) w1] only_crashes_calls(4) [OF h(1) w2]
    only_crashes_calls(5) [OF h(2) w3] only_crashes_calls(6) [OF h(3) w4]
  note frozen = io_frameD(4) [OF w2, THEN changes_only_crashed] io_frameD(5) [where P = "{}", OF w3, THEN changes_only_crashed]
    io_frameD(6) [OF w4, THEN changes_only_crashed] fremove_frame [of ?t, THEN changes_only_crashed]
  show False
  proof (cases x)
    case (Inl e)
    then show ?thesis using assms(1) w1 calls(1) * by (simp add: Version_Save_def)
  next
    case (Inr u)
    have tmp: "fget w1 ?t = Some []" using fopen_wb_ok [of ?t w u w1] w1 Inr by simp
    show ?thesis
    proof (cases "n = length (Save_bytes v) \<and> b")
      case False
      then show ?thesis using assms(1) w1 w2 w3 calls(2,3) Inr * frozen
        by (auto simp: Version_Save_def Let_def split: if_splits)
    next
      case True
      then have "fget w3 ?t \<noteq> None"
        using fwrite_full [of ?t "Save_bytes v" w1 w2 "[]"] w2 w3 tmp fsync_call_ok [of w2 w3] by (auto simp: fget_def)
      then show ?thesis using assms(1) w1 w2 w3 w4 calls(4) Inr True *
        by (auto simp: Version_Save_def Let_def split: if_splits prod.splits bool.splits)
    qed
  qed
qed

lemma save_outcome:
  assumes r: "recoverable_with w p v tss opss tail" and save: "Version_Save v (ManifestPath p) w = (s, w')"
  shows "recoverable_with w' p v tss opss tail" and "fget w' (WalPath p) = fget w (WalPath p)"
    and "only_crashes w \<Longrightarrow> crashed w' \<or> Status_ok s"
proof -
  note ch = Version_Save_paths [OF save]
  show log: "fget w' (WalPath p) = fget w (WalPath p)" using ch by (rule changes_only_fget) simp
  have "Version_ok v" using r version_for_new Version_ok_for [OF version_for_new]
    by (auto simp: recoverable_with_def disk_version_def)
  with save have "disk_version w' p v"
    by (cases rule: Version_Save_cases) (use r in \<open>auto simp: recoverable_with_def disk_version_def\<close>)
  moreover have "disk_tables w' p v tss"
    using disk_tables_manifest [OF save] r by (simp add: recoverable_with_def)
  ultimately show "recoverable_with w' p v tss opss tail"
    using r log by (simp add: recoverable_with_def changes_only_dirs [OF ch])
  show "crashed w' \<or> Status_ok s" if "only_crashes w"
    using save that by (rule Version_Save_only_crashes)
qed

section \<open>The outcomes of an open\<close>

text \<open>A dead process changes nothing, its destructors included.\<close>

lemma Flush_crashed: "crashed w \<Longrightarrow> FlushMemTableLocked db w = (s, db', w') \<Longrightarrow> w' = w"
  by (auto simp: FlushMemTableLocked_def SSTableWriter_Write_def fopen_wb_def next_fault_def Let_def flush_entry_def
      MemTable_is_empty_def take_file_number_def split: if_splits prod.splits)

lemma DB_destroy_crashed:
  assumes "crashed w"
  shows "DB_destroy db w = w"
proof -
  obtain s1 db1 w1 where f: "FlushMemTableLocked ((DB_Close_begin db)\<lparr>bg_running := False\<rparr>) w = (s1, db1, w1)"
    by (metis prod_cases3)
  obtain s2 log w2 where c: "WriteAheadLog_Close (db_wal db1) w1 = (s2, log, w2)" by (metis prod_cases3)
  obtain s3 w3 where v: "Version_Save (db_version db1) (ManifestPath (db_path db1)) w2 = (s3, w3)" by fastforce
  have "w1 = w" by (rule Flush_crashed [OF assms f])
  moreover from this have "w2 = w1" using WriteAheadLog_Close_frame [OF c] assms changes_only_crashed by blast
  moreover from calculation have "w3 = w2" using Version_Save_frame [OF v] assms changes_only_crashed by blast
  ultimately show ?thesis using f c v by (simp add: DB_destroy_def DB_Close_def DB_Close_finish_def Let_def)
qed

lemma unstarted_failed [simp]: "unstarted ((DB_new options p)\<lparr>db_version := v, db_readers := rss, db_memtable := MemTable_empty\<rparr>)"
  by (simp add: unstarted_def DB_new_def MemTable_is_empty_def MemTable_empty_def WriteAheadLog_new_def)

text \<open>The stages of an open, each with the state and the world it leaves.\<close>

lemma Open_object_stages:
  assumes "Version_Load Version_new (ManifestPath p) w = (s1, v, w1)"
    and "Open_levels p (levels v) [] (Open_sweep ((DB_new options p)\<lparr>db_version := v\<rparr>) w1) = (s3, rss, w3)"
    and "WriteAheadLog_ReplayAll (WalPath p) replay_record MemTable_empty w3 = (s4, mt, w4)"
    and "WriteAheadLog_Open WriteAheadLog_new (WalPath p) w4 = (s5, log, w5)"
    and "Version_Save v (ManifestPath p) w5 = (s6, w6)"
  defines "db \<equiv> (DB_new options p)\<lparr>db_version := v\<rparr>"
  shows "Open_object existed (DB_new options p) w =
    (if \<not> (Status_ok s1 \<or> Status_IsNotFound s1) then Open_fail s1 db w1
     else if \<not> Status_ok s3 then Open_fail s3 (db\<lparr>db_readers := rss\<rparr>) w3
     else if \<not> Status_ok s4 then Open_fail s4 (db\<lparr>db_readers := rss, db_memtable := mt\<rparr>) w4
     else if \<not> Status_ok s5 then Open_fail s5 (db\<lparr>db_readers := rss, db_memtable := mt, db_wal := log\<rparr>) w5
     else if \<not> (existed \<or> Status_ok s6) then Open_fail s6 (db\<lparr>db_readers := rss, db_memtable := mt, db_wal := log\<rparr>) w6
     else (Status_OK, Some (db\<lparr>db_readers := rss, db_memtable := mt, db_wal := log,
       bg_running := background_compaction options\<rparr>), if existed then w5 else w6))"
  using assms(1-5) unfolding db_def
  by (cases existed; simp add: Open_object_def Let_def)

text \<open>Loading, sweeping and opening the tables.\<close>

lemma tables_stage:
  assumes r: "recoverable_with w p v tss opss tail" and p: "dir_name p" and db: "db_path db = p" "db_version db = v"
    and ch1: "changes_only {} w w1" and lv: "Open_levels p (levels v) [] (Open_sweep db w1) = (s3, rss, w3)"
  shows "recoverable_with w3 p v tss opss tail" and "changes_only UNIV w w3"
    and "only_crashes w \<Longrightarrow> crashed w3 \<or> Status_ok s3"
    and "Status_ok s3 \<Longrightarrow> list_all2 (list_all2 reader_for) rss tss"
proof -
  let ?w2 = "Open_sweep db w1"
  have "recoverable_with w1 p v tss opss tail" using r ch1 by (rule recoverable_with_frame) simp_all
  then have r2: "recoverable_with ?w2 p v tss opss tail" using p db by (rule Open_sweep_recoverable)
  have ch2: "changes_only UNIV w ?w2"
    using changes_only_mono [OF ch1, of UNIV] changes_only_mono [OF Open_sweep_frame [of db w1], of UNIV] p db(1)
    by (auto intro: changes_only_trans)
  have "list_all2 (list_all2 (\<lambda>fm es. disk_table ?w2 (SSTablePath p (number fm)) es)) (levels v) tss"
    using r2 by (simp add: recoverable_with_def disk_tables_def)
  note V = Open_levels_outcome [OF this lv]
  then have ch3: "changes_only {} ?w2 w3" by blast
  from r2 this show "recoverable_with w3 p v tss opss tail" by (rule recoverable_with_frame) simp_all
  show "changes_only UNIV w w3" using ch2 changes_only_mono [OF ch3] by (auto intro: changes_only_trans)
  show "crashed w3 \<or> Status_ok s3" if "only_crashes w" using V schedule_used(1) [OF ch2 that] by blast
  show "list_all2 (list_all2 reader_for) rss tss" if "Status_ok s3" using V that by auto
qed

text \<open>
  The outcomes: the manifest could not be read; a table could not be opened or the log not be read, with an
  object that has neither memtable nor log; the log or a new manifest could not be opened, with
  a complete object; or that object is handed out. Until the destructor of a failed open runs,
  nothing has changed that recovery needs.
\<close>

lemma Open_object_cases:
  assumes r: "recoverable_with w p v tss opss tail" and p: "dir_name p"
    and op: "Open_object existed (DB_new options p) w = (s, res, w')"
  obtains (unloaded) v1 w1 where "\<not> Status_ok s" "res = None" "w' = DB_destroy ((DB_new options p)\<lparr>db_version := v1\<rparr>) w1"
      "Version_Load Version_new (ManifestPath p) w = (s, v1, w1)" "\<not> Status_IsNotFound s"
      "recoverable_with w1 p v tss opss tail" "only_crashes w \<Longrightarrow> crashed w1"
    | (early) db1 w1 where "\<not> Status_ok s" "res = None" "w' = DB_destroy db1 w1" "unstarted db1" "db_version db1 = v" "db_path db1 = p"
      "recoverable_with w1 p v tss opss tail" "only_crashes w \<Longrightarrow> crashed w1"
    | (late) rss n log w1 where "\<not> Status_ok s" "res = None"
      "w' = DB_destroy ((opened options p v rss (replayed (take n opss)))\<lparr>db_wal := log, bg_running := False\<rparr>) w1"
      "wal_file log = None \<or> log = wal_opened (WalPath p) \<and> fget w1 (WalPath p) \<noteq> None"
      "list_all2 (list_all2 reader_for) rss tss" "no_short w \<Longrightarrow> n = length opss"
      "recoverable_with w1 p v tss opss tail" "only_crashes w \<Longrightarrow> crashed w1"
    | (handed_out) rss n where "s = Status_OK" "list_all2 (list_all2 reader_for) rss tss"
      "res = Some (opened options p v rss (replayed (take n opss)))" "no_short w \<Longrightarrow> n = length opss"
      "recoverable_with w' p v tss opss tail" "fget w' (WalPath p) = Some (log_of opss @ tail)"
proof -
  obtain s1 v1 w1 where load: "Version_Load Version_new (ManifestPath p) w = (s1, v1, w1)" by (metis prod_cases3)
  let ?db = "(DB_new options p)\<lparr>db_version := v1\<rparr>"
  obtain s3 rss w3 where lv: "Open_levels p (levels v1) [] (Open_sweep ?db w1) = (s3, rss, w3)" by (metis prod_cases3)
  obtain s4 mt w4 where rep: "WriteAheadLog_ReplayAll (WalPath p) replay_record MemTable_empty w3 = (s4, mt, w4)"
    by (metis prod_cases3)
  obtain s5 log w5 where wo: "WriteAheadLog_Open WriteAheadLog_new (WalPath p) w4 = (s5, log, w5)"
    by (metis prod_cases3)
  obtain s6 w6 where sv: "Version_Save v1 (ManifestPath p) w5 = (s6, w6)" by fastforce
  note eq = op [unfolded Open_object_stages [OF load lv rep wo sv]]
  have ch1: "changes_only {} w w1" using load by (rule Version_Load_frame)
  have dv: "disk_version w p v" using r by (simp add: recoverable_with_def)
  note L = load_outcome [OF dv load]
  show thesis
  proof (cases "Status_ok s1 \<or> Status_IsNotFound s1")
    case False
    have "recoverable_with w1 p v tss opss tail" using r ch1 by (rule recoverable_with_frame) simp_all
    with False show thesis using eq load L(2) by (intro unloaded [of v1 w1]) (auto simp: Open_fail_def)
  next
    case loaded: True
    then have v1: "v1 = v" by (rule L(1))
    note T = tables_stage [OF r p _ _ ch1 lv [unfolded v1], simplified]
    note R = replay_outcome [OF T(1) rep]
    have r4: "recoverable_with w4 p v tss opss tail"
      using T(1) R(1) [of "{}"] by (rule recoverable_with_frame) simp_all
    note O = log_open_outcome [OF r4 wo]
    note S = save_outcome [OF O(1) sv [unfolded v1]]
    have used: "only_crashes w \<Longrightarrow> only_crashes w3 \<and> only_crashes w4 \<and> only_crashes w5"
      "no_short w \<Longrightarrow> no_short w3"
      using schedule_used [OF T(2)] schedule_used [OF R(1)] schedule_used [OF O(2)] by blast+
    show thesis
    proof (cases "Status_ok s3 \<and> Status_ok s4")
      case False
      then obtain db1 wx where x: "db1 = ?db\<lparr>db_readers := rss\<rparr> \<and> wx = w3 \<and> \<not> Status_ok s3 \<or>
          db1 = ?db\<lparr>db_readers := rss, db_memtable := mt\<rparr> \<and> wx = w4 \<and> Status_ok s3 \<and> \<not> Status_ok s4"
        by blast
      then have "unstarted db1" "db_version db1 = v" "db_path db1 = p" using R(3) v1 by auto
      then show thesis
        using eq loaded x T(1,3) r4 R(2) used(1) by (intro early [of db1 wx]) (auto simp: Open_fail_def)
    next
      case True
      then obtain n where mt: "mt = replayed (take n opss)" "no_short w3 \<Longrightarrow> n = length opss" using R(4) by blast
      have rss: "list_all2 (list_all2 reader_for) rss tss" using T(4) True by simp
      have db: "?db\<lparr>db_readers := rss, db_memtable := mt, db_wal := log\<rparr> =
          (opened options p v rss (replayed (take n opss)))\<lparr>db_wal := log, bg_running := False\<rparr>"
        using mt(1) by (simp add: opened_def DB_new_def v1)
      show thesis
      proof (cases "Status_ok s5 \<and> (existed \<or> Status_ok s6)")
        case False
        have log: "wal_file log = None \<or> log = wal_opened (WalPath p) \<and> fget w5 (WalPath p) \<noteq> None"
          using O(4) WriteAheadLog_Open_closed [OF wo] by (cases "Status_ok s5") auto
        define wx where "wx = (if Status_ok s5 then w6 else w5)"
        have w': "w' = DB_destroy ((opened options p v rss (replayed (take n opss)))\<lparr>db_wal := log, bg_running := False\<rparr>) wx"
          "\<not> Status_ok s" "res = None"
          using False eq loaded True by (auto simp: Open_fail_def wx_def db [symmetric] split: if_splits)
        have "recoverable_with wx p v tss opss tail" "only_crashes w \<Longrightarrow> crashed wx"
          "fget wx (WalPath p) = fget w5 (WalPath p)"
          using False O(1,3) S used(1) by (auto simp: wx_def)
        with log show thesis using rss mt(2) used(2) by (intro late [OF w'(2,3,1)]) simp_all
      next
        case opened: True
        then have "?db\<lparr>db_readers := rss, db_memtable := mt, db_wal := log, bg_running := background_compaction options\<rparr> =
            opened options p v rss (replayed (take n opss))"
          using O(4) mt(1) by (simp add: opened_def DB_new_def v1)
        then show thesis
          using eq loaded True opened rss mt(2) used(2) O(1,4) S(1,2)
          by (intro handed_out [where n = n and rss = rss]) (auto split: if_splits)
      qed
    qed
  qed
qed

lemma DB_Open_existing:
  "recoverable_with w p v tss opss tail \<Longrightarrow> \<not> error_if_exists options \<Longrightarrow>
    DB_Open options p w = Open_object True (DB_new options p) w"
  by (simp add: DB_Open_def fs_exists_def recoverable_with_def)

section \<open>An open that reports success\<close>

lemma Open_success_prefix:
  assumes r: "recoverable_with w p v tss opss tail" and p: "dir_name p" and opts: "\<not> error_if_exists options"
    and op: "DB_Open options p w = (s, Some db, w')"
  shows "\<exists>n. Status_ok s \<and> db_ok db \<and> \<not> db_closed db \<and> db_options db = options \<and> db_path db = p \<and>
    db_view db = store_view (replayed (take n opss)) tss \<and> recoverable_with w' p v tss opss tail \<and> (no_short w \<longrightarrow> n = length opss \<and> in_step tail db w')"
proof -
  have "Open_object True (DB_new options p) w = (s, Some db, w')" using op DB_Open_existing [OF r opts] by simp
  from r p this show ?thesis
  proof (cases rule: Open_object_cases)
    case (handed_out rss n)
    have v: "version_for v tss" and "list_all batch_ok opss" using r by (simp_all add: recoverable_with_def)
    then have ok: "list_all batch_ok (take n opss)" by (auto simp: list_all_iff dest: in_set_takeD)
    have db: "db = opened options p v rss (replayed (take n opss))" using handed_out(3) by simp
    have "in_step tail db w'" if "n = length opss"
      using opened_ok(4) [OF handed_out(2,5), of options] handed_out(6) that by (simp add: db)
    then show ?thesis
      using handed_out opened_view [OF handed_out(2) v ok, of options p] unfolding db
      by (intro exI [of _ n]) simp
  qed simp_all
qed

section \<open>An open cut off by a crash\<close>

lemma Open_only_crashes:
  assumes r: "recoverable_with w p v tss opss tail" and p: "dir_name p" and opts: "\<not> error_if_exists options"
    and w: "only_crashes w" and op: "DB_Open options p w = (s, res, w')"
  shows "recoverable_with w' p v tss opss tail"
proof -
  have "Open_object True (DB_new options p) w = (s, res, w')" using op DB_Open_existing [OF r opts] by simp
  from r p this show ?thesis
    by (cases rule: Open_object_cases) (use w in \<open>simp_all add: DB_destroy_crashed\<close>)
qed

text \<open>Attempts at recovery, each in a process of its own with its own schedule.\<close>

fun open_attempts :: "Options \<Rightarrow> path \<Rightarrow> fault list list \<Rightarrow> world \<Rightarrow> world" where
  "open_attempts options p [] w = w"
| "open_attempts options p (fs # fss) w = open_attempts options p fss (snd (snd (DB_Open options p (reboot fs w))))"

lemma recoverable_attempts:
  assumes "recoverable_with w p v tss opss tail" and "dir_name p" and "\<not> error_if_exists options"
    and "\<forall>fs\<in>set fss. \<forall>f\<in>set fs. f = NoFault \<or> (\<exists>n. f = Crash n)"
  shows "recoverable_with (open_attempts options p fss w) p v tss opss tail"
  using assms(1,4)
proof (induction fss arbitrary: w)
  case (Cons fs fss)
  obtain s res w1 where op: "DB_Open options p (reboot fs w) = (s, res, w1)" by (metis prod_cases3)
  have "only_crashes (reboot fs w)" using Cons.prems(2) by (simp add: only_crashes_def reboot_def)
  moreover have "recoverable_with (reboot fs w) p v tss opss tail" using Cons.prems(1) by (simp add: recoverable_with_reboot)
  ultimately have "recoverable_with w1 p v tss opss tail" using Open_only_crashes assms(2,3) op by blast
  with Cons show ?case by (simp add: op)
qed simp

section \<open>An open that fails\<close>

text \<open>With a manifest that can be read, loading it fails only in a dead process.\<close>

lemma manifest_unread:
  assumes d: "disk_version w p v" and load: "Version_Load Version_new (ManifestPath p) w = (s, v1, w1)"
    and bad: "\<not> Status_ok s" "\<not> Status_IsNotFound s" and w: "no_short w"
    and first: "crashed w \<or> faults w = [] \<or> hd (faults w) \<noteq> Fail"
  shows "crashed w1"
proof -
  obtain x where o: "fopen_rb (ManifestPath p) w = (x, w1)"
    using load by (auto simp: Version_Load_def Let_def split: prod.splits sum.splits errno.splits if_splits)
  have "crashed w1 \<or> x = (case fget w (ManifestPath p) of None \<Rightarrow> Inl ENOENT
      | Some d \<Rightarrow> Inr \<lparr>rf_size = length d, rf_data = d\<rparr>)"
    using o w first
    by (rule_tac next_fault_cases [of w]) (auto simp: fopen_rb_def no_short_def split: fault.splits option.splits)
  then show ?thesis
    using d o load bad Version_Load_image [of v "ManifestPath p" w w1 Version_new]
    by (auto simp: disk_version_def Version_Load_def)
qed

text \<open>The recovered store stays within the engine's bounds.\<close>

definition store_fits :: "Version \<Rightarrow> MemTable \<Rightarrow> table list list \<Rightarrow> bool" where
  "store_fits v mt tss \<longleftrightarrow> total entry_weight (store_entries mt tss) < addressable \<and>
     total (\<lambda>_. 1) (store_entries mt tss) < 2 ^ 31 \<and> unat (next_file_number v) < 2 ^ 63"

lemma DB_destroy_in_step:
  assumes "in_step torn db w" and "db_ok db" and "capacity db"
  shows "recovers torn (DB_destroy db w) (db_path db) (db_view db)"
proof (cases "db_closed db")
  case True
  then show ?thesis using in_step_recovers [OF assms(1)] by (simp add: DB_destroy_def)
next
  case False
  obtain s db' w' where c: "DB_Close db w = (s, db', w')" by (metis prod_cases3)
  note cl = in_step_close [OF c assms(2,3,1)]
  show ?thesis using in_step_recovers [OF cl(1)] cl(2,3) False c by (simp add: DB_destroy_def)
qed

lemma Open_failure_harmless:
  assumes r: "recoverable_with w p v tss opss tail" and p: "dir_name p" and opts: "\<not> error_if_exists options"
    and fits: "store_fits v (replayed opss) tss" and w: "no_short w"
    and load: "crashed w \<or> faults w = [] \<or> hd (faults w) \<noteq> Fail"
    and op: "DB_Open options p w = (s, res, w')"
  shows "recovers tail w' p (store_view (replayed opss) tss)"
proof -
  have "Open_object True (DB_new options p) w = (s, res, w')" using op DB_Open_existing [OF r opts] by simp
  from r p this show ?thesis
  proof (cases rule: Open_object_cases)
    case (unloaded v1 w1)
    have "disk_version w p v" using r by (simp add: recoverable_with_def)
    from manifest_unread [OF this unloaded(4) unloaded(1,5) w load] have "crashed w1" .
    then show ?thesis using unloaded unfolding recovers_def by (auto simp: DB_destroy_crashed)
  next
    case (early db1 w1)
    obtain s6 w6 where sv: "Version_Save v (ManifestPath p) w1 = (s6, w6)" by fastforce
    then have "w' = w6" using early DB_destroy_unstarted [OF early(4), of w1] by simp
    with save_outcome(1) [OF early(7) sv] show ?thesis unfolding recovers_def by blast
  next
    case (late rss n log w1)
    let ?db = "(opened options p v rss (replayed opss))\<lparr>db_wal := log, bg_running := False\<rparr>"
    have n: "replayed (take n opss) = replayed opss" using late(6) w by simp
    note ok = opened_ok(1-3) [OF late(5) r, of options]
    have tabs: "db_tables ?db = tss" "db_view ?db = store_view (replayed opss) tss"
      using ok(1,3) by (simp_all add: db_tables_def db_view_def)
    have "db_ok ?db" using ok(2) by (simp add: db_ok_def db_tables_def)
    moreover have "capacity ?db" using fits tabs(1)
      by (simp add: capacity_def db_fits_def db_total_def store_fits_def)
    moreover have "in_step tail ?db w1"
      using late(4,7) tabs by (intro in_stepI [of w1 ?db v tss opss tail]) (auto simp: recoverable_with_def log_covers_def)
    ultimately show ?thesis using DB_destroy_in_step [of tail ?db w1] late(3) n tabs(2) by simp
  next
    case (handed_out rss n)
    then show ?thesis unfolding recovers_def by blast
  qed
qed

end
