(* ===== verification/Sessions.thy ===== *)
theory Sessions
  imports Open_Outcomes
begin

text \<open>
  The life of a directory across processes. A session opens the database, runs any interleaving of clients and
  background thread, and ends in any way: the process is killed, or dies inside an operation, or closes
  the database, with other clients still writing while \<open>Close\<close> waits for its thread. Between sessions there may
  be attempts to open the directory that fail or are cut off by a crash. The log is clean when it ends in no torn bytes.
  A torn record at its end makes what is appended behind it unreadable, so until the log is clean again (a
  flush has replaced it) the sessions considered here only maintain; \<open>acknowledged_after_torn_tail_lost\<close> shows what writes then risk.
\<close>

section \<open>Sessions\<close>

text \<open>The schedule of faults of a new phase of the process.\<close>

definition resume :: "fault list \<Rightarrow> world \<Rightarrow> world" where
  "resume fs w = w\<lparr>faults := fs\<rparr>"

lemma in_step_resume: "in_step torn db (resume fs w) = in_step torn db w"
  by (simp add: in_step_def recoverable_with_def disk_version_def disk_tables_def disk_table_def fget_def resume_def)

text \<open>The database is opened, whatever fails as long as no read comes back short, and handed to its clients.\<close>

definition opens :: "Options \<Rightarrow> path \<Rightarrow> fault list \<Rightarrow> world \<Rightarrow> DB \<Rightarrow> world \<Rightarrow> bool" where
  "opens options p fs w db w1 \<longleftrightarrow> \<not> error_if_exists options \<and> 0 < l0_compaction_trigger options \<and>
     (\<forall>k. Short k \<notin> set fs) \<and> DB_Open options p (reboot fs w) = (Status_OK, Some db, w1)"

lemma opens_recovered:
  assumes "opens options p fs w db w1" and "recovers torn w p V" and "dir_name p"
  shows "serving db" "db_path db = p" "db_view db = V" "in_step torn db w1"
proof -
  have o: "\<not> error_if_exists options" "0 < l0_compaction_trigger options" "no_short (reboot fs w)"
    "DB_Open options p (reboot fs w) = (Status_OK, Some db, w1)"
    using assms(1) by (simp_all add: opens_def no_short_def reboot_def)
  obtain v tss opss tail where T: "tail \<in> {torn, []}" and r: "recoverable_with (reboot fs w) p v tss opss tail"
    and V: "store_view (replayed opss) tss = V"
    using assms(2) unfolding recovers_def by (auto simp: recoverable_with_reboot)
  note ok = Open_success_prefix [OF r assms(3) o(1,4)]
  have db: "db_ok db" "\<not> db_closed db" "db_view db = V" "in_step tail db w1" using ok o(3) V by auto
  show "serving db" "db_path db = p" using db ok o(2) by (auto simp: serving_def)
  show "db_view db = V" "in_step torn db w1" using db T in_step_fewer by auto
qed

text \<open>The log file holds complete records only.\<close>

definition whole_log :: "world \<Rightarrow> path \<Rightarrow> bool" where
  "whole_log w p \<longleftrightarrow> (\<exists>opss. list_all batch_ok opss \<and> the_default [] (fget w (WalPath p)) = log_of opss)"

lemma whole_log_tail:
  assumes "recoverable_with w p v tss opss tail" and "whole_log w p"
  shows "tail = []"
proof -
  let ?recs = "map (\<lambda>ops. rep (batch_of ops))"
  obtain opss' where ok: "list_all batch_ok opss'" and log: "log_of opss @ tail = log_of opss'"
    using assms by (auto simp: recoverable_with_def whole_log_def)
  have recs: "wal_records (log_of os @ rest) = ?recs os @ wal_records rest" if "list_all batch_ok os" for os rest
    using wal_records_intact [of "?recs os" rest] that
    by (simp add: log_of_def comp_def list_all_iff batch_ok_def)
  have "list_all batch_ok opss" "wal_records tail = []" using assms(1) by (simp_all add: recoverable_with_def)
  then have "?recs opss = ?recs opss'" using recs [of opss tail] recs [OF ok, of "[]"] log by simp
  then have "log_of opss = log_of opss'" unfolding log_of_def by (metis (no_types, lifting) list.map_comp comp_def map_eq_conv)
  with log show ?thesis by simp
qed

lemma recovers_whole_log: "recovers torn w p V \<Longrightarrow> whole_log w p \<Longrightarrow> recovers [] w p V"
  unfolding recovers_def using whole_log_tail by blast

lemma in_step_whole_log: "in_step torn db w \<Longrightarrow> whole_log w (db_path db) \<Longrightarrow> durable db w"
  unfolding in_step_def using whole_log_tail by blast

text \<open>
  A run that writes only while the log is clean. The flag says whether it is known to be clean, before and after: it is
  once the log file holds complete records only.
\<close>

inductive guarded_run :: "bool \<Rightarrow> DB \<times> world \<Rightarrow> db_event list \<Rightarrow> bool \<Rightarrow> DB \<times> world \<Rightarrow> bool" where
  guarded_nil: "guarded_run clean st [] clean st"
| guarded_step: "db_step st ev st' \<Longrightarrow> acknowledged ev \<Longrightarrow> clean \<or> maintenance ev \<Longrightarrow>
    guarded_run clean st' evs clean' st'' \<Longrightarrow> guarded_run clean st (ev # evs) clean' st''"
| guarded_whole: "whole_log (snd st) (db_path (fst st)) \<Longrightarrow> guarded_run True st evs clean' st' \<Longrightarrow>
    guarded_run clean st evs clean' st'"

lemma in_step_run:
  "guarded_run clean st evs clean' st' \<Longrightarrow> serving (fst st) \<Longrightarrow> in_step torn (fst st) (snd st) \<Longrightarrow> (clean \<longrightarrow> torn = []) \<Longrightarrow>
    \<exists>torn'. in_step torn' (fst st') (snd st') \<and> (clean' \<longrightarrow> torn' = []) \<and> db_path (fst st') = db_path (fst st) \<and>
      serving (fst st') \<and> db_view (fst st') \<in> run_views evs (db_view (fst st))"
proof (induction arbitrary: torn rule: guarded_run.induct)
  case (guarded_nil clean st)
  then show ?case by auto
next
  case (guarded_step st ev st' clean evs clean' st'')
  obtain db w db1 w1 where st: "st = (db, w)" "st' = (db1, w1)" by fastforce
  have s: "db_step (db, w) ev (db1, w1)" "serving db" "in_step torn db w"
    using guarded_step by (simp_all add: st)
  have "in_step torn db1 w1 \<and> db_path db1 = db_path db"
    using durable_step(1,2) [OF s(1,2)] in_step_maintained(1,2) [OF s] s(3) guarded_step.hyps(2,3) guarded_step.prems(3)
    by blast
  moreover note db_step_inv [OF s(1)]
  ultimately show ?case using guarded_step.IH [of torn] guarded_step.prems(3) s(2) by (auto simp: st)
next
  case (guarded_whole st evs clean' st' clean)
  then show ?case using in_step_whole_log by blast
qed

text \<open>A session up to its end.\<close>

definition session :: "bool \<Rightarrow> path \<Rightarrow> world \<Rightarrow> db_event list \<Rightarrow> bool \<Rightarrow> DB \<Rightarrow> world \<Rightarrow> bool" where
  "session clean p w evs clean' db w' \<longleftrightarrow>
     (\<exists>options fs db0 w0 fs'. opens options p fs w db0 w0 \<and> guarded_run clean (db0, resume fs' w0) evs clean' (db, w'))"

text \<open>What is in the directory stays within the engine's bounds.\<close>

definition dir_fits :: "world \<Rightarrow> path \<Rightarrow> bool" where
  "dir_fits w p \<longleftrightarrow> (\<forall>v tss opss tail. recoverable_with w p v tss opss tail \<longrightarrow> store_fits v (replayed opss) tss)"

inductive lifetime :: "path \<Rightarrow> world \<Rightarrow> bool \<Rightarrow> db_event list \<Rightarrow> world \<Rightarrow> bool" for p :: path and w0 :: world where
  life_start: "lifetime p w0 True [] w0"
| life_open_cut: "lifetime p w0 clean evs w \<Longrightarrow> \<not> error_if_exists options \<Longrightarrow>
    \<forall>f\<in>set fs. f = NoFault \<or> (\<exists>n. f = Crash n) \<Longrightarrow> DB_Open options p (reboot fs w) = (s, res, w') \<Longrightarrow>
    lifetime p w0 clean evs w'"
| life_open_failed: "lifetime p w0 clean evs w \<Longrightarrow> \<not> error_if_exists options \<Longrightarrow> dir_fits w p \<Longrightarrow>
    fs = [] \<or> hd fs \<noteq> Fail \<Longrightarrow> \<forall>k. Short k \<notin> set fs \<Longrightarrow> DB_Open options p (reboot fs w) = (s, res, w') \<Longrightarrow>
    lifetime p w0 clean evs w'"
| life_killed: "lifetime p w0 clean evs w \<Longrightarrow> session clean p w evs' clean' db w' \<Longrightarrow>
    lifetime p w0 clean' (evs @ evs') w'"
| life_crashed: "lifetime p w0 clean evs w \<Longrightarrow> session clean p w evs' True db w1 \<Longrightarrow> db_step (db, w1) ev (db', w') \<Longrightarrow>
    lifetime p w0 False (evs @ evs' @ [ev]) w'"
| life_closed: "lifetime p w0 clean evs w \<Longrightarrow> session clean p w evs' clean' db w1 \<Longrightarrow> shutting_down db \<Longrightarrow> capacity db \<Longrightarrow>
    DB_Close_finish db w1 = (s, db', w') \<Longrightarrow> lifetime p w0 clean' (evs @ evs') w'"
| life_whole_log: "lifetime p w0 clean evs w \<Longrightarrow> whole_log w p \<Longrightarrow> lifetime p w0 True evs w"

lemma session_recovered:
  assumes "session clean p w evs clean' db w'" and "recovers torn w p V" and "dir_name p" and "clean \<longrightarrow> torn = []"
  obtains torn' where "in_step torn' db w'" "clean' \<longrightarrow> torn' = []" "db_path db = p" "serving db" "db_view db \<in> run_views evs V"
proof -
  obtain options fs db0 w0 fs' where op: "opens options p fs w db0 w0"
    and run: "guarded_run clean (db0, resume fs' w0) evs clean' (db, w')"
    using assms(1) unfolding session_def by blast
  note o = opens_recovered [OF op assms(2,3)]
  show thesis
    using in_step_run [OF run, of torn] o assms(4) that by (auto simp: in_step_resume)
qed

text \<open>Whatever a directory has lived through, it recovers to a view its history allows.\<close>

lemma lifetime_recovers:
  assumes "lifetime p w0 clean evs w" and "recovers [] w0 p V" and "dir_name p"
  shows "\<exists>V'\<in>run_views evs V. \<exists>torn. recovers torn w p V' \<and> (clean \<longrightarrow> torn = [])"
  using assms(1)
proof (induction rule: lifetime.induct)
  case life_start
  then show ?case using assms(2) by simp
next
  case (life_open_cut clean evs w options fs s res w')
  then obtain V' torn where IH: "V' \<in> run_views evs V" "recovers torn w p V'" "clean \<longrightarrow> torn = []" by blast
  then obtain v tss opss tail where T: "tail \<in> {torn, []}" and r: "recoverable_with (reboot fs w) p v tss opss tail"
    and V: "store_view (replayed opss) tss = V'"
    unfolding recovers_def by (auto simp: recoverable_with_reboot)
  have "only_crashes (reboot fs w)" using life_open_cut by (simp add: only_crashes_def reboot_def)
  then have "recoverable_with w' p v tss opss tail"
    using Open_only_crashes [OF r assms(3)] life_open_cut.hyps by blast
  then have "recovers torn w' p V'" using T V unfolding recovers_def by blast
  with IH show ?case by blast
next
  case (life_open_failed clean evs w options fs s res w')
  then obtain V' torn where IH: "V' \<in> run_views evs V" "recovers torn w p V'" "clean \<longrightarrow> torn = []" by blast
  then obtain v tss opss tail where T: "tail \<in> {torn, []}" and r: "recoverable_with w p v tss opss tail"
    and V: "store_view (replayed opss) tss = V'"
    unfolding recovers_def by blast
  have "recoverable_with (reboot fs w) p v tss opss tail" using r by (simp add: recoverable_with_reboot)
  from this assms(3) life_open_failed.hyps(2) have "recovers tail w' p V'" unfolding V [symmetric]
    by (rule Open_failure_harmless) (use life_open_failed.hyps r in \<open>auto simp: dir_fits_def no_short_def reboot_def\<close>)
  then have "recovers torn w' p V'" using T unfolding recovers_def by blast
  with IH show ?case by blast
next
  case (life_killed clean evs w evs' clean' db w')
  then obtain V' torn where IH: "V' \<in> run_views evs V" "recovers torn w p V'" "clean \<longrightarrow> torn = []" by blast
  from life_killed.hyps(2) IH(2) assms(3) IH(3) obtain torn' where s: "in_step torn' db w'" "clean' \<longrightarrow> torn' = []"
    "db_path db = p" "db_view db \<in> run_views evs' V'" by (rule session_recovered)
  show ?case using IH(1) s in_step_recovers [OF s(1)] by (auto simp: run_views_append)
next
  case (life_crashed clean evs w evs' db w1 ev db' w')
  then obtain V' torn where IH: "V' \<in> run_views evs V" "recovers torn w p V'" "clean \<longrightarrow> torn = []" by blast
  from life_crashed.hyps(2) IH(2) assms(3) IH(3) obtain torn' where s: "in_step torn' db w1" "True \<longrightarrow> torn' = []"
    "db_path db = p" "serving db" "db_view db \<in> run_views evs' V'" by (rule session_recovered)
  obtain V'' where V'': "V'' \<in> event_views ev (db_view db)" "recoverable w' p V''"
    using durable_step(3) [OF life_crashed.hyps(3)] s by auto
  then have "V'' \<in> run_views (evs @ evs' @ [ev]) V" using IH(1) s(5) by (auto simp: run_views_append)
  with V''(2) show ?case unfolding recovers_recoverable [symmetric] by blast
next
  case (life_closed clean evs w evs' clean' db w1 s db' w')
  then obtain V' torn where IH: "V' \<in> run_views evs V" "recovers torn w p V'" "clean \<longrightarrow> torn = []" by blast
  from life_closed.hyps(2) IH(2) assms(3) IH(3) obtain torn' where s: "in_step torn' db w1" "clean' \<longrightarrow> torn' = []"
    "db_path db = p" "serving db" "db_view db \<in> run_views evs' V'" by (rule session_recovered)
  have "db_ok db" using s(4) by (simp add: serving_def)
  note f = in_step_finish [OF life_closed.hyps(5) this life_closed.hyps(4) s(1)]
  show ?case using IH(1) s(2,3,5) in_step_recovers [OF f(1)] f(2,3) by (auto simp: run_views_append)
next
  case (life_whole_log clean evs w)
  then show ?case using recovers_whole_log by blast
qed

end
