(* ===== verification/Calm.thy ===== *)
theory Calm
  imports Reopen
begin

text \<open>
  Progress: when no call fails, the engine's operations report success. A flush empties the memtable and leaves
  an open log, compactions run to the end, and a write is acknowledged in either mode, so the
  premises on statuses in the durability theorems are met as long as the device works.
\<close>

text \<open>Options the engine can work with: a positive trigger, and a filter that can be built for any table that fits.\<close>

definition sane :: "Options \<Rightarrow> bool" where
  "sane options \<longleftrightarrow> 0 < l0_compaction_trigger options \<and>
     0 < bloom_bits_per_key options \<and> bloom_bits_per_key options \<le> 2 ^ 15"

section \<open>One table\<close>

lemma Build_sane:
  assumes "0 < bits" and "bits \<le> 2 ^ 15" and "length keys < 2 ^ 31"
  obtains filt where "BloomFilter_Build keys bits = Some filt"
proof -
  define m where "m = length keys * nat bits"
  have le: "m \<le> 2 ^ 31 * 2 ^ 15" unfolding m_def using assms by (intro mult_le_mono) (auto simp: nat_le_iff)
  have "of_nat (length keys) * (of_int bits :: u64) = of_nat m" using assms(1) by (simp add: m_def of_nat_nat)
  then have "bloom_bytes (length keys) bits = of_nat (max 64 m + 7) div 8"
    using le by (simp add: bloom_bytes_def Let_def word_less_nat_alt max_def unat_of_nat take_bit_nat_eq_self)
  also have "unat (of_nat (max 64 m + 7) div 8 :: u64) = (max 64 m + 7) div 8"
    using le by (simp add: unat_div unat_of_nat take_bit_nat_eq_self del: of_nat_add)
  finally have "unat (bloom_bytes (length keys) bits) = (max 64 m + 7) div 8" .
  moreover have "0 < (max 64 m + 7) div 8" "(max 64 m + 7) div 8 + 1 < addressable"
    using le by (auto simp: addressable_def max_def)
  ultimately have "BloomFilter_Build keys bits \<noteq> None" by (simp add: BloomFilter_Build_def Let_def)
  then show thesis using that by blast
qed

lemma new_table_calm:
  assumes w: "calm w" and es: "table_ok es" "total entry_weight es < addressable" "length es < 2 ^ 31"
    and bits: "0 < bits" "bits \<le> 2 ^ 15"
  obtains w1 sz r where "SSTableWriter_Write p es bits w = (Status_OK, w1)" "fs_file_size p w1 = (sz, w1)"
    "SSTableReader_Open p w1 = (Status_OK, r, w1)" "calm w1"
proof -
  obtain filt where filt: "BloomFilter_Build (map e_key es) bits = Some filt"
    using Build_sane [OF bits, of "map e_key es"] es(3) by auto
  have ne: "es \<noteq> []" using es(1) by (simp add: table_ok_def)
  from SSTableWriter_Write_calm [OF w ne filt] obtain w1
    where wr: "SSTableWriter_Write p es bits w = (Status_OK, w1)" and c: "calm w1" by blast
  have "fget w1 p = Some (table_bytes es filt)" using SSTableWriter_Write_ok [OF wr] filt by auto
  from SSTableReader_Open_calm [OF es(1) table_fits_total [OF es(2) filt] Build_nonempty [OF filt] c this]
  show thesis using wr c calm_calls(8) [OF c, of p] by (rule_tac that) 
qed

section \<open>Flush\<close>

lemma Close_calm:
  "calm w \<Longrightarrow> WriteAheadLog_Close (wal_opened p) w = (Status_OK, (wal_opened p)\<lparr>wal_file := None\<rparr>, w)"
  by (simp add: WriteAheadLog_Close_def WriteAheadLog_Sync_def wal_opened_def)

lemma Open_calm:
  assumes "calm w"
  shows "\<exists>w'. WriteAheadLog_Open log p w = (Status_OK, wal_opened p, w') \<and> calm w'"
  using assms by (simp add: WriteAheadLog_Open_def wal_opened_def)

lemma set_level_fields [simp]:
  "db_path (set_level db l fs rs) = db_path db" "db_options (set_level db l fs rs) = db_options db"
  "db_memtable (set_level db l fs rs) = db_memtable db" "db_wal (set_level db l fs rs) = db_wal db"
  by (simp_all add: set_level_def)

lemma flush_calm:
  assumes w: "calm w" and ok: "db_ok db" and fits: "db_fits db" and opts: "sane (db_options db)"
    and log: "db_wal db = wal_opened (WalPath (db_path db))"
  obtains db' w' where "FlushMemTableLocked db w = (Status_OK, db', w')" "calm w'" "MemTable_is_empty (db_memtable db')"
    "db_wal db' = wal_opened (WalPath (db_path db'))"
    "\<not> MemTable_is_empty (db_memtable db) \<Longrightarrow> fget w' (WalPath (db_path db)) = Some []"
proof (cases "MemTable_is_empty (db_memtable db)")
  case True
  then show thesis using w log by (intro that [of db w]) (simp_all add: FlushMemTableLocked_def)
next
  case False
  let ?es = "memtable_entries_of (db_memtable db)" and ?wal = "WalPath (db_path db)"
  define db1 where "db1 = snd (take_file_number db)"
  have tk: "take_file_number db = (db_next db, db1)" "db_path db1 = db_path db" "db_options db1 = db_options db"
    "db_wal db1 = db_wal db" "db_memtable db1 = db_memtable db"
    by (simp_all add: take_file_number_def db1_def)
  let ?p = "SSTablePath (db_path db) (db_next db)"
  have mem: "mem_ok (db_memtable db)" using ok by (simp add: db_ok_def)
  have es: "table_ok ?es" using mem False by (rule table_ok_memtable)
  have "total entry_weight ?es < addressable" "total (\<lambda>_. 1) ?es < 2 ^ 31"
    using fits mem_fits [of entry_weight db addressable] mem_fits [of "\<lambda>_. 1" db "2 ^ 31"] by (simp_all add: db_fits_def)
  then have small: "total entry_weight ?es < addressable" "length ?es < 2 ^ 31" unfolding total_count by simp_all
  from opts have bits: "0 < bloom_bits_per_key (db_options db)" "bloom_bits_per_key (db_options db) \<le> 2 ^ 15"
    by (simp_all add: sane_def)
  from w es small bits show thesis
  proof (rule new_table_calm [where p = ?p])
    fix w1 sz r
    assume wr: "SSTableWriter_Write ?p ?es (bloom_bits_per_key (db_options db)) w = (Status_OK, w1)"
      and sz: "fs_file_size ?p w1 = (sz, w1)" and rd: "SSTableReader_Open ?p w1 = (Status_OK, r, w1)" and w1: "calm w1"
    let ?fm = "\<lparr>number = db_next db, min_key = e_key (hd ?es), max_key = e_key (last ?es), file_size = sz\<rparr>"
    let ?db2 = "set_level db1 0 (Version_Level (db_version db1) 0 @ [?fm]) (db_readers db1 ! 0 @ [r])"
    obtain w4 where sv: "Version_Save (db_version ?db2) (ManifestPath (db_path db)) w1 = (Status_OK, w4)" "calm w4"
      using Version_Save_calm [OF w1] by blast
    obtain w7 where op: "WriteAheadLog_Open WriteAheadLog_new ?wal (fremove ?wal w4) = (Status_OK, wal_opened ?wal, w7)" "calm w7"
      using Open_calm [of "fremove ?wal w4"] sv(2) by auto
    have new_log: "fget w7 ?wal = Some []" using WriteAheadLog_Open_ok [OF op(1)] sv(2) by simp
    let ?db' = "?db2\<lparr>db_memtable := MemTable_Clear (db_memtable db), db_wal := wal_opened ?wal\<rparr>"
    have "FlushMemTableLocked db w = (Status_OK, ?db', w7)"
      using False wr sz rd sv op Close_calm [OF sv(2), of ?wal]
      by (simp add: FlushMemTableLocked_def Let_def tk log memtable_entries_of_def [symmetric])
    then show thesis
      using op(2) by (rule that) (simp_all add: tk MemTable_is_empty_def MemTable_Clear_def new_log)
  qed
qed

section \<open>Compaction\<close>

lemma run_ok_suffix: "run_ok (xs @ ys) \<Longrightarrow> run_ok ys"
  by (simp add: run_ok_def sorted_wrt_append)

lemma flush_batch_calm:
  assumes w: "calm w" and opts: "sane (db_options (cs_db cs))" and run: "run_ok (cs_batch cs)" "length (cs_batch cs) < 2 ^ 31"
    and fb: "flush_batch cs w = (s, cs', w')"
  shows "s = Status_OK \<and> calm w' \<and> cs_batch cs' = [] \<and> db_options (cs_db cs') = db_options (cs_db cs)"
proof (cases "cs_batch cs = []")
  case True
  then show ?thesis using fb w by (simp add: flush_batch_def)
next
  case False
  let ?db = "cs_db cs" let ?p = "SSTablePath (db_path ?db) (db_next ?db)"
  from run_ok_part [OF run(1) _ False, of "[]" "[]"]
  have es: "table_ok (cs_batch cs)" "total entry_weight (cs_batch cs) < addressable" by simp_all
  from opts have bits: "0 < bloom_bits_per_key (db_options ?db)" "bloom_bits_per_key (db_options ?db) \<le> 2 ^ 15"
    by (simp_all add: sane_def)
  from w es run(2) bits show ?thesis
  proof (rule new_table_calm [where p = ?p])
    fix w1 sz r
    assume "SSTableWriter_Write ?p (cs_batch cs) (bloom_bits_per_key (db_options ?db)) w = (Status_OK, w1)"
      "fs_file_size ?p w1 = (sz, w1)" "SSTableReader_Open ?p w1 = (Status_OK, r, w1)" "calm w1"
    then show ?thesis using False fb by (auto simp: flush_batch_def take_file_number_def Let_def)
  qed
qed

lemma compact_loop_calm:
  assumes "calm w" and "sane (db_options (cs_db cs))" and "run_ok (cs_batch cs @ filter (compact_keep d) es)"
    and "length (cs_batch cs @ filter (compact_keep d) es) < 2 ^ 31" and "compact_loop d t es cs w = (s, cs', w')"
  shows "s = Status_OK \<and> calm w' \<and> run_ok (cs_batch cs') \<and> length (cs_batch cs') < 2 ^ 31 \<and>
    db_options (cs_db cs') = db_options (cs_db cs)"
  using assms
proof (induction es arbitrary: cs w)
  case (Cons e es)
  show ?case
  proof (cases "compact_keep d e")
    case False
    with Cons show ?thesis by (simp add: compact_keep_def)
  next
    case keep: True
    define cs1 where "cs1 = cs\<lparr>cs_bytes := cs_bytes cs +
        (of_nat (length (e_key e)) + of_nat (length (e_value e))), cs_batch := cs_batch cs @ [e]\<rparr>"
    have c1: "cs_db cs1 = cs_db cs" "cs_batch cs1 = cs_batch cs @ [e]" by (simp_all add: cs1_def)
    have L1: "run_ok (cs_batch cs1 @ filter (compact_keep d) es)" "length (cs_batch cs1 @ filter (compact_keep d) es) < 2 ^ 31"
      using Cons.prems(3,4) keep by (simp_all add: c1)
    have run: "compact_loop d t (e # es) cs w =
      (if cs_bytes cs1 \<ge> t then (case flush_batch cs1 w of (s, cs2, w1) \<Rightarrow>
         if \<not> Status_ok s then (s, cs2, w1) else compact_loop d t es cs2 w1)
       else compact_loop d t es cs1 w)"
      unfolding compact_loop.simps if_not_P [OF keep [unfolded compact_keep_def]] Let_def cs1_def ..
    show ?thesis
    proof (cases "cs_bytes cs1 \<ge> t")
      case False
      then show ?thesis using Cons.IH [of w cs1] Cons.prems L1 run by (simp add: c1)
    next
      case True
      obtain s1 cs2 w1 where fb: "flush_batch cs1 w = (s1, cs2, w1)" by (metis prod_cases3)
      have "run_ok (cs_batch cs1)" using L1(1) by (simp add: run_ok_def sorted_wrt_append)
      from flush_batch_calm [OF Cons.prems(1) _ this _ fb] Cons.prems(2) L1(2)
      have "s1 = Status_OK" "calm w1" "cs_batch cs2 = []" "db_options (cs_db cs2) = db_options (cs_db cs)"
        by (simp_all add: c1)
      then show ?thesis
        using Cons.IH [of w1 cs2] Cons.prems(2,5) L1 run True fb run_ok_suffix by simp
    qed
  qed
qed simp

lemma fold_fremove_calm: "calm w \<Longrightarrow> calm (fold (\<lambda>n w. fremove (SSTablePath p n) w) ns w)"
  by (induction ns arbitrary: w) simp_all

lemma CompactLocked_calm:
  assumes c: "CompactLocked l db w = (s, db', w')" and w: "calm w" and ok: "db_ok db" and fits: "db_fits db"
    and opts: "sane (db_options db)"
  shows "s = Status_OK \<and> calm w'"
proof (cases "Suc l < kMaxLevels")
  case False
  then show ?thesis using c w by (simp add: CompactLocked_def)
next
  case l: True
  let ?d = "Suc l = kMaxLevels - 1"
  let ?t = "max (memtable_flush_bytes (db_options db)) kMinCompactionOutputFileBytes"
  let ?es = "map snd (merged_of (concat (compact_inputs (db_tables db) l)))"
  have tok: "tables_ok (db_tables db)" using ok by (simp add: db_ok_def version_for_def)
  have "total entry_weight (concat (concat (db_tables db))) < addressable"
    using fits by (simp add: db_fits_def db_total_def store_entries_def)
  from compact_run_ok [OF tok l this] have L: "run_ok (filter (compact_keep ?d) ?es)" by (simp add: compact_run_def)
  have len: "length (filter (compact_keep ?d) ?es) < 2 ^ 31"
    using compact_run_length [OF ok l] fits by (simp add: compact_run_def db_fits_def)
  obtain s1 cs1 w1 where loop: "compact_loop ?d ?t ?es (compact_start db) w = (s1, cs1, w1)" by (metis prod_cases3)
  obtain s2 cs2 w2 where last: "flush_batch cs1 w1 = (s2, cs2, w2)" by (metis prod_cases3)
  have 1: "s1 = Status_OK \<and> calm w1 \<and> run_ok (cs_batch cs1) \<and> length (cs_batch cs1) < 2 ^ 31 \<and>
      db_options (cs_db cs1) = db_options db"
    using compact_loop_calm [OF w _ _ _ loop] opts L len by (simp add: compact_start_def)
  then have 2: "s2 = Status_OK \<and> calm w2"
    using flush_batch_calm [OF _ _ _ _ last] opts by simp
  let ?db2 = "set_level (set_level (cs_db cs2) l [] []) (Suc l) (cs_files cs2) (cs_readers cs2)"
  obtain w3 where save: "Version_Save (db_version ?db2) (ManifestPath (db_path ?db2)) w2 = (Status_OK, w3)" "calm w3"
    using Version_Save_calm 2 by blast
  then show ?thesis
    using c l loop last 1 2 fold_fremove_calm
    unfolding CompactLocked_def Let_def Suc_eq_plus1 [symmetric] compact_merge [OF ok l]
    by (auto simp: compact_start_def split: if_splits)
qed

section \<open>Operations\<close>

text \<open>A database at work on a device that does not fail.\<close>

definition running :: "DB \<Rightarrow> world \<Rightarrow> bool" where
  "running db w \<longleftrightarrow> calm w \<and> sane (db_options db) \<and> db_wal db = wal_opened (WalPath (db_path db))"

lemma running_cong:
  "db_options db' = db_options db \<Longrightarrow> db_path db' = db_path db \<Longrightarrow> db_wal db' = db_wal db \<Longrightarrow>
    running db' w = running db w"
  by (simp add: running_def)

lemma running_flush:
  assumes f: "FlushMemTableLocked db w = (s, db', w')" and ok: "db_ok db" and fits: "db_fits db"
    and room: "unat (db_next db) + 1 < 2 ^ 64" and r: "running db w"
  shows "running db' w'" "s = Status_OK" "MemTable_is_empty (db_memtable db')"
proof -
  have r': "calm w" "sane (db_options db)" "db_wal db = wal_opened (WalPath (db_path db))"
    using r by (simp_all add: running_def)
  obtain db2 w2 where "FlushMemTableLocked db w = (Status_OK, db2, w2)" "calm w2" "MemTable_is_empty (db_memtable db2)"
    "db_wal db2 = wal_opened (WalPath (db_path db2))"
    by (rule flush_calm [OF r'(1) ok fits r'(2,3)])
  with f r'(2) FlushMemTableLocked_inv(5) [OF f ok fits room]
  show "running db' w'" "s = Status_OK" "MemTable_is_empty (db_memtable db')" by (simp_all add: running_def)
qed

text \<open>A faultless flush of a memtable that is not empty starts a new log, without the torn bytes of the old one.\<close>

lemma running_flush_repairs:
  assumes f: "FlushMemTableLocked db w = (s, db', w')" and ok: "db_ok db" and fits: "db_fits db"
    and room: "unat (db_next db) + 1 < 2 ^ 64" and r: "running db w" and d: "in_step torn db w"
    and "\<not> MemTable_is_empty (db_memtable db)"
  shows "durable db' w'"
proof -
  have r': "calm w" "sane (db_options db)" "db_wal db = wal_opened (WalPath (db_path db))"
    using r by (simp_all add: running_def)
  obtain db2 w2 where "FlushMemTableLocked db w = (Status_OK, db2, w2)" "fget w2 (WalPath (db_path db)) = Some []"
    by (rule flush_calm [OF r'(1) ok fits r'(2,3)]) (use assms(7) in blast)
  then have "fget w' (WalPath (db_path db')) = Some []"
    using f FlushMemTableLocked_inv(6) [OF f ok fits room] by simp
  with in_step_flush [OF f ok fits room d] show ?thesis by (rule in_step_empty_log)
qed

lemma running_close_repairs:
  assumes cl: "DB_Close db w = (s, db', w')" and ok: "db_ok db" and cap: "capacity db" and d: "in_step torn db w"
    and r: "running db w" and c: "\<not> db_closed db" and mt: "\<not> MemTable_is_empty (db_memtable db)"
  shows "durable db' w'"
proof -
  let ?db = "DB_Close_begin db" and ?db1 = "(DB_Close_begin db)\<lparr>bg_running := False\<rparr>"
  have "DB_Close_finish ?db w = (s, db', w')" using cl c by (simp add: DB_Close_def)
  moreover obtain s1 db1 w1 where fl: "FlushMemTableLocked ?db1 w = (s1, db1, w1)" by (metis prod_cases3)
  moreover have ok': "capacity ?db" "db_ok ?db" using ok cap Close_begin_same [OF ok] by (simp_all add: same_store_def)
  moreover have "durable db1 w1"
  proof (rule running_flush_repairs [OF fl, of torn])
    show "in_step torn ?db1 w" using d by (simp add: durability.flags(3) in_step_begin)
    show "running ?db1 w" "\<not> MemTable_is_empty (db_memtable ?db1)" using r mt by (simp_all add: DB_Close_begin_def running_def)
    have "capacity ?db1" "db_ok ?db1" using ok' by simp_all
    then show "db_ok ?db1" "db_fits ?db1" "unat (db_next ?db1) + 1 < 2 ^ 64" by (simp_all add: capacity_def)
  qed
  ultimately show ?thesis using in_step_finish_flushed by blast
qed

interpretation progress: maintenance_invariant running
proof
  show "running db' w'" if "FlushMemTableLocked db w = (s, db', w')" "db_ok db" "db_fits db"
    "unat (db_next db) + 1 < 2 ^ 64" "running db w" for db w s db' w'
    using that by (rule running_flush)
  show "running db' w'" if c: "CompactLocked l db w = (s, db', w')" "db_ok db" "db_fits db"
    "unat (db_next db) + db_count db + 1 < 2 ^ 64" "running db w" for l db w s db' w'
    using CompactLocked_inv(5,6,9) [OF c(1-3) c(4) [unfolded db_count_def]] CompactLocked_calm [OF c(1) _ c(2,3)] c(5)
    by (simp add: running_def)
qed (simp_all add: running_def)

lemma running_compaction:
  assumes "db_ok db" and "db_fits db" and "loop_room db" and r: "running db w"
  obtains s db' w' where "compaction_while db w = Some (s, db', w')" "Status_ok s" "running db' w'" "maintained db db'"
proof -
  have tr: "0 < l0_compaction_trigger (db_options db)" using r by (simp add: running_def sane_def)
  from compaction_while_inv [OF assms(1-3) tr, of w] obtain s db' w'
    where c: "compaction_while db w = Some (s, db', w')" "maintained db db'" by blast
  have "\<forall>l db w s db' w'. CompactLocked l db w = (s, db', w') \<longrightarrow> db_ok db \<longrightarrow> db_fits db \<longrightarrow> running db w \<longrightarrow> Status_ok s"
    using CompactLocked_calm by (fastforce simp: running_def)
  with progress.through_compaction_loop [OF assms(1-3) tr r c(1)] c show thesis by (intro that [OF c(1)]) blast+
qed

lemma running_DB_Flush:
  assumes ok: "db_ok db" and cap: "capacity db" and r: "running db w"
  obtains s db' w' where "DB_Flush db w = Some (s, db', w')" "Status_ok s" "running db' w'"
    "MemTable_is_empty (db_memtable db')" "same_store db db'"
proof -
  obtain s1 db1 w1 where fl: "FlushMemTableLocked db w = (s1, db1, w1)" by (metis prod_cases3)
  have fits: "db_fits db" and n: "unat (db_next db) < 2 ^ 63" using cap by (simp_all add: capacity_def)
  then have room: "unat (db_next db) + 1 < 2 ^ 64" by simp
  note inv = FlushMemTableLocked_inv [OF fl ok fits room] and run = running_flush [OF fl ok fits room r]
  have fits1: "db_fits db1" using fits inv(3) run(2) by (simp add: db_fits_def)
  have "unat (db_next db1) \<le> 2 ^ 63" using inv(4) n by linarith
  from inv(1) fits1 loop_roomI [OF fits1 this] run(1) show thesis
    by (rule running_compaction)
      (use fl run(2,3) inv in \<open>auto simp: DB_Flush_def same_store_def maintained_def intro!: that\<close>)
qed

lemma running_applied: "running (applied ops db) w = running db w"
  by (simp add: running_def)

lemma AddRecord_running:
  assumes "running db w"
  obtains w1 where "WriteAheadLog_AddRecord (db_wal db) data b w = (Status_OK, w1)" "running db w1"
  using assms by (auto simp: running_def WriteAheadLog_AddRecord_def wal_opened_def WriteAheadLog_Sync_def Let_def)

text \<open>A write appends and applies its batch and leaves the rest to the background thread, a flush or the loop.\<close>

lemma running_write_eq:
  assumes ok: "db_ok db" "\<not> db_closed db" and ops: "batch_ok ops" and r: "running db w"
  obtains w1 where "running (applied ops db) w1" "DB_Write opts (batch_of ops) db w =
    (if background_compaction (db_options db)
     then Some (Status_OK, (applied ops db)\<lparr>bg_work_requested := True, bg_idle := False\<rparr>, w1)
     else if MemTable_ApproximateBytes (db_memtable (applied ops db)) \<ge> memtable_flush_bytes (db_options db)
     then DB_Flush (applied ops db) w1 else compaction_while (applied ops db) w1)"
proof -
  obtain w1 where log: "WriteAheadLog_AddRecord (db_wal db) (rep (batch_of ops)) (sync opts \<or> sync_writes (db_options db)) w =
      (Status_OK, w1)" and r1: "running db w1" by (rule AddRecord_running [OF r])
  show thesis
  proof (rule that [of w1])
    show "running (applied ops db) w1" using r1 by (simp add: running_applied)
  qed (use ok(2) log batch_not_empty [OF ops] in
      \<open>simp add: DB_Write_def ApplyBatchLocked_ok [OF ops] MaybeFlushLocked_def DB_Flush_def\<close>)
qed

lemma running_write:
  assumes serv: "serving db" and ops: "batch_ok ops" and cap: "capacity (applied ops db)" and r: "running db w"
  obtains s db' w' where "DB_Write opts (batch_of ops) db w = Some (s, db', w')" "Status_ok s" "running db' w'"
proof -
  have ok: "db_ok db" "\<not> db_closed db" using serv by (simp_all add: serving_def)
  obtain w1 where ar: "running (applied ops db) w1" and eq: "DB_Write opts (batch_of ops) db w =
    (if background_compaction (db_options db)
     then Some (Status_OK, (applied ops db)\<lparr>bg_work_requested := True, bg_idle := False\<rparr>, w1)
     else if MemTable_ApproximateBytes (db_memtable (applied ops db)) \<ge> memtable_flush_bytes (db_options db)
     then DB_Flush (applied ops db) w1 else compaction_while (applied ops db) w1)"
    by (rule running_write_eq [OF ok ops r])
  have aok: "db_ok (applied ops db)" using applied_ok [OF ok(1) ops] .
  show thesis
  proof (cases "background_compaction (db_options db)")
    case True
    then show thesis
      using eq ar
      by (intro that [of Status_OK "(applied ops db)\<lparr>bg_work_requested := True, bg_idle := False\<rparr>" w1])
        (simp_all add: running_def)
  next
    case False
    have fits: "db_fits (applied ops db)" and n: "unat (db_next (applied ops db)) \<le> 2 ^ 63"
      using cap by (simp_all add: capacity_def)
    show thesis
    proof (cases "MemTable_ApproximateBytes (db_memtable (applied ops db)) \<ge> memtable_flush_bytes (db_options db)")
      case True
      from aok cap ar show thesis by (rule running_DB_Flush) (use eq False True that in auto)
    next
      case no_flush: False
      from aok fits loop_roomI [OF fits n] ar show thesis
        by (rule running_compaction) (use eq False no_flush that in auto)
    qed
  qed
qed

text \<open>A database opened without faults is running.\<close>

lemma opened_running:
  "calm w \<Longrightarrow> sane options \<Longrightarrow> running (opened options p v rss mt) w"
  by (simp add: running_def)

end
