(* ===== verification/Histories.thy ===== *)
theory Histories
  imports Calm
begin

text \<open>
  Whole client histories. The premises on capacity of a single operation follow from a budget fixed at
  the start: the bytes and entries the history writes, and a number of file numbers per request. On a device
  that does not fail every request of such a history is served, and the result is the plain sequence of
  the batches on the map.
\<close>

section \<open>Requests\<close>

datatype request = Batch WriteOptions "batch_op list" | FlushRequest | BackgroundTurn

fun serve :: "request \<Rightarrow> DB \<times> world \<Rightarrow> (Status \<times> DB \<times> world) option" where
  "serve (Batch opts ops) (db, w) = DB_Write opts (batch_of ops) db w"
| "serve FlushRequest (db, w) = DB_Flush db w"
| "serve BackgroundTurn (db, w) =
     (if BackgroundLoop_awake db then map_option (\<lambda>(db', w'). (Status_OK, db', w')) (BackgroundLoop_turn db w)
      else Some (Status_OK, db, w))"

fun serve_all :: "request list \<Rightarrow> DB \<times> world \<Rightarrow> (Status list \<times> DB \<times> world) option" where
  "serve_all [] (db, w) = Some ([], db, w)"
| "serve_all (r # rs) st =
     (case serve r st of
        None \<Rightarrow> None
      | Some (s, db1, w1) \<Rightarrow> map_option (\<lambda>(ss, st'). (s # ss, st')) (serve_all rs (db1, w1)))"

fun request_ops :: "request \<Rightarrow> batch_op list" where
  "request_ops (Batch opts ops) = ops"
| "request_ops _ = []"

fun request_ok :: "request \<Rightarrow> bool" where
  "request_ok (Batch opts ops) \<longleftrightarrow> batch_ok ops"
| "request_ok _ \<longleftrightarrow> True"

section \<open>What a request adds\<close>

fun op_entry :: "batch_op \<Rightarrow> SSTableEntry" where
  "op_entry (OpPut k v) = flush_entry (k, \<lparr>deleted = False, mem_value = v\<rparr>)"
| "op_entry (OpDelete k) = flush_entry (k, \<lparr>deleted = True, mem_value = []\<rparr>)"

lemma total_memtable_assign:
  "total f (map flush_entry (map_assign k mv m)) \<le> total f (map flush_entry m) + f (flush_entry (k, mv))"
  by (induction k mv m rule: map_assign.induct) auto

lemma total_mem_apply:
  "total f (memtable_entries_of (mem_apply ops mt)) \<le> total f (memtable_entries_of mt) + total f (map op_entry ops)"
proof (induction ops arbitrary: mt)
  case (Cons op ops)
  have "total f (memtable_entries_of (handle_op MemTable_Put MemTable_Delete op mt)) \<le>
      total f (memtable_entries_of mt) + f (op_entry op)"
    using total_memtable_assign [of f] by (cases op) (simp_all add: memtable_entries_of_def MemTable_Put_def MemTable_Delete_def)
  with Cons [of "handle_op MemTable_Put MemTable_Delete op mt"] show ?case by simp
qed simp

lemma db_total_applied: "db_total f (applied ops db) \<le> db_total f db + total f (map op_entry ops)"
  using total_mem_apply [of f ops "db_memtable db"]
  by (simp add: db_total_def store_entries_def) (simp add: applied_def)

text \<open>The budget of a history: every request may take as many file numbers as a compaction of everything.\<close>

definition numbers_per_request :: nat where
  "numbers_per_request = 2 ^ 38"

definition history_total :: "(SSTableEntry \<Rightarrow> nat) \<Rightarrow> request list \<Rightarrow> nat" where
  "history_total f rs = total f (concat (map (\<lambda>r. map op_entry (request_ops r)) rs))"

definition within_budget :: "DB \<Rightarrow> request list \<Rightarrow> bool" where
  "within_budget db rs \<longleftrightarrow>
     db_total entry_weight db + history_total entry_weight rs < addressable \<and>
     db_total (\<lambda>_. 1) db + history_total (\<lambda>_. 1) rs < 2 ^ 31 \<and>
     unat (db_next db) + length rs * numbers_per_request < 2 ^ 63"

lemma history_total_simps [simp]:
  "history_total f [] = 0"
  "history_total f (r # rs) = total f (map op_entry (request_ops r)) + history_total f rs"
  by (simp_all add: history_total_def)

lemma within_budget_capacity: "within_budget db rs \<Longrightarrow> capacity db"
  by (simp add: within_budget_def capacity_def db_fits_def)

lemma within_budget_applied:
  assumes "within_budget db (Batch opts ops # rs)"
  shows "capacity (applied ops db)"
  using assms db_total_applied [of entry_weight ops db] db_total_applied [of "\<lambda>_. 1" ops db]
  by (simp add: within_budget_def capacity_def db_fits_def)

text \<open>What serving a request may use up.\<close>

definition spent :: "batch_op list \<Rightarrow> DB \<Rightarrow> DB \<Rightarrow> bool" where
  "spent ops db db' \<longleftrightarrow> (\<forall>f. db_total f db' \<le> db_total f db + total f (map op_entry ops)) \<and>
     unat (db_next db') \<le> unat (db_next db) + numbers_per_request"

lemma within_budget_step:
  assumes "within_budget db (r # rs)" and "spent (request_ops r) db db'"
  shows "within_budget db' rs"
proof -
  have "db_total entry_weight db' \<le> db_total entry_weight db + total entry_weight (map op_entry (request_ops r))"
    "db_total (\<lambda>_. 1) db' \<le> db_total (\<lambda>_. 1) db + total (\<lambda>_. 1) (map op_entry (request_ops r))"
    "unat (db_next db') \<le> unat (db_next db) + numbers_per_request"
    using assms(2) by (simp_all add: spent_def)
  with assms(1) show ?thesis by (simp add: within_budget_def)
qed

section \<open>Maintenance stays within it\<close>

lemma loop_cost:
  assumes "db_count db < 2 ^ 31"
  shows "compact_measure db * (db_count db + 1) + 1 \<le> numbers_per_request"
proof -
  have "compact_measure db * (db_count db + 1) \<le> 63 * 2 ^ 31"
    using assms by (intro mult_le_mono compact_measure_le) simp
  then show ?thesis by (simp add: numbers_per_request_def)
qed

lemma compaction_spent:
  assumes "db_ok db" and "db_fits db" and "loop_room db" and "0 < l0_compaction_trigger (db_options db)"
    and "compaction_while db w = Some (s, db', w')"
  shows "\<forall>f. db_total f db' \<le> db_total f db" "unat (db_next db') + 1 \<le> unat (db_next db) + numbers_per_request"
proof -
  have "db_count db < 2 ^ 31" using assms(2) by (simp add: db_count_def db_fits_def)
  then show "\<forall>f. db_total f db' \<le> db_total f db" "unat (db_next db') + 1 \<le> unat (db_next db) + numbers_per_request"
    using compaction_while_inv [OF assms(1-4), of w] assms(5) loop_cost [of db] by (auto simp: maintained_def)
qed

lemma flush_spent:
  assumes ok: "db_ok db" and cap: "capacity db" and r: "running db w" and f: "DB_Flush db w = Some (s, db', w')"
  shows "spent [] db db'"
proof -
  obtain s1 db1 w1 where fl: "FlushMemTableLocked db w = (s1, db1, w1)" by (metis prod_cases3)
  have fits: "db_fits db" and n: "unat (db_next db) < 2 ^ 63" using cap by (simp_all add: capacity_def)
  then have room: "unat (db_next db) + 1 < 2 ^ 64" by simp
  note inv = FlushMemTableLocked_inv [OF fl ok fits room] and run = running_flush [OF fl ok fits room r]
  have fits1: "db_fits db1" using fits inv(3) run(2) by (simp add: db_fits_def)
  have n1: "unat (db_next db1) \<le> 2 ^ 63" using inv(4) n by linarith
  have "0 < l0_compaction_trigger (db_options db1)" using run(1) by (simp add: running_def sane_def)
  moreover have "compaction_while db1 w1 = Some (s, db', w')" using fl f run(2) by (simp add: DB_Flush_def)
  ultimately show ?thesis
    using compaction_spent [OF inv(1) fits1 loop_roomI [OF fits1 n1]] inv(3,4) run(2)
    by (fastforce simp: spent_def)
qed

lemma spent_applied:
  assumes "spent [] (applied ops db) db'"
  shows "spent ops db db'"
  using assms db_total_applied [of _ ops db] unfolding spent_def
  by (metis (no_types, lifting) add.right_neutral applied_simps(3) list.simps(8) order_trans total_simps(1))

lemma write_spent:
  assumes serv: "serving db" and ops: "batch_ok ops" and cap: "capacity (applied ops db)" and r: "running db w"
    and wr: "DB_Write opts (batch_of ops) db w = Some (s, db', w')"
  shows "spent ops db db'"
proof -
  have ok: "db_ok db" "\<not> db_closed db" using serv by (simp_all add: serving_def)
  obtain w1 where ar: "running (applied ops db) w1" and eq: "DB_Write opts (batch_of ops) db w =
    (if background_compaction (db_options db)
     then Some (Status_OK, (applied ops db)\<lparr>bg_work_requested := True, bg_idle := False\<rparr>, w1)
     else if MemTable_ApproximateBytes (db_memtable (applied ops db)) \<ge> memtable_flush_bytes (db_options db)
     then DB_Flush (applied ops db) w1 else compaction_while (applied ops db) w1)"
    by (rule running_write_eq [OF ok ops r])
  note aok = applied_ok [OF ok(1) ops]
  have fits: "db_fits (applied ops db)" and n: "unat (db_next (applied ops db)) \<le> 2 ^ 63"
    using cap by (simp_all add: capacity_def)
  have tr: "0 < l0_compaction_trigger (db_options (applied ops db))" using ar by (simp add: running_def sane_def)
  consider (bg) "db' = (applied ops db)\<lparr>bg_work_requested := True, bg_idle := False\<rparr>"
    | (fl) "DB_Flush (applied ops db) w1 = Some (s, db', w')"
    | (loop) "compaction_while (applied ops db) w1 = Some (s, db', w')"
    using wr eq by (auto split: if_splits)
  then have "spent [] (applied ops db) db'"
  proof cases
    case bg
    then show ?thesis by (simp add: spent_def db_total_def db_tables_def)
  next
    case fl
    with aok cap ar show ?thesis by (rule flush_spent)
  next
    case loop
    from compaction_spent [OF aok fits loop_roomI [OF fits n] tr loop] show ?thesis by (simp add: spent_def)
  qed
  then show ?thesis by (rule spent_applied)
qed

lemma background_spent:
  assumes ok: "db_ok db" and cap: "capacity db" and r: "running db w" and b: "BackgroundLoop_turn db w = Some (db', w')"
  shows "spent [] db db'"
proof (cases "shutting_down db")
  case True
  then show ?thesis using b by (auto simp: BackgroundLoop_turn_def spent_def db_total_def db_tables_def)
next
  case False
  let ?db = "db\<lparr>bg_work_requested := False\<rparr>"
  have "BackgroundLoop_turn db w = map_option (\<lambda>(s, db2, w2). (db2\<lparr>bg_idle := True\<rparr>, w2)) (DB_Flush ?db w)"
    using False by (simp add: BackgroundLoop_turn_def DB_Flush_def split: prod.split)
  then obtain s db1 where fl: "DB_Flush ?db w = Some (s, db1, w')" and db': "db' = db1\<lparr>bg_idle := True\<rparr>"
    using b by (cases "DB_Flush ?db w") auto
  have "capacity ?db" "running ?db w" "db_ok ?db"
    using cap r ok by (simp_all add: capacity_def db_fits_def db_total_def db_tables_def running_def)
  from flush_spent [OF this(3,1,2) fl] show ?thesis by (simp add: db' spent_def db_total_def db_tables_def)
qed

section \<open>Serving a history\<close>

text \<open>One request: it returns success, does what it should to the view and keeps everything a history needs.\<close>

lemma serve_request:
  assumes serv: "serving db" and r: "running db w" and ok: "request_ok req" and budget: "within_budget db (req # rs)"
  obtains s db' w' where "serve req (db, w) = Some (s, db', w')" "Status_ok s" "serving db'" "running db' w'"
    "db_view db' = ops_view (request_ops req) (db_view db)" "within_budget db' rs" "durable db w \<Longrightarrow> durable db' w'"
proof -
  have db: "db_ok db" "0 < l0_compaction_trigger (db_options db)" using serv by (simp_all add: serving_def)
  note cap = within_budget_capacity [OF budget]
  show thesis
  proof (cases req)
    case (Batch opts ops)
    then have ops: "batch_ok ops" and acap: "capacity (applied ops db)"
      using ok budget within_budget_applied by auto
    obtain s db' w' where wr: "DB_Write opts (batch_of ops) db w = Some (s, db', w')" "Status_ok s" "running db' w'"
      by (rule running_write [OF serv ops acap r])
    show thesis
      using wr Batch DB_Write_step [OF serv ops acap wr(1)] durable_write(1) [OF serv ops acap _ wr(1,2)]
        within_budget_step [OF budget] write_spent [OF serv ops acap r wr(1)]
      by (intro that [of s db' w']) (auto simp: wr(2))
  next
    case FlushRequest
    obtain s db' w' where fl: "DB_Flush db w = Some (s, db', w')" "Status_ok s" "running db' w'" "same_store db db'"
      by (rule running_DB_Flush [OF db(1) cap r])
    show thesis
      using fl FlushRequest serving_same [OF serv fl(4)] durability.through_flush [OF db(1) cap db(2) _ fl(1)]
        within_budget_step [OF budget] flush_spent [OF db(1) cap r fl(1)]
      by (intro that [of s db' w']) (auto simp: same_store_def ops_view_def)
  next
    case BackgroundTurn
    show thesis
    proof (cases "BackgroundLoop_awake db")
      case False
      then show thesis
        using BackgroundTurn serv r within_budget_step [OF budget, of db]
        by (intro that [of Status_OK db w]) (simp_all add: ops_view_def spent_def)
    next
      case True
      from Background_total [OF db(1) cap db(2)] obtain db' w'
        where b: "BackgroundLoop_turn db w = Some (db', w')" "same_store db db'" by blast
      show thesis
        using b BackgroundTurn True serving_same [OF serv b(2)] progress.through_background [OF db(1) cap db(2) r b(1)]
          durability.through_background [OF db(1) cap db(2) _ b(1)]
          within_budget_step [OF budget] background_spent [OF db(1) cap r b(1)]
        by (intro that [of Status_OK db' w']) (auto simp: same_store_def ops_view_def)
    qed
  qed
qed

lemma ops_view_append: "ops_view (xs @ ys) V = ops_view ys (ops_view xs V)"
  by (simp add: ops_view_def)

lemma serve_history:
  assumes "serving db" and "running db w" and "list_all request_ok rs" and "within_budget db rs"
  shows "\<exists>ss db' w'. serve_all rs (db, w) = Some (ss, db', w') \<and> length ss = length rs \<and> list_all Status_ok ss \<and>
    serving db' \<and> running db' w' \<and> db_view db' = ops_view (concat (map request_ops rs)) (db_view db) \<and>
    (durable db w \<longrightarrow> durable db' w')"
  using assms
proof (induction rs arbitrary: db w)
  case Nil
  then show ?case by (simp add: ops_view_def)
next
  case (Cons r rs)
  then have "request_ok r" by simp
  from Cons.prems(1,2) this Cons.prems(4) show ?case
  proof (rule serve_request)
    fix s db1 w1
    assume r: "serve r (db, w) = Some (s, db1, w1)" "Status_ok s" "serving db1" "running db1 w1"
      "db_view db1 = ops_view (request_ops r) (db_view db)" "within_budget db1 rs" and d: "durable db w \<Longrightarrow> durable db1 w1"
    from Cons.IH [OF r(3,4) _ r(6)] Cons.prems(3) show ?case
      using r d by (fastforce simp: ops_view_append)
  qed
qed

end
