(* ===== verification/Samples.thy ===== *)
theory Samples
  imports Sessions Histories
begin

text \<open>
  A concrete database: the one a fault-free \<open>Open\<close> of the new directory \<open>d\<close> with default options
  hands out, and the world it leaves. The properties about the engine are applied to it.
\<close>

definition sample_db :: DB where
  "sample_db = opened default_Options ''d'' Version_new (replicate kMaxLevels []) (replayed [])"

definition sample_world :: world where
  "sample_world = \<lparr>files = [(''d/CURRENT.wal'', [])], dirs = [''d''], faults = [], crashed = False\<rparr>"

definition sample_ops :: "batch_op list" where
  "sample_ops = [OpPut [1] [2, 3], OpDelete [4]]"

lemma sample_world_simps [simp]:
  "calm sample_world" "fget sample_world (WalPath ''d'') = Some []" "fget sample_world (ManifestPath ''d'') = None"
  "dirs sample_world = [''d'']"
  by (simp_all add: sample_world_def calm_def fget_def WalPath_def ManifestPath_def)

lemma sample_dir [simp]: "dir_name ''d''" "canon_dir ''d'' = ''d''"
  by (simp_all add: dir_name_def canon_dir_def)

lemma sample_recoverable:
  "recoverable_with sample_world ''d'' Version_new (replicate kMaxLevels []) [] []"
  using version_for_new
  by (simp add: recoverable_with_def disk_version_def disk_tables_def Version_new_def list_all2_conv_all_nth)

lemma sample_readers: "list_all2 (list_all2 reader_for) (replicate kMaxLevels []) (replicate kMaxLevels [])"
  by (simp add: list_all2_conv_all_nth)

lemmas sample_opened = opened_ok [OF sample_readers sample_recoverable, of default_Options, folded sample_db_def]

lemma sample_simps [simp]:
  "db_options sample_db = default_Options" "db_path sample_db = ''d''" "\<not> db_closed sample_db"
  "db_wal sample_db = wal_opened (WalPath ''d'')" "db_version sample_db = Version_new"
  "db_memtable sample_db = MemTable_empty" "db_tables sample_db = replicate kMaxLevels []"
  using sample_opened(1) by (simp_all add: sample_db_def replayed_def)

lemma sample_view: "db_view sample_db = Map.empty"
  unfolding sample_opened(3)
  by (auto simp: store_view_def store_lookup_def tables_lookup_concat replayed_def fun_eq_iff map_add_def)

lemma default_trigger [simp]: "0 < l0_compaction_trigger default_Options" "background_compaction default_Options"
  "\<not> sync_writes default_Options" "\<not> error_if_exists default_Options" "create_if_missing default_Options"
  by (simp_all add: default_Options_def)

lemma sample_serving: "serving sample_db"
  using sample_opened(2) by (simp add: serving_def)

lemma durable_reboot [simp]: "durable db (reboot fs w) = durable db w"
  by (simp add: durable_def recoverable_with_reboot disk_tables_def disk_table_def)

lemma sample_durable: "durable sample_db sample_world"
  using sample_opened(4) by simp

lemma capacity_small:
  assumes "db_tables db = replicate kMaxLevels []" and "db_version db = Version_new"
    and "total entry_weight (memtable_entries_of (db_memtable db)) < 2 ^ 31"
  shows "capacity db"
proof -
  have "total (\<lambda>_. 1) es \<le> total entry_weight es" for es
    by (induction es) (auto simp: entry_weight_def)
  from this [of "memtable_entries_of (db_memtable db)"] assms show ?thesis
    by (simp add: capacity_def db_fits_def db_total_def store_entries_def Version_new_def addressable_def
        concat_replicate_trivial del: One_nat_def)
qed

lemma sample_capacity: "capacity sample_db" "capacity (applied sample_ops sample_db)"
  by (rule capacity_small; simp add: memtable_entries_of_def MemTable_empty_def applied_def sample_ops_def
      MemTable_Put_def MemTable_Delete_def entry_weight_def flush_entry_def total_def)+

lemma sample_batch: "batch_ok sample_ops"
  using length_lps_bytes_le [of "[1]"] length_lps_bytes_le [of "[2, 3]"] length_lps_bytes_le [of "[4]"]
  by (simp add: batch_ok_def sample_ops_def lps_ok_def wal_ok_def rep_batch_of)

text \<open>An append without faults.\<close>

lemma AddRecord_calm:
  "calm w \<Longrightarrow> WriteAheadLog_AddRecord (wal_opened p) data b w =
    (Status_OK, fset p (the_default [] (fget w p) @ wal_record data) w)"
  by (simp add: WriteAheadLog_AddRecord_def wal_opened_def WriteAheadLog_Sync_def Let_def)

text \<open>With a background thread and no fault a write appends, applies and leaves a request.\<close>

lemma DB_Write_calm:
  assumes "calm w" and "background_compaction (db_options db)" and "\<not> db_closed db"
    and "db_wal db = wal_opened p" and "batch_ok ops"
  shows "DB_Write opts (batch_of ops) db w =
    Some (Status_OK, (applied ops db)\<lparr>bg_work_requested := True, bg_idle := False\<rparr>,
      fset p (the_default [] (fget w p) @ wal_record (rep (batch_of ops))) w)"
  using assms batch_not_empty [OF assms(5)] ApplyBatchLocked_ok [OF assms(5)] AddRecord_calm [OF assms(1)]
  by (simp add: DB_Write_def)

definition sample_written :: DB where
  "sample_written = (applied sample_ops sample_db)\<lparr>bg_work_requested := True, bg_idle := False\<rparr>"

definition sample_world' :: world where
  "sample_world' = fset (WalPath ''d'') (wal_record (rep (batch_of sample_ops))) sample_world"

lemma sample_write:
  "DB_Write \<lparr>sync = False\<rparr> (batch_of sample_ops) sample_db sample_world = Some (Status_OK, sample_written, sample_world')"
  using DB_Write_calm [OF sample_world_simps(1) _ _ _ sample_batch, of sample_db "WalPath ''d''"]
  by (simp add: sample_written_def sample_world'_def)

lemma sample_step: "db_step (sample_db, sample_world) (EvWrite sample_ops Status_OK) (sample_written, sample_world')"
  using sample_batch sample_capacity(2) sample_write by (rule db_step.step_write)

lemma sample_run: "db_run (sample_db, sample_world) [EvWrite sample_ops Status_OK] (sample_written, sample_world')"
  using sample_step by (blast intro: db_run.intros)

lemma sample_written_simps [simp]:
  "db_path sample_written = ''d''" "\<not> db_closed sample_written" "db_options sample_written = default_Options"
  by (simp_all add: sample_written_def)

lemma sample_written_ok: "serving sample_written" "db_view sample_written = [[1] \<mapsto> [2, 3]]"
  using applied_ok [OF _ sample_batch, of sample_db] sample_serving
  by (simp_all add: serving_def sample_written_def applied_view ops_view_def sample_view)
    (simp add: sample_ops_def fun_eq_iff)

lemma sample_written_capacity: "capacity sample_written"
  using sample_capacity(2) by (simp add: sample_written_def capacity_def db_fits_def db_total_def db_tables_def)

lemma sample_rewritten_capacity: "capacity (applied sample_ops sample_written)"
  by (rule capacity_small) (simp_all add: memtable_entries_of_def MemTable_empty_def applied_def sample_ops_def
      MemTable_Put_def MemTable_Delete_def entry_weight_def flush_entry_def total_def sample_written_def db_tables_def sample_db_def replayed_def)

lemma sample_written_durable: "durable sample_written sample_world'"
  using durable_write(1) [OF sample_serving sample_batch sample_capacity(2) sample_durable sample_write] by simp

text \<open>A session: the database is opened, one client closes it, and another writes while \<open>Close\<close> waits for the thread.\<close>

definition sample_closing :: DB where
  "sample_closing = (applied sample_ops (DB_Close_begin sample_db))\<lparr>bg_work_requested := True, bg_idle := False\<rparr>"

lemma sample_closing_simps: "shutting_down sample_closing" "capacity sample_closing"
  "capacity (applied sample_ops (DB_Close_begin sample_db))"
  using sample_capacity(2)
  by (simp_all add: sample_closing_def applied_def DB_Close_begin_def capacity_def db_fits_def db_total_def db_tables_def)

lemma sample_open:
  obtains w' where "DB_Open default_Options ''d'' (reboot [] sample_world) = (Status_OK, Some sample_db, w')"
    "calm w'" "fget w' (WalPath ''d'') = Some []"
  using sample_recoverable
proof (rule DB_Open_recovers)
  fix rss w'
  assume o: "DB_Open default_Options ''d'' (reboot [] sample_world) =
      (Status_OK, Some (opened default_Options ''d'' Version_new rss (replayed [])), w')"
    and "list_all2 (list_all2 reader_for) rss (replicate kMaxLevels [])" and w': "calm w'"
      "fget w' (WalPath ''d'') = Some (log_of [] @ [])"
  then have "rss = replicate kMaxLevels []" by (auto simp: list_all2_conv_all_nth intro: nth_equalityI)
  with o w' show thesis by (intro that [of w']) (simp_all add: sample_db_def)
qed simp_all

lemma sample_lifetime: "\<exists>w. lifetime ''d'' sample_world True [EvClosing, EvWrite sample_ops Status_OK] w"
proof -
  obtain w1 where o: "DB_Open default_Options ''d'' (reboot [] sample_world) = (Status_OK, Some sample_db, w1)" and w1: "calm w1"
    by (rule sample_open)
  then have "opens default_Options ''d'' [] sample_world sample_db w1" by (simp add: opens_def)
  moreover obtain w2 where wr: "DB_Write \<lparr>sync = False\<rparr> (batch_of sample_ops) (DB_Close_begin sample_db) (resume [] w1) =
      Some (Status_OK, sample_closing, w2)"
    using DB_Write_calm [of "resume [] w1" "DB_Close_begin sample_db" "WalPath ''d''" sample_ops "\<lparr>sync = False\<rparr>"] w1 sample_batch
    by (simp add: sample_closing_def DB_Close_begin_def resume_def calm_def)
  from db_step.step_closing [of sample_db] have closing:
      "db_step (sample_db, resume [] w1) EvClosing (DB_Close_begin sample_db, resume [] w1)" by simp
  have "guarded_run True (sample_db, resume [] w1) [EvClosing, EvWrite sample_ops Status_OK] True (sample_closing, w2)"
    by (rule guarded_step [OF closing _ _ guarded_step
          [OF db_step.step_write [OF sample_batch sample_closing_simps(3) wr] _ _ guarded_nil]]) simp_all
  ultimately have s: "session True ''d'' sample_world [EvClosing, EvWrite sample_ops Status_OK] True sample_closing w2"
    unfolding session_def by fastforce
  obtain s db' w' where "DB_Close_finish sample_closing w2 = (s, db', w')" by (metis prod_cases3)
  from life_closed [OF life_start s sample_closing_simps(1,2) this] show ?thesis by auto
qed

lemma sample_ops_view: "ops_view sample_ops Map.empty = [[1] \<mapsto> [2, 3]]"
  by (simp add: ops_view_def sample_ops_def fun_eq_iff)

text \<open>The process dies while three bytes of the record have reached the log.\<close>

definition sample_crash :: world where
  "sample_crash = (reboot [Crash 3] sample_world)"

lemma wal_record_nonempty: "wal_record r \<noteq> []"
  using length_wal_record [of r] by (auto simp del: length_wal_record)

lemma sample_crash_write:
  "\<exists>m w'. DB_Write \<lparr>sync = False\<rparr> (batch_of sample_ops) sample_db sample_crash = Some (Status_IOError m, sample_db, w')"
  using batch_not_empty [OF sample_batch]
  by (simp add: DB_Write_def WriteAheadLog_AddRecord_def wal_opened_def fwrite_def next_fault_def sample_crash_def
      reboot_def Let_def wal_record_nonempty) blast

section \<open>A directory with one table\<close>

definition sample_filter :: bytes where
  "sample_filter = the (BloomFilter_Build (map e_key sample_table) 10)"

definition sample_disk_version :: Version where
  "sample_disk_version = \<lparr>levels = [[\<lparr>number = 1, min_key = [1], max_key = [1, 0], file_size = 99\<rparr>], [], [], [], [], []],
     next_file_number = 2\<rparr>"

definition sample_disk :: world where
  "sample_disk = \<lparr>files = [(canon (SSTablePath ''d'' 1), table_bytes sample_table sample_filter),
       (canon (ManifestPath ''d''), Save_bytes sample_disk_version)],
     dirs = [''d''], faults = [], crashed = False\<rparr>"

lemma sample_disk_table: "disk_table sample_disk (SSTablePath ''d'' 1) sample_table"
proof -
  have "BloomFilter_Build (map e_key sample_table) 10 = Some sample_filter \<and> table_fits sample_table sample_filter"
    by (rule sample_table_built) (simp add: sample_filter_def)
  then show ?thesis
    using sample_table_ok by (auto simp: disk_table_def sample_disk_def fget_def)
qed

lemma sample_disk_version_for: "version_for sample_disk_version [[sample_table], [], [], [], [], []]"
  using sample_table_ok
  by (simp add: version_for_def sample_disk_version_def tables_ok_def kMaxLevels_def level_sorted_def version_numbers_def
      meta_for_def sample_table_def)

lemma sample_disk_recoverable:
  "recoverable_with sample_disk ''d'' sample_disk_version [[sample_table], [], [], [], [], []] [] []"
proof -
  have "Version_ok sample_disk_version"
    using sample_disk_version_for by (rule Version_ok_for) (simp add: sample_table_def)
  moreover have "fget sample_disk (ManifestPath ''d'') = Some (Save_bytes sample_disk_version)"
    "fget sample_disk (WalPath ''d'') = None"
    using paths_apart(5) [of "''d''" 1, symmetric] paths_apart(6) [of "''d''" 1, symmetric]
    by (simp_all add: sample_disk_def fget_def)
  ultimately show ?thesis
    using sample_disk_version_for sample_disk_table
    by (simp add: recoverable_with_def disk_version_def disk_tables_def) (simp add: sample_disk_def sample_disk_version_def)
qed

lemma sample_disk_view:
  "store_view (replayed []) [[sample_table], [], [], [], [], []] = [[1] \<mapsto> [2, 3]]"
  "store_view (replayed []) (replicate kMaxLevels []) = Map.empty"
  by (auto simp: store_view_def store_lookup_def tables_lookup_concat replayed_def fun_eq_iff sample_table_def entry_of_def map_add_def)

lemma sample_disk_fits: "store_fits sample_disk_version (replayed []) [[sample_table], [], [], [], [], []]"
  by (simp add: store_fits_def store_entries_def replayed_def memtable_entries_of_def MemTable_empty_def sample_table_def
      sample_disk_version_def entry_weight_def addressable_def)

section \<open>A log that is read short\<close>

lemma sample_log_recoverable:
  "recoverable_with sample_world' ''d'' Version_new (replicate kMaxLevels []) [sample_ops] []"
proof -
  have "changes_only {canon (WalPath ''d'')} sample_world sample_world'"
    by (simp add: sample_world'_def sample_world_def changes_only_def)
  then show ?thesis
    using sample_batch by (intro recoverable_with_log [OF sample_recoverable]) (simp_all add: sample_world'_def)
qed

lemma sample_short_open:
  obtains db w' where "DB_Open default_Options ''d'' (reboot [NoFault, NoFault, Short 0] sample_world') = (Status_OK, Some db, w')"
    "db_view db = Map.empty"
proof -
  let ?w = "reboot [NoFault, NoFault, Short 0] sample_world'"
  let ?w1 = "?w\<lparr>faults := [NoFault, Short 0]\<rparr>" and ?w2 = "?w\<lparr>faults := [Short 0]\<rparr>" and ?w3 = "?w\<lparr>faults := []\<rparr>"
  have w: "\<not> crashed ?w" "faults ?w = [NoFault, NoFault, Short 0]" "dirs ?w = [''d'']"
    "files ?w = [(''d/CURRENT.wal'', wal_record (rep (batch_of sample_ops)))]"
    by (simp_all add: reboot_def sample_world'_def sample_world_def fset_def WalPath_def)
  have log: "fget ?w (WalPath ''d'') = Some (wal_record (rep (batch_of sample_ops)))"
    and man: "fget ?w (ManifestPath ''d'') = None"
    by (simp_all add: fget_def w(4) WalPath_def ManifestPath_def)
  have names: "fs_list ''d'' ?w = [''CURRENT.wal'']"
    by (simp add: fs_list_def w(4))
  have "fs_exists ''d'' ?w" by (simp add: fs_exists_def w(3))
  moreover have "Version_Load Version_new (ManifestPath ''d'') ?w = (Status_NotFound (ManifestPath ''d''), Version_new, ?w1)"
    using w(1,2) man by (simp add: Version_Load_def fopen_rb_def next_fault_def)
  moreover have "Open_sweep ((DB_new default_Options ''d'')\<lparr>db_version := Version_new\<rparr>) ?w1 = ?w2"
    using w names by (simp add: Open_sweep_eq fs_exists_def fs_directory_iterator_def next_fault_def fs_list_def)
  moreover have "WriteAheadLog_ReplayAll (WalPath ''d'') replay_record MemTable_empty ?w2 = (Status_OK, MemTable_empty, ?w3)"
    using w(1,2) log by (simp add: WriteAheadLog_ReplayAll_def fopen_rb_def next_fault_def ReplayAll_loop.simps)
  moreover have "WriteAheadLog_Open WriteAheadLog_new (WalPath ''d'') ?w3 = (Status_OK, wal_opened (WalPath ''d''), ?w3)"
    using w(1,2) log by (simp add: WriteAheadLog_Open_def WriteAheadLog_new_def wal_opened_def fopen_ab_def next_fault_def)
  ultimately have "DB_Open default_Options ''d'' ?w = (Status_OK, Some sample_db, ?w3)"
    by (simp add: DB_Open_def Open_object_def Let_def sample_db_def opened_def replayed_def DB_new_def Version_new_def kMaxLevels_def numeral_eq_Suc)
  then show thesis using sample_view by (rule that)
qed

section \<open>A log with a torn tail\<close>

text \<open>The process died with one byte of its first record missing.\<close>

definition sample_tail :: bytes where
  "sample_tail = take 12 (wal_record [1, 1, 1, 1, 2])"

definition sample_torn :: world where
  "sample_torn = fset (WalPath ''d'') sample_tail sample_world"

lemma sample_torn_recoverable:
  "recoverable_with sample_torn ''d'' Version_new (replicate kMaxLevels []) [] sample_tail"
proof -
  have "wal_records sample_tail = []"
    using next_record_torn [of "[1, 1, 1, 1, 2]" 12]
    by (subst wal_records_step) (simp add: sample_tail_def wal_ok_def)
  moreover have "changes_only {canon (WalPath ''d'')} sample_world sample_torn"
    by (simp add: sample_torn_def sample_world_def changes_only_def)
  ultimately show ?thesis
    by (intro recoverable_with_log [OF sample_recoverable]) (simp_all add: sample_torn_def)
qed

definition sample_later :: "batch_op list" where
  "sample_later = [OpPut [9] [9]]"

lemma sample_later_rep: "rep (batch_of sample_later) = [1, 1, 9, 1, 9]"
  by (simp add: rep_batch_of sample_later_def RecordType_kPut_def lps_bytes_def varint_bytes.simps)

lemma sample_later_ok: "batch_ok sample_later"
  by (simp add: batch_ok_def sample_later_rep wal_ok_def) (simp add: sample_later_def lps_ok_def)

lemma sample_later_record: "wal_record [1, 1, 9, 1, 9] = [0x58] @ tl (wal_record [1, 1, 9, 1, 9])"
  by (simp add: wal_record_eq wal_framed_eq le_bytes_4 crc_Mask_def crc_eval)

lemma sample_later_unreadable: "next_record (sample_tail @ wal_record (rep (batch_of sample_later))) = None"
proof -
  let ?rec = "[1, 1, 1, 1, 2] :: bytes"
  have "sample_tail = le_bytes 4 (crc_Mask (crc_Value (wal_framed ?rec))) @ le_bytes 4 (of_nat (length ?rec) :: u32) @ [1, 1, 1, 1]"
    by (simp add: sample_tail_def wal_record_eq wal_framed_eq)
  then have "sample_tail @ wal_record (rep (batch_of sample_later)) =
      le_bytes 4 (crc_Mask (crc_Value (wal_framed ([1, 1, 1, 1] @ [2] @ [])))) @
      le_bytes 4 (of_nat (length ([1, 1, 1, 1 :: byte] @ [2] @ [])) :: u32) @ ([1, 1, 1, 1] @ [0x58] @ []) @ tl (wal_record [1, 1, 9, 1, 9])"
    by (simp add: sample_later_rep) (subst sample_later_record, simp)
  also have "next_record \<dots> = None"
    by (rule next_record_damaged) (simp_all add: wal_ok_def)
  finally show ?thesis .
qed

lemma sample_budget:
  "within_budget sample_db [Batch a sample_ops, BackgroundTurn, FlushRequest, Batch b sample_later]"
  by (simp add: within_budget_def db_total_def store_entries_def memtable_entries_of_def MemTable_empty_def
      concat_replicate_trivial sample_ops_def sample_later_def entry_weight_def flush_entry_def addressable_def
      numbers_per_request_def Version_new_def)

end
