(* ===== verification/Cli.thy ===== *)
theory Cli
  imports Samples
begin

text \<open>
  \<open>examples/clomdb_cli.cpp\<close>: the command line shell. Its state is the open database, the world and what has
  been printed so far; a command is a function on it, \<open>None\<close> when the engine does not return. With the
  default options the background thread runs: the inputs say, before every line that is read, whether
  the thread gets the mutex there (it takes at most one turn per request).
\<close>

section \<open>Program\<close>

text \<open>A \<open>std::string\<close> argument as the bytes of a slice.\<close>

definition string_to_bytes :: "string \<Rightarrow> bytes" where
  "string_to_bytes s = map (\<lambda>c. of_nat (of_char c)) s"

record cli =
  cli_db :: DB
  cli_world :: world
  cout :: string
  cerr :: string

definition nl :: string where
  "nl = [CHR 0x0A]"

definition quoted :: "string \<Rightarrow> string" where
  "quoted s = [CHR 0x27] @ s @ [CHR 0x27]"

definition print_out :: "string \<Rightarrow> cli \<Rightarrow> cli" where
  "print_out s c = c\<lparr>cout := cout c @ s\<rparr>"

definition print_err :: "string \<Rightarrow> cli \<Rightarrow> cli" where
  "print_err s c = c\<lparr>cerr := cerr c @ s\<rparr>"

definition print_error :: "Status \<Rightarrow> cli \<Rightarrow> cli" where
  "print_error s = print_err (''error: '' @ Status_ToString s @ nl)"

text \<open>A call that changes the database, reported as OK or as an error.\<close>

definition run_update :: "(DB \<Rightarrow> world \<Rightarrow> (Status \<times> DB \<times> world) option) \<Rightarrow> cli \<Rightarrow> (int \<times> cli) option" where
  "run_update f c =
     (case f (cli_db c) (cli_world c) of
        None \<Rightarrow> None
      | Some (s, db', w') \<Rightarrow>
          (let c1 = c\<lparr>cli_db := db', cli_world := w'\<rparr> in
           if \<not> Status_ok s then Some (1, print_error s c1) else Some (0, print_out (''OK'' @ nl) c1)))"

definition scan_line :: "bytes \<times> bytes \<Rightarrow> string" where
  "scan_line kv = bytes_to_string (fst kv) @ '' = '' @ bytes_to_string (snd kv) @ nl"

definition level_lines :: "Stats \<Rightarrow> string" where
  "level_lines st =
     concat (map (\<lambda>lvl. if files_per_level st ! lvl = 0 then []
        else ''L'' @ dec_digits lvl @ '': '' @ dec_digits (unat (files_per_level st ! lvl)) @ '' files, '' @
          dec_digits (unat (bytes_per_level st ! lvl)) @ '' bytes'' @ nl) [0..<kMaxLevels])"

definition stats_text :: "Stats \<Rightarrow> string" where
  "stats_text st =
     ''memtable: '' @ dec_digits (unat (memtable_entries st)) @ '' entries, '' @
     dec_digits (unat (memtable_bytes st)) @ '' bytes'' @ nl @ level_lines st"

definition RunOne :: "string list \<Rightarrow> cli \<Rightarrow> (int \<times> cli) option" where
  "RunOne args c =
     (if args = [] then Some (0, c)
      else
        let cmd = args ! 0; arg = (\<lambda>i. string_to_bytes (args ! i)) in
        if cmd = ''put'' \<and> length args = 3
        then run_update (DB_Put \<lparr>sync = False\<rparr> (arg 1) (arg 2)) c
        else if cmd = ''get'' \<and> length args = 2 then
          (case DB_Get \<lparr>verify_checksums = True\<rparr> (arg 1) [] (cli_db c) of
             (s, value) \<Rightarrow>
               if Status_IsNotFound s then Some (0, print_out (''(not found)'' @ nl) c)
               else if \<not> Status_ok s then Some (1, print_error s c)
               else Some (0, print_out (bytes_to_string value @ nl) c))
        else if (cmd = ''delete'' \<or> cmd = ''del'') \<and> length args = 2
        then run_update (DB_Delete \<lparr>sync = False\<rparr> (arg 1)) c
        else if cmd = ''scan'' \<and> length args = 1 then
          Some (0, print_out (concat (map scan_line
                     (Iterator_scan (Iterator_SeekToFirst (DB_NewIterator (cli_db c)))))) c)
        else if cmd = ''flush'' \<and> length args = 1 then run_update DB_Flush c
        else if cmd = ''stats'' \<and> length args = 1
        then Some (0, print_out (stats_text (DB_GetStats (cli_db c))) c)
        else if cmd = ''help'' then
          Some (0, print_out (''commands: put <k> <v> | get <k> | delete <k> | scan | flush | stats | help | exit'' @ nl) c)
        else Some (1, print_err (''unrecognized command (try '' @ quoted ''help'' @ ''): '' @ cmd @ nl) c))"

text \<open>\<open>std::isspace\<close> in the C locale.\<close>

definition isspace :: "char \<Rightarrow> bool" where
  "isspace c \<longleftrightarrow> c \<in> {CHR '' '', CHR 0x09, CHR 0x0A, CHR 0x0B, CHR 0x0C, CHR 0x0D}"

function SplitLine :: "string \<Rightarrow> string list" where
  "SplitLine line =
     (let s = dropWhile isspace line in
      if s = [] then []
      else takeWhile (\<lambda>c. \<not> isspace c) s # SplitLine (dropWhile (\<lambda>c. \<not> isspace c) s))"
  by pat_completeness auto

termination
proof (relation "measure length")
  fix line s assume s: "s = dropWhile isspace line" "s \<noteq> []"
  then have "\<not> isspace (hd s)" using hd_dropWhile [of isspace line] by simp
  then have "length (dropWhile (\<lambda>c. \<not> isspace c) s) < length s"
    using s(2) length_dropWhile_le [of "\<lambda>c. \<not> isspace c" "tl s"] by (cases s) auto
  also have "length s \<le> length line" using s(1) length_dropWhile_le [of isspace line] by simp
  finally show "(dropWhile (\<lambda>c. \<not> isspace c) s, line) \<in> measure length" by simp
qed simp

declare SplitLine.simps [simp del]

text \<open>The background thread at a point where it may get the mutex.\<close>

definition cli_background :: "bool \<Rightarrow> cli \<Rightarrow> cli option" where
  "cli_background b c =
     (if b \<and> BackgroundLoop_awake (cli_db c)
      then map_option (\<lambda>(db', w'). c\<lparr>cli_db := db', cli_world := w'\<rparr>)
             (BackgroundLoop_turn (cli_db c) (cli_world c))
      else Some c)"

text \<open>The interactive loop over the lines of the standard input.\<close>

fun cli_repl :: "(bool \<times> string) list \<Rightarrow> cli \<Rightarrow> cli option" where
  "cli_repl [] c = Some (print_out ''clomdb> '' c)"
| "cli_repl ((b, line) # rest) c =
     (case cli_background b (print_out ''clomdb> '' c) of
        None \<Rightarrow> None
      | Some c1 \<Rightarrow>
          (let args = SplitLine line in
           if args = [] then cli_repl rest c1
           else if args ! 0 = ''exit'' \<or> args ! 0 = ''quit'' then Some c1
           else (case RunOne args c1 of None \<Rightarrow> None | Some (rc, c2) \<Rightarrow> cli_repl rest c2)))"

text \<open>The program: exit code, what it printed, and the world it leaves (\<open>argv\<close> has the program name).\<close>

definition cli_main ::
  "string list \<Rightarrow> (bool \<times> string) list \<Rightarrow> bool \<Rightarrow> world \<Rightarrow> (int \<times> string \<times> string \<times> world) option" where
  "cli_main argv input b w =
     (if length argv < 2
      then Some (2, [], ''usage: '' @ hd argv @ '' <db_path> [command args...]'' @ nl, w)
      else
        let dbp = argv ! 1 in
        case DB_Open default_Options dbp w of
          (s, None, w1) \<Rightarrow> Some (1, [], ''failed to open db: '' @ Status_ToString s @ nl, w1)
        | (s, Some db, w1) \<Rightarrow>
            let c = \<lparr>cli_db = db, cli_world = w1, cout = [], cerr = []\<rparr>;
                r = (if length argv > 2 then RunOne (drop 2 argv) c
                     else map_option (\<lambda>c. (0, c))
                            (cli_repl input (print_out (''ClomDB CLI -- database at '' @ dbp @ '' ('' @
                               quoted ''help'' @ '' for commands, '' @ quoted ''exit'' @ '' to quit)'' @ nl) c)))
            in case r of
                 None \<Rightarrow> None
               | Some (rc, c1) \<Rightarrow>
                   map_option (\<lambda>c2. (rc, cout c2, cerr c2, DB_destroy (cli_db c2) (cli_world c2)))
                     (cli_background b c1))"

section \<open>Splitting a line\<close>

definition token :: "string \<Rightarrow> bool" where
  "token t \<longleftrightarrow> t \<noteq> [] \<and> (\<forall>c\<in>set t. \<not> isspace c)"

text \<open>Tokens separated and surrounded by any blanks.\<close>

fun spaced :: "(string \<times> string) list \<Rightarrow> string" where
  "spaced [] = []"
| "spaced ((blank, t) # rest) = blank @ t @ spaced rest"

lemma takeWhile_token: "token t \<Longrightarrow> takeWhile (\<lambda>c. \<not> isspace c) (t @ s) = t @ takeWhile (\<lambda>c. \<not> isspace c) s"
  by (induction t) (auto simp: token_def takeWhile_append)

lemma dropWhile_token: "token t \<Longrightarrow> dropWhile (\<lambda>c. \<not> isspace c) (t @ s) = dropWhile (\<lambda>c. \<not> isspace c) s"
  by (auto simp: token_def dropWhile_append)

lemma dropWhile_blank: "\<forall>c\<in>set b. isspace c \<Longrightarrow> dropWhile isspace (b @ s) = dropWhile isspace s"
  by (induction b) auto

lemma SplitLine_blank: "\<forall>c\<in>set b. isspace c \<Longrightarrow> SplitLine b = []"
  by (subst SplitLine.simps) (simp add: dropWhile_eq_Nil_conv)

lemma SplitLine_token:
  assumes "token t" and "\<forall>c\<in>set b. isspace c" and "s = [] \<or> isspace (hd s)"
  shows "SplitLine (b @ t @ s) = t # SplitLine s"
proof -
  have "dropWhile isspace (b @ t @ s) = t @ s"
    using assms(1,2) dropWhile_blank [of b "t @ s"] by (cases t) (auto simp: token_def)
  moreover have "t \<noteq> []" using assms(1) by (simp add: token_def)
  moreover have "takeWhile (\<lambda>c. \<not> isspace c) s = []" "dropWhile (\<lambda>c. \<not> isspace c) s = s"
    using assms(3) by (cases s; simp)+
  ultimately show ?thesis
    by (subst SplitLine.simps) (simp add: Let_def takeWhile_token [OF assms(1)] dropWhile_token [OF assms(1)])
qed

lemma SplitLine_spaced:
  assumes "\<forall>(b, t)\<in>set bts. (\<forall>c\<in>set b. isspace c) \<and> token t" and "\<forall>(b, t)\<in>set (tl bts). b \<noteq> []"
    and "\<forall>c\<in>set e. isspace c"
  shows "SplitLine (spaced bts @ e) = map snd bts"
  using assms(1,2)
proof (induction bts)
  case Nil
  then show ?case using assms(3) by (simp add: SplitLine_blank)
next
  case (Cons bt bts)
  obtain b t where bt: "bt = (b, t)" by (cases bt)
  have "spaced bts @ e = [] \<or> isspace (hd (spaced bts @ e))"
  proof (cases bts)
    case Nil
    then show ?thesis using assms(3) by (cases e) auto
  next
    case (Cons bt' bts')
    then show ?thesis
      using Cons.prems by (cases bt'; cases "fst bt'") (auto simp: bt)
  qed
  moreover have "\<forall>(b, t)\<in>set (tl bts). b \<noteq> []" using Cons.prems(2) by (cases bts) (auto simp: bt)
  ultimately show ?case
    using SplitLine_token [of t b "spaced bts @ e"] Cons by (simp add: bt)
qed

section \<open>Strings as keys and values\<close>

lemma bytes_to_string_inverse [simp]: "bytes_to_string (string_to_bytes s) = s"
proof -
  have "of_char c < (256 :: nat)" for c :: char by simp
  then have "unat (of_nat (of_char c) :: byte) = of_char c" for c :: char
    by (simp add: unat_of_nat take_bit_eq_mod)
  then show ?thesis by (simp add: bytes_to_string_def string_to_bytes_def comp_def)
qed

lemma string_to_bytes_inj: "string_to_bytes s = string_to_bytes t \<longleftrightarrow> s = t"
  by (metis bytes_to_string_inverse)

section \<open>Commands\<close>

lemma batch_of_single: "batch_of [OpPut k v] = WriteBatch_Put WriteBatch_empty k v"
  by (simp add: batch_of_def)

text \<open>A key and a value that fit in one log record.\<close>

lemma batch_ok_put: "length k + length v < 2 ^ 31 \<Longrightarrow> batch_ok [OpPut k v]"
  using length_lps_bytes_le [of k] length_lps_bytes_le [of v]
  by (simp add: batch_ok_def lps_ok_def wal_ok_def rep_batch_of)

lemma print_out_simps [simp]: "cli_db (print_out s c) = cli_db c" "cli_world (print_out s c) = cli_world c"
  "cout (print_out s c) = cout c @ s" "cerr (print_out s c) = cerr c"
  by (simp_all add: print_out_def)

lemma RunOne_get:
  assumes "serving (cli_db c)"
  shows "RunOne [''get'', k] c = Some (0, print_out ((case db_view (cli_db c) (string_to_bytes k) of
    Some v \<Rightarrow> bytes_to_string v | None \<Rightarrow> ''(not found)'') @ nl) c)"
  using assms by (simp add: RunOne_def serving_def DB_Get_view split: option.splits)

lemma RunOne_put:
  assumes serv: "serving (cli_db c)" and ops: "batch_ok [OpPut (string_to_bytes k) (string_to_bytes v)]"
    and cap: "capacity (applied [OpPut (string_to_bytes k) (string_to_bytes v)] (cli_db c))"
  obtains s c1 where "RunOne [''put'', k, v] c = Some (if Status_ok s then 0 else 1, c1)"
    "serving (cli_db c1)"
    "Status_ok s \<Longrightarrow> db_view (cli_db c1) = (db_view (cli_db c))(string_to_bytes k \<mapsto> string_to_bytes v) \<and>
      cout c1 = cout c @ ''OK'' @ nl"
proof -
  let ?ops = "[OpPut (string_to_bytes k) (string_to_bytes v)]" and ?o = "\<lparr>sync = False\<rparr>"
  have ok: "db_ok (cli_db c)" "\<not> db_closed (cli_db c)"
    "background_compaction (db_options (cli_db c)) \<or> 0 < l0_compaction_trigger (db_options (cli_db c))"
    using serv by (simp_all add: serving_def)
  obtain s1 w1 where log: "WriteAheadLog_AddRecord (db_wal (cli_db c)) (rep (batch_of ?ops))
      (sync ?o \<or> sync_writes (db_options (cli_db c))) (cli_world c) = (s1, w1)" by fastforce
  have "\<exists>s db' w'. DB_Write ?o (batch_of ?ops) (cli_db c) (cli_world c) = Some (s, db', w')"
    using ok(1,2) ops cap ok(3) log by (cases rule: DB_Write_cases) blast+
  then obtain s db' w' where wr: "DB_Write ?o (batch_of ?ops) (cli_db c) (cli_world c) = Some (s, db', w')" by blast
  let ?c1 = "c\<lparr>cli_db := db', cli_world := w'\<rparr>"
  note st = DB_Write_step [OF serv ops cap wr]
  have "RunOne [''put'', k, v] c =
      Some (if Status_ok s then (0, print_out (''OK'' @ nl) ?c1) else (1, print_error s ?c1))"
    using wr by (simp add: RunOne_def run_update_def DB_Put_def batch_of_single)
  then have "RunOne [''put'', k, v] c =
      Some (if Status_ok s then 0 else 1, if Status_ok s then print_out (''OK'' @ nl) ?c1 else print_error s ?c1)"
    by simp
  then show thesis
    by (rule that) (use st in \<open>auto simp: ops_view_def print_error_def print_err_def split: if_splits\<close>)
qed

lemma cli_background_view:
  assumes "serving (cli_db c)" and "capacity (cli_db c)" and "cli_background b c = Some c1"
  shows "serving (cli_db c1)" "db_view (cli_db c1) = db_view (cli_db c)"
proof -
  have "serving (cli_db c1) \<and> db_view (cli_db c1) = db_view (cli_db c)"
  proof (cases "b \<and> BackgroundLoop_awake (cli_db c)")
    case False
    then show ?thesis using assms by (simp add: cli_background_def if_not_P)
  next
    case True
    have "db_ok (cli_db c)" "0 < l0_compaction_trigger (db_options (cli_db c))"
      using assms(1) by (simp_all add: serving_def)
    from Background_total [OF this(1) assms(2) this(2), of "cli_world c"] obtain db' w'
      where "BackgroundLoop_turn (cli_db c) (cli_world c) = Some (db', w')" and same: "same_store (cli_db c) db'" by blast
    with True assms(3) have "cli_db c1 = db'" by (auto simp: cli_background_def)
    with same serving_same [OF assms(1) same] show ?thesis by (simp add: same_store_def)
  qed
  then show "serving (cli_db c1)" "db_view (cli_db c1) = db_view (cli_db c)" by simp_all
qed

section \<open>Properties\<close>

text \<open>C39. In the shell, \<open>put k v\<close> always returns, and when it prints OK a following \<open>get k\<close> prints \<open>v\<close> and exits with 0,
  whether or not the background thread flushes or compacts in between and whatever fails while it does.\<close>

theorem cli_put_get:
  assumes "serving (cli_db c)" and "length k + length v < 2 ^ 31"
    and "capacity (applied [OpPut (string_to_bytes k) (string_to_bytes v)] (cli_db c))"
  shows "\<exists>rc c1. RunOne [''put'', k, v] c = Some (rc, c1) \<and>
    (rc = 0 \<longrightarrow> cout c1 = cout c @ ''OK'' @ nl \<and>
      (capacity (cli_db c1) \<longrightarrow> (\<forall>b c2. cli_background b c1 = Some c2 \<longrightarrow>
         RunOne [''get'', k] c2 = Some (0, print_out (v @ nl) c2))))"
proof -
  have "batch_ok [OpPut (string_to_bytes k) (string_to_bytes v)]"
    using assms(2) by (intro batch_ok_put) (simp add: string_to_bytes_def)
  from assms(1) this assms(3) show ?thesis
  proof (rule RunOne_put)
    fix s c1
    assume run: "RunOne [''put'', k, v] c = Some (if Status_ok s then 0 else 1, c1)" and serv: "serving (cli_db c1)"
      and view: "Status_ok s \<Longrightarrow> db_view (cli_db c1) = (db_view (cli_db c))(string_to_bytes k \<mapsto> string_to_bytes v) \<and>
        cout c1 = cout c @ ''OK'' @ nl"
    have "RunOne [''get'', k] c2 = Some (0, print_out (v @ nl) c2)"
      if "Status_ok s" "capacity (cli_db c1)" "cli_background b c1 = Some c2" for b c2
      using RunOne_get [OF cli_background_view(1) [OF serv that(2,3)]] view [OF that(1)]
        cli_background_view(2) [OF serv that(2,3)] by simp
    with run view show ?thesis by (intro exI [of _ "if Status_ok s then 0 else 1"] exI [of _ c1]) auto
  qed
qed

definition sample_cli :: cli where
  "sample_cli = \<lparr>cli_db = sample_db, cli_world = sample_world, cout = [], cerr = []\<rparr>"

lemma sample_cli_capacity: "capacity (applied [OpPut (string_to_bytes ''k'') (string_to_bytes ''v'')] sample_db)"
  by (rule capacity_small; simp add: memtable_entries_of_def MemTable_empty_def applied_def
      MemTable_Put_def entry_weight_def flush_entry_def total_def string_to_bytes_def)

theorem cli_put_get_witness:
  "\<exists>c1. RunOne [''put'', ''k'', ''v''] sample_cli = Some (0, c1) \<and> cout c1 = ''OK'' @ nl \<and>
    RunOne [''get'', ''k''] c1 = Some (0, print_out (''v'' @ nl) c1)"
proof -
  let ?ops = "[OpPut (string_to_bytes ''k'') (string_to_bytes ''v'')]"
  have "batch_ok ?ops" by (intro batch_ok_put) (simp add: string_to_bytes_def)
  from DB_Write_calm [OF sample_world_simps(1) _ _ _ this, of sample_db "WalPath ''d''"]
  obtain c1 where run: "RunOne [''put'', ''k'', ''v''] sample_cli = Some (0, c1)"
    and db: "cli_db c1 = (applied ?ops sample_db)\<lparr>bg_work_requested := True, bg_idle := False\<rparr>"
    by (simp add: RunOne_def run_update_def DB_Put_def batch_of_single sample_cli_def Let_def)
  have "capacity (cli_db c1)"
    using sample_cli_capacity by (simp add: db capacity_def db_fits_def db_total_def db_tables_def)
  moreover have "cli_background False c1 = Some c1" by (simp add: cli_background_def)
  ultimately have "cout c1 = ''OK'' @ nl \<and> RunOne [''get'', ''k''] c1 = Some (0, print_out (''v'' @ nl) c1)"
    using cli_put_get [of sample_cli "''k''" "''v''"] run sample_serving sample_cli_capacity
    by (auto simp: sample_cli_def)
  with run show ?thesis by blast
qed

text \<open>\<open>scan\<close> prints one line per key that has a value, in key order, each with the key's current value, and changes nothing.\<close>

lemma cli_scan:
  assumes "serving (cli_db c)"
  shows "\<exists>m. sorted_wrt (<) (map fst m) \<and> map_of m = db_view (cli_db c) \<and>
    RunOne [''scan''] c = Some (0, print_out (concat (map scan_line m)) c)"
proof -
  have ok: "db_ok (cli_db c)" using assms by (simp add: serving_def)
  let ?it = "DB_NewIterator (cli_db c)"
  have "Iterator_SeekToFirst ?it = ?it"
    using NewIterator_start by (simp add: Iterator_SeekToFirst_def)
  then have "RunOne [''scan''] c = Some (0, print_out (concat (map scan_line (Iterator_scan ?it))) c)"
    by (simp add: RunOne_def)
  then show ?thesis using NewIterator_scan [OF ok] by (intro exI [of _ "Iterator_scan ?it"]) (simp add: std_map_ok_def)
qed

end
