(* ===== verification/Bench.thy ===== *)
theory Bench
  imports Cli Histories "HOL-Library.Multiset"
begin

text \<open>
  \<open>examples/clomdb_bench.cpp\<close>: the throughput benchmark, a client of the public interface. The shuffled order of
  the reads and the text of the measured times are parameters, and so are the points at which the background
  thread gets the mutex. \<open>None\<close> is an engine call that does not return; an exit code of \<open>None\<close> is an
  exception that nobody catches.
\<close>

section \<open>Program\<close>

text \<open>\<open>std::atoi\<close>: blanks, a sign, decimal digits.\<close>

definition is_digit :: "char \<Rightarrow> bool" where
  "is_digit c \<longleftrightarrow> c \<in> set ''0123456789''"

definition atoi :: "string \<Rightarrow> int" where
  "atoi s =
     (case dropWhile isspace s of
        [] \<Rightarrow> 0
      | c # rest \<Rightarrow>
          if c = CHR ''-'' then - int (digits_value (takeWhile is_digit rest))
          else if c = CHR ''+'' then int (digits_value (takeWhile is_digit rest))
          else int (digits_value (takeWhile is_digit (c # rest))))"

definition bench_dir :: path where
  "bench_dir = ''/tmp/clomdb_bench''"

definition bench_key :: "nat \<Rightarrow> bytes" where
  "bench_key i = string_to_bytes (''key'' @ dec_digits i)"

definition bench_value :: "nat \<Rightarrow> bytes" where
  "bench_value i = string_to_bytes (''value-'' @ dec_digits i @ ''-padding-padding'')"

definition bench_background :: "bool \<Rightarrow> DB \<times> world \<Rightarrow> (DB \<times> world) option" where
  "bench_background b st =
     (if b \<and> BackgroundLoop_awake (fst st) then BackgroundLoop_turn (fst st) (snd st) else Some st)"

text \<open>The loop of writes; their statuses are dropped. The thread may get the mutex before each of them.\<close>

fun bench_writes :: "(nat \<Rightarrow> bool) \<Rightarrow> bytes list \<Rightarrow> nat list \<Rightarrow> DB \<times> world \<Rightarrow> (DB \<times> world) option" where
  "bench_writes turn keys [] st = Some st"
| "bench_writes turn keys (i # is) st =
     (case bench_background (turn i) st of
        None \<Rightarrow> None
      | Some (db, w) \<Rightarrow>
          (case DB_Put \<lparr>sync = False\<rparr> (keys ! i) (bench_value i) db w of
             None \<Rightarrow> None
           | Some (s, st') \<Rightarrow> bench_writes turn keys is st'))"

text \<open>The loop of reads: the keys, how many were found, and the string the values go to.\<close>

fun bench_reads ::
  "bool list \<Rightarrow> bytes list \<Rightarrow> nat \<times> bytes \<Rightarrow> DB \<times> world \<Rightarrow> (nat \<times> DB \<times> world) option" where
  "bench_reads turns [] (found, v) st = Some (found, st)"
| "bench_reads turns (k # ks) (found, v) st =
     (case bench_background (turns \<noteq> [] \<and> hd turns) st of
        None \<Rightarrow> None
      | Some (db, w) \<Rightarrow>
          (case DB_Get \<lparr>verify_checksums = True\<rparr> k v db of
             (s, v') \<Rightarrow> bench_reads (tl turns) ks (if Status_ok s then found + 1 else found, v') (db, w)))"

record bench_run =
  write_turns :: "nat \<Rightarrow> bool"
  flush_turn :: bool
  read_turns :: "bool list"
  stats_turn :: bool
  exit_turn :: bool
  shuffled :: "bytes list \<Rightarrow> bytes list"
  write_time :: string
  read_time :: string

text \<open>The two result lines and the levels in use.\<close>

definition bench_report :: "bench_run \<Rightarrow> nat \<Rightarrow> nat \<Rightarrow> Stats \<Rightarrow> string" where
  "bench_report r n found stats =
     ''wrote '' @ dec_digits n @ '' keys in '' @ write_time r @ nl @
     ''read  '' @ dec_digits n @ '' keys in '' @ read_time r @ '', found='' @ dec_digits found @ nl @
     level_lines stats"

text \<open>Exit code, standard output and error output, and the world the program leaves.\<close>

definition bench_main ::
  "bench_run \<Rightarrow> string list \<Rightarrow> world \<Rightarrow> (int option \<times> string \<times> string \<times> world) option" where
  "bench_main r argv w =
     (let n = (if length argv > 1 then atoi (argv ! 1) else 100000) in
      case fs_remove_all bench_dir w of
        (False, w1) \<Rightarrow> Some (None, [], [], abort_process w1)
      | (True, w1) \<Rightarrow>
          (case DB_Open default_Options bench_dir w1 of
             (s, None, w2) \<Rightarrow> Some (Some 1, [], ''open failed: '' @ Status_ToString s @ nl, w2)
           | (s, Some db, w2) \<Rightarrow>
               if n < 0 then Some (None, [], [], abort_process w2)
               else
                 let keys = map bench_key [0..<nat n] in
                 case Option.bind (bench_writes (write_turns r) keys [0..<nat n] (db, w2)) (bench_background (flush_turn r)) of
                   None \<Rightarrow> None
                 | Some (db3, w3) \<Rightarrow>
                     (case DB_Flush db3 w3 of
                        None \<Rightarrow> None
                      | Some (s4, st4) \<Rightarrow>
                          (case bench_reads (read_turns r) (shuffled r keys) (0, []) st4 of
                             None \<Rightarrow> None
                           | Some (found, st5) \<Rightarrow>
                               (case bench_background (stats_turn r) st5 of
                                  None \<Rightarrow> None
                                | Some st6 \<Rightarrow>
                                    (case bench_background (exit_turn r) st6 of
                                       None \<Rightarrow> None
                                     | Some (db7, w7) \<Rightarrow>
                                         Some (Some 0, bench_report r (nat n) found (DB_GetStats (fst st6)), [],
                                           DB_destroy db7 w7)))))))"

section \<open>Serving the loops\<close>

lemma within_budget_fewer: "within_budget db (r # rs) \<Longrightarrow> within_budget db rs"
  by (simp add: within_budget_def)

lemma bench_background_served:
  assumes "serving db" and "running db w" and budget: "within_budget db (BackgroundTurn # rs)"
  obtains db' w' where "bench_background b (db, w) = Some (db', w')" "serving db'" "running db' w'"
    "db_view db' = db_view db" "within_budget db' rs"
proof (cases b)
  case False
  then show thesis
    using assms within_budget_fewer [OF budget] by (intro that [of db w]) (simp_all add: bench_background_def)
next
  case True
  from assms(1,2) _ budget show thesis
  proof (rule serve_request)
    fix s db' w'
    assume r: "serve BackgroundTurn (db, w) = Some (s, db', w')" "serving db'" "running db' w'"
      "db_view db' = ops_view (request_ops BackgroundTurn) (db_view db)" "within_budget db' rs"
    have "bench_background b (db, w) = Some (db', w')"
      using r(1) True by (auto simp: bench_background_def split: if_splits)
    with r(2-5) show thesis by (intro that) (simp_all add: ops_view_def)
  qed simp
qed

definition bench_op :: "nat \<Rightarrow> batch_op" where
  "bench_op i = OpPut (bench_key i) (bench_value i)"

definition write_requests :: "nat list \<Rightarrow> request list" where
  "write_requests is = concat (map (\<lambda>i. [BackgroundTurn, Batch \<lparr>sync = False\<rparr> [bench_op i]]) is)"

lemma bench_writes_served:
  assumes "serving db" and "running db w" and "within_budget db (write_requests is @ rest)"
    and "\<forall>i\<in>set is. keys ! i = bench_key i \<and> batch_ok [bench_op i]"
  shows "\<exists>db' w'. bench_writes turn keys is (db, w) = Some (db', w') \<and> serving db' \<and> running db' w' \<and>
    db_view db' = ops_view (map bench_op is) (db_view db) \<and> within_budget db' rest"
  using assms
proof (induction "is" arbitrary: db w)
  case Nil
  then show ?case by (simp add: ops_view_def write_requests_def)
next
  case (Cons i "is")
  let ?req = "Batch \<lparr>sync = False\<rparr> [bench_op i]"
  have "within_budget db (BackgroundTurn # ?req # write_requests is @ rest)"
    using Cons.prems(3) by (simp add: write_requests_def)
  from Cons.prems(1,2) this obtain db1 w1 where b: "bench_background (turn i) (db, w) = Some (db1, w1)"
    "serving db1" "running db1 w1" "db_view db1 = db_view db" "within_budget db1 (?req # write_requests is @ rest)"
    by (rule bench_background_served)
  have "request_ok ?req" using Cons.prems(4) by simp
  from b(2,3) this b(5) obtain s db2 w2 where p: "serve ?req (db1, w1) = Some (s, db2, w2)" "serving db2" "running db2 w2"
    "db_view db2 = ops_view (request_ops ?req) (db_view db1)" "within_budget db2 (write_requests is @ rest)"
    by (rule serve_request)
  have "DB_Put \<lparr>sync = False\<rparr> (keys ! i) (bench_value i) db1 w1 = Some (s, db2, w2)"
    using p(1) Cons.prems(4) by (simp add: DB_Put_def bench_op_def batch_of_single)
  then show ?case
    using b(1,4) p(4) Cons.IH [OF p(2,3,5)] Cons.prems(4) by (simp add: ops_view_def)
qed

lemma bench_reads_served:
  assumes "serving db" and "running db w" and "within_budget db (replicate (length ks) BackgroundTurn @ rest)"
  shows "\<exists>db' w'. bench_reads turns ks (found, v) (db, w) =
      Some (found + length (filter (\<lambda>k. db_view db k \<noteq> None) ks), db', w') \<and> serving db' \<and> running db' w' \<and>
    within_budget db' rest"
  using assms
proof (induction ks arbitrary: turns found v db w)
  case Nil
  then show ?case by simp
next
  case (Cons k ks)
  have "within_budget db (BackgroundTurn # replicate (length ks) BackgroundTurn @ rest)" using Cons.prems(3) by simp
  from Cons.prems(1,2) this obtain db1 w1 where b: "bench_background (turns \<noteq> [] \<and> hd turns) (db, w) = Some (db1, w1)"
    "serving db1" "running db1 w1" "db_view db1 = db_view db" "within_budget db1 (replicate (length ks) BackgroundTurn @ rest)"
    by (rule bench_background_served)
  have g: "DB_Get \<lparr>verify_checksums = True\<rparr> k v db1 = (case db_view db1 k of
      Some x \<Rightarrow> (Status_OK, x) | None \<Rightarrow> (Status_NotFound (bytes_to_string k), v))"
    using b(2) by (simp add: serving_def DB_Get_view)
  show ?case
  proof (cases "db_view db k")
    case None
    then show ?thesis using Cons.IH [OF b(2,3,5), of "tl turns" found v] b(1,4) g by simp
  next
    case (Some x)
    then show ?thesis using Cons.IH [OF b(2,3,5), of "tl turns" "found + 1" x] b(1,4) g by simp
  qed
qed

section \<open>The budget of a run\<close>

lemma length_dec_digits: "n < 10 ^ d \<Longrightarrow> 0 < d \<Longrightarrow> length (dec_digits n) \<le> d"
proof (induction d arbitrary: n)
  case (Suc d)
  show ?case
  proof (cases "n < 10")
    case True
    then show ?thesis by (subst dec_digits.simps) simp
  next
    case False
    have "n div 10 < 10 ^ d" using Suc.prems(1) by (simp add: less_mult_imp_div_less mult.commute)
    moreover have "0 < d" using False Suc.prems(1) by (cases d) simp_all
    ultimately show ?thesis using Suc.IH [of "n div 10"] False by (subst dec_digits.simps) simp
  qed
qed simp

lemma bench_op_small:
  assumes "i < 10 ^ 8"
  shows "length (bench_key i) + length (bench_value i) \<le> 41" "entry_weight (op_entry (bench_op i)) \<le> 57"
    "batch_ok [bench_op i]"
proof -
  have "length (dec_digits i) \<le> 8" using assms by (intro length_dec_digits) simp_all
  then show len: "length (bench_key i) + length (bench_value i) \<le> 41"
    by (simp add: bench_key_def bench_value_def string_to_bytes_def)
  then show "entry_weight (op_entry (bench_op i)) \<le> 57"
    by (simp add: bench_op_def flush_entry_def entry_weight_def)
  show "batch_ok [bench_op i]" unfolding bench_op_def using len by (intro batch_ok_put) simp
qed

lemma history_total_append [simp]: "history_total f (xs @ ys) = history_total f xs + history_total f ys"
  by (simp add: history_total_def)

lemma history_total_turns [simp]: "history_total f (replicate n BackgroundTurn) = 0"
  by (induction n) simp_all

lemma history_total_writes:
  "(\<And>i. i \<in> set is \<Longrightarrow> f (op_entry (bench_op i)) \<le> c) \<Longrightarrow> history_total f (write_requests is) \<le> length is * c"
proof (induction "is")
  case (Cons i "is")
  then have "f (op_entry (bench_op i)) \<le> c" "history_total f (write_requests is) \<le> length is * c" by simp_all
  moreover have "history_total f (write_requests (i # is)) =
      f (op_entry (bench_op i)) + history_total f (write_requests is)"
    by (simp add: write_requests_def)
  ultimately show ?case by simp
qed (simp add: write_requests_def)

lemma length_write_requests: "length (write_requests is) = 2 * length is"
  by (induction "is") (simp_all add: write_requests_def)

text \<open>Room for the run: its writes, a flush, its reads, and a turn of the thread before each call.\<close>

lemma bench_budget:
  assumes "n \<le> 2 ^ 22" and "db_tables db = replicate kMaxLevels []" and "db_version db = Version_new"
    and "db_memtable db = MemTable_empty"
  shows "within_budget db (write_requests [0..<n] @ BackgroundTurn # FlushRequest # replicate n BackgroundTurn @ [BackgroundTurn, BackgroundTurn])"
proof -
  have zero: "db_total f db = 0" for f
    using assms(2,4) by (simp add: db_total_def store_entries_def memtable_entries_of_def MemTable_empty_def
        concat_replicate_trivial)
  have "history_total entry_weight (write_requests [0..<n]) \<le> length [0..<n] * 57"
    using assms(1) by (intro history_total_writes bench_op_small(2)) simp
  moreover have "history_total (\<lambda>_. 1) (write_requests [0..<n]) \<le> length [0..<n] * 1"
    by (intro history_total_writes) simp
  ultimately show ?thesis
    using assms(1,3)
    by (simp add: within_budget_def zero numbers_per_request_def length_write_requests addressable_def Version_new_def)
qed

section \<open>Property\<close>

lemma canon_bench: "canon_dir bench_dir = bench_dir" "dir_name bench_dir"
  "fs_below bench_dir (canon (ManifestPath bench_dir))" "fs_below bench_dir (canon (WalPath bench_dir))"
  "fs_below bench_dir (canon bench_dir)" "fs_below bench_dir bench_dir"
  by (simp_all add: bench_dir_def canon_dir_def dir_name_def fs_below_def ManifestPath_def WalPath_def)

lemma map_of_removed: "fs_below p q \<Longrightarrow> map_of (filter (\<lambda>(q, _). \<not> fs_below p q) xs) q = None"
  by (induction xs) auto

lemma remove_all_vacant:
  assumes "calm w"
  obtains w1 where "fs_remove_all bench_dir w = (True, w1)" "calm w1" "vacant w1 bench_dir"
proof -
  let ?w1 = "(fs_remove_files bench_dir (length (files w)) w)\<lparr>dirs := filter (\<lambda>q. \<not> fs_below bench_dir q) (dirs w)\<rparr>"
  have "fs_remove_all bench_dir w = (True, ?w1)" using assms by (simp add: fs_remove_all_def)
  moreover have "calm ?w1" using assms by (simp add: calm_def fs_remove_files_def)
  moreover have "vacant ?w1 bench_dir"
    using canon_bench by (simp add: vacant_def fs_exists_def fget_def fs_remove_files_def map_of_removed)
  ultimately show thesis by (rule that)
qed

lemma bench_key_inj: "bench_key i = bench_key j \<longleftrightarrow> i = j"
  unfolding bench_key_def string_to_bytes_inj by (metis digits_value_dec_digits same_append_eq)

lemma ops_view_bench:
  "ops_view (map bench_op is) V (bench_key j) = (if j \<in> set is then Some (bench_value j) else V (bench_key j))"
  by (induction "is" arbitrary: V) (auto simp: ops_view_def bench_op_def bench_key_inj)

lemma bench_opened:
  assumes "calm w"
  obtains w1 db w2 where "fs_remove_all bench_dir w = (True, w1)"
    "DB_Open default_Options bench_dir w1 = (Status_OK, Some db, w2)" "serving db" "running db w2"
    "db_tables db = replicate kMaxLevels []" "db_version db = Version_new" "db_memtable db = MemTable_empty"
proof -
  obtain w1 where rm: "fs_remove_all bench_dir w = (True, w1)" and "calm w1" "vacant w1 bench_dir"
    using remove_all_vacant [OF assms] by blast
  then obtain db w2 where "DB_Open default_Options bench_dir w1 = (Status_OK, Some db, w2)"
    and db: "db_ok db" "\<not> db_closed db" "db_options db = default_Options" "db_path db = bench_dir" "calm w2"
      "db_memtable db = MemTable_empty" "db_tables db = replicate kMaxLevels []" "db_version db = Version_new"
      "db_wal db = wal_opened (WalPath bench_dir)"
    using canon_bench(2) default_trigger(5) by (metis DB_Open_vacant)
  moreover have "serving db" "running db w2" using db by (simp_all add: serving_def running_def sane_def default_Options_def)
  ultimately show thesis using rm that by blast
qed

text \<open>Every key of a shuffle of the written keys is found.\<close>

lemma bench_all_found:
  assumes "mset ks = mset (map bench_key [0..<n])" and "V = ops_view (map bench_op [0..<n]) V0"
  shows "filter (\<lambda>k. V k \<noteq> None) ks = ks"
proof -
  have "set ks = bench_key ` {..<n}" using mset_eq_setD [OF assms(1)] by (simp add: lessThan_atLeast0)
  then show ?thesis by (auto simp: filter_id_conv assms(2) ops_view_bench)
qed

text \<open>C40. On a device that does not fail the benchmark finds every key it wrote: for up to four million keys, every shuffled order and every
  interleaving with the background thread, it ends with exit code 0 and reports that the number of keys found is the number written.\<close>

theorem bench_finds_all:
  assumes "calm w" and "n \<le> 2 ^ 22" and "(if length argv > 1 then atoi (argv ! 1) else 100000) = int n"
    and "mset (shuffled r (map bench_key [0..<n])) = mset (map bench_key [0..<n])"
  shows "\<exists>stats w'. bench_main r argv w = Some (Some 0, bench_report r n n stats, [], w')"
proof -
  let ?keys = "map bench_key [0..<n]"
  from bench_opened [OF assms(1)] obtain w1 db w2 where rm: "fs_remove_all bench_dir w = (True, w1)"
    and op: "DB_Open default_Options bench_dir w1 = (Status_OK, Some db, w2)" and serv: "serving db" "running db w2"
    and db: "db_tables db = replicate kMaxLevels []" "db_version db = Version_new" "db_memtable db = MemTable_empty"
    by blast
  have "\<forall>i\<in>set [0..<n]. ?keys ! i = bench_key i \<and> batch_ok [bench_op i]"
    using assms(2) by (auto intro: bench_op_small)
  from bench_writes_served [OF serv bench_budget [OF assms(2) db] this] obtain db3 w3
    where wr: "bench_writes (write_turns r) ?keys [0..<n] (db, w2) = Some (db3, w3)" and s3: "serving db3" "running db3 w3"
      "db_view db3 = ops_view (map bench_op [0..<n]) (db_view db)"
      "within_budget db3 (BackgroundTurn # FlushRequest # replicate n BackgroundTurn @ [BackgroundTurn, BackgroundTurn])" by blast
  from s3(1,2,4) obtain db3' w3' where bg: "bench_background (flush_turn r) (db3, w3) = Some (db3', w3')"
    and b3: "serving db3'" "running db3' w3'" "db_view db3' = db_view db3"
      "within_budget db3' (FlushRequest # replicate n BackgroundTurn @ [BackgroundTurn, BackgroundTurn])"
    by (rule bench_background_served)
  have "request_ok FlushRequest" by simp
  from b3(1,2) this b3(4) obtain s4 db4 w4 where fl: "serve FlushRequest (db3', w3') = Some (s4, db4, w4)"
    and s4: "serving db4" "running db4 w4" "db_view db4 = ops_view (request_ops FlushRequest) (db_view db3')"
      "within_budget db4 (replicate n BackgroundTurn @ [BackgroundTurn, BackgroundTurn])"
    by (rule serve_request)
  let ?ks = "shuffled r ?keys"
  have len: "length ?ks = n" using mset_eq_length [OF assms(4)] by simp
  have "db_view db4 = ops_view (map bench_op [0..<n]) (db_view db)" using s4(3) b3(3) s3(3) by (simp add: ops_view_def)
  from bench_all_found [OF assms(4) this] have all: "filter (\<lambda>k. db_view db4 k \<noteq> None) ?ks = ?ks" .
  have "within_budget db4 (replicate (length ?ks) BackgroundTurn @ [BackgroundTurn, BackgroundTurn])" using s4(4) len by simp
  from bench_reads_served [OF s4(1,2) this, of "read_turns r" 0 "[]"] obtain db5 w5
    where rd: "bench_reads (read_turns r) ?ks (0, []) (db4, w4) = Some (n, db5, w5)" and s5: "serving db5" "running db5 w5" "within_budget db5 [BackgroundTurn, BackgroundTurn]"
    unfolding all len by auto
  from s5 obtain db6 w6 where st: "bench_background (stats_turn r) (db5, w5) = Some (db6, w6)" and s6: "serving db6"
    "running db6 w6" "within_budget db6 [BackgroundTurn]"
    by (rule bench_background_served)
  from s6 obtain db7 w7 where ex: "bench_background (exit_turn r) (db6, w6) = Some (db7, w7)"
    by (rule bench_background_served)
  show ?thesis
    by (intro exI [of _ "DB_GetStats db6"] exI [of _ "DB_destroy db7 w7"])
      (use rm op wr bg fl rd st ex assms(3) in \<open>simp add: bench_main_def Let_def\<close>)
qed

theorem bench_finds_all_witness:
  "\<exists>stats w'. bench_main \<lparr>write_turns = (\<lambda>i. i = 2), flush_turn = True, read_turns = [False, True], stats_turn = False, exit_turn = True, shuffled = rev,
      write_time = ''1s'', read_time = ''2s''\<rparr>
    [''bench'', ''3''] \<lparr>files = [], dirs = [], faults = [], crashed = False\<rparr> =
    Some (Some 0, ''wrote 3 keys in 1s'' @ nl @ ''read  3 keys in 2s, found=3'' @ nl @ level_lines stats, [], w')"
proof -
  let ?r = "\<lparr>write_turns = (\<lambda>i. i = 2), flush_turn = True, read_turns = [False, True], stats_turn = False, exit_turn = True, shuffled = rev, write_time = ''1s'', read_time = ''2s''\<rparr>"
  have "\<exists>stats w'. bench_main ?r [''bench'', ''3''] \<lparr>files = [], dirs = [], faults = [], crashed = False\<rparr> =
      Some (Some 0, bench_report ?r 3 3 stats, [], w')"
    by (rule bench_finds_all) (simp_all add: calm_def atoi_def isspace_def is_digit_def digits_value_def)
  moreover have "dec_digits 3 = ''3''" by (subst dec_digits.simps) (simp add: char_of_def bit_0)
  ultimately show ?thesis by (simp add: bench_report_def)
qed

end
