(* ===== verification/Spec2Isabelle.thy ===== *)
theory Spec2Isabelle
  imports Prelude Std_Map Slice Coding Crc32c Status Bloom MemTable WriteBatch FileSystem Wal SSTable Version Iterator
    DB DB_Paths DB_Inv Read_Faults DB_Maint DB_Compact DB_Ops Well_Formed Recovery Reopen Open_Faults Open_Outcomes
    Sessions Calm Histories Samples Cli Bench
begin

text \<open>
  ClomDB (\<open>src/include/clomdb\<close>, \<open>src/src\<close>, \<open>src/examples\<close>) is an embedded key-value store built as a
  log-structured merge tree. A write is serialised as a \<open>WriteBatch\<close>, appended to a checksummed log, and applied to a
  sorted memtable. A flush writes the memtable as a sorted table file into level 0, names it in the manifest and removes
  the log. Compaction merges a level into the next one. Reads go from the memtable through level 0, newest file first,
  to the deeper levels. \<open>DB::Open\<close> loads the manifest, sweeps away table files it does not name, opens the others and
  replays the log.

  \<^bold>\<open>Layout.\<close> Every theory holds one component: its state, its operations in the order of the source, and what
  makes them correct.
  \<^item> \<open>Prelude\<close>: type names, rule collections, facts on lists and words, and the interface \<open>prefix_codec\<close> of
    self-delimiting encodings. \<open>Std_Map\<close>: \<open>std::map\<close> as a sorted association list, with the interface it provides.
  \<^item> \<open>Slice\<close>, \<open>Coding\<close>, \<open>Crc32c\<close> (\<open>slice.h\<close>, \<open>coding.h\<close>): comparison (and the class, a pointer and a size), fixed-width and
    varint codecs, CRC-32C.
    \<open>Status\<close> (\<open>status.h\<close>, \<open>options.h\<close>): results and options with their defaults.
  \<^item> \<open>Bloom\<close> (\<open>bloom.h\<close>), \<open>MemTable\<close> (\<open>memtable.h\<close>), \<open>WriteBatch\<close> (\<open>write_batch.h\<close>), \<open>Iterator\<close> (\<open>iterator.h\<close>).
  \<^item> \<open>FileSystem\<close>: the calls of stdio and \<open>std::filesystem\<close> that the engine makes, on an explicit world with a schedule
    of faults. \<open>Wal\<close> (\<open>wal.h\<close>, \<open>wal.cpp\<close>), \<open>SSTable\<close> (\<open>sstable.h\<close>, \<open>sstable_format.h\<close>, \<open>sstable.cpp\<close>), \<open>Version\<close>
    (\<open>version.h\<close>, \<open>version.cpp\<close>).
  \<^item> \<open>DB\<close> (\<open>db.h\<close>, \<open>db.cpp\<close>): the whole engine, one definition per member function (\<open>DB_Open\<close>, \<open>DB_Close\<close>, \<open>DB_Write\<close>,
    \<open>DB_Get\<close>, \<open>DB_NewIterator\<close>, \<open>DB_Flush\<close>, \<open>FlushMemTableLocked\<close>, \<open>CompactLocked\<close>, \<open>BackgroundLoop_turn\<close>, ...), on the
    record \<open>DB\<close> with one field per data member.
  \<^item> \<open>DB_Paths\<close>: the files of a database never collide. \<open>DB_Inv\<close>: the view of a store, the invariant \<open>db_ok\<close>, and
    reads against the view. \<open>Read_Faults\<close>: reads when tables become unreadable. \<open>DB_Maint\<close>, \<open>DB_Compact\<close>: flush and compaction keep both. \<open>DB_Ops\<close>: the compaction loop,
    writes, close, the step relation \<open>db_step\<close> of all interleavings, the interface \<open>kv_store\<close> a client may rely on and
    the interface \<open>maintenance_invariant\<close>, which carries an invariant of the two elementary steps through every loop.
    \<open>Well_Formed\<close>: what \<open>db_ok\<close> says of the shape of the tree, in the terms of the code.
  \<^item> \<open>Recovery\<close>: what is on disk, and that every operation keeps it in step with the database (\<open>in_step torn\<close>, with \<open>torn\<close> the
    bytes of a torn record at the end of the log; \<open>durable\<close> is the case without) or at least recoverable. \<open>Reopen\<close>: \<open>DB_Open\<close>
    gives the recovered view back. \<open>Open_Faults\<close>: a failed open, the trailing separator. \<open>Open_Outcomes\<close>: every way an open can end
    under faults and crashes, and what it leaves. \<open>Sessions\<close>: the life of a directory over any number of processes. \<open>Calm\<close>: without faults every operation succeeds; \<open>Histories\<close>: and so does every
    history of operations within a budget.
  \<^item> \<open>Cli\<close> (\<open>clomdb_cli.cpp\<close>): the shell. \<open>Bench\<close> (\<open>clomdb_bench.cpp\<close>): the benchmark, as a client of the engine.
    \<open>Samples\<close>: concrete databases and directories for the witnesses.

  \<^bold>\<open>Conventions.\<close> Byte strings are lists of 8-bit words; \<open>uint32_t\<close>, \<open>uint64_t\<close> and \<open>size_t\<close> are words of their width, so
  all wrap-around is the code's; \<open>int\<close> options are integers. \<open>Status\<close> is the result type, every early return a branch.
  An object is a record that each operation takes and returns, together with the world. The mutex makes every public
  operation and every turn of the background thread atomic, so they are functions, and concurrency is the set of
  sequences of steps. \<open>Close\<close> is the exception: it gives up the mutex while it waits for the thread, so it is two
  steps (\<open>DB_Close_begin\<close>, \<open>DB_Close_finish\<close>), between which other clients may run. Condition variables are the guards
  of steps (\<open>BackgroundLoop_awake\<close>). A loop that may not end is a
  \<open>partial_function (option)\<close>: \<open>compaction_while\<close> is \<open>None\<close> when it runs for ever, and theorems about operations say that
  they return. No fuel is used anywhere.

  \<^bold>\<open>Faults and crashes.\<close> Each call of the file system takes the next item of the world's schedule: success, failure, a
  short transfer, or the death of the process inside the call, from which on nothing changes. Three kinds of calls do not take
  from the schedule. Reads and seeks on a table that is already open: a reader keeps the bytes it could read when it was opened,
  so statements about schedules take such reads to succeed; their failure is the subject of \<open>sstable_faithful\<close> (a single call
  whose reads fail at any point) and of \<open>Read_Faults\<close> (a database whose tables have become unreadable).
  \<open>fs::exists\<close>: it tells the truth. An iteration over a directory fails as a whole or not at all (failing midway it would
  throw). A write reaches the file in \<open>fwrite\<close>, and \<open>fflush\<close> only reports. Statements about all
  worlds therefore cover every combination of failures and every crash point. A crash is one of the process: the
  bytes handed to \<open>fwrite\<close> are in the file. Losing the operating system's cache (power failure) and reordering of
  directory operations are not modelled, and neither is \<open>fsync\<close> beyond its success or failure.

  \<^bold>\<open>What is shown.\<close> The engine refines a map under every interleaving and fault (\<open>run_refines_map\<close>); what was acknowledged
  survives a crash at any point, and an unacknowledged batch survives as a whole or not at all (\<open>crash_recovery\<close>,
  \<open>close_reopen\<close>), over the whole life of a directory (\<open>directory_lifetime\<close>), even when the recovery itself is cut off (\<open>recovery_survives_crashes\<close>); an open that
  succeeds in spite of faults has lost at most the end of the log (\<open>open_success_is_prefix\<close>), one that fails has changed nothing that
  matters unless it failed in its first step (\<open>failed_open_harmless\<close>); reachable databases have the shape of a merge tree
  (\<open>reachable_well_formed\<close>); reads agree with the view and with each other; flush and compaction keep the
  store; the compaction loop terminates when the level-0 trigger is positive; without faults every history
  is acknowledged (\<open>faultless_history\<close>), and the benchmark finds every key it wrote (\<open>bench_finds_all\<close>). The components' own properties stand
  at the end of their theories: round trips of every encoding, faithful tables under read faults, atomic manifest
  replacement, detection of damage, Bloom filters without false negatives, the memtable as a map. Some theorems show
  defects: a failed open overwrites the manifest (\<open>failed_open_loses_tables\<close>), a trailing separator deletes the tables
  (\<open>trailing_separator_loses_tables\<close>), a trigger that is not positive hangs (\<open>write_never_returns\<close>), readers hide read
  errors (\<open>read_errors_hidden\<close>), records appended behind a torn one are lost (\<open>append_after_torn_tail_lost\<close>, \<open>acknowledged_after_torn_tail_lost\<close>), \<open>SetData\<close> miscounts (\<open>set_data_miscounts\<close>).

  \<^bold>\<open>Bounds.\<close> \<open>capacity\<close> says that the data (keys, values and 16 bytes per entry) stays below the address space
  \<open>addressable\<close>, that there are fewer than \<open>2 ^ 31\<close> entries, and that the file numbers are below \<open>2 ^ 63\<close>; \<open>batch_ok\<close> that a
  batch's record stays below 4 GiB. They are the sizes up to which the file formats and the \<open>int\<close> arithmetic of the code are
  exact, and each compaction of the loop needs at most one file number per entry, at most 63 times. \<open>durable\<close> holds for a new
  directory and after every open whose log has no torn tail; after a torn tail the code's own appends are not durable
  (see above), so that case is excluded by it.

  \<^bold>\<open>Not modelled.\<close> The umbrella header \<open>clomdb.h\<close> (includes only), the tests, the clock and the random generator of the benchmark (its
  times and the shuffled order are inputs), two clients in \<open>Close\<close> at once (both join the thread), the overflow of its \<open>atoi\<close>, the Windows branch of \<open>WriteAheadLog::Sync\<close>,
  out-of-memory exceptions other than the allocations named in \<open>SSTable\<close> and \<open>Bloom\<close>, and data races on objects shared without the mutex.
\<close>

section \<open>The engine as a key/value map\<close>

text \<open>C1. Refinement of a map: from any well-formed open database, every interleaving of client writes, explicit flushes, turns of the
  background thread and a \<open>Close\<close> that waits for it, under every schedule of failing calls, short writes and crash points, ends in a well-formed open database
  whose view is one the abstract machine allows: an acknowledged batch is applied as a whole and in order, a write that reports
  an error is applied as a whole or not at all, and maintenance is invisible.\<close>

theorem run_refines_map:
  assumes "db_run st evs st'" and "serving (fst st)"
  shows "serving (fst st') \<and> db_view (fst st') \<in> run_views evs (db_view (fst st))"
  using assms by (rule db_run_inv)

theorem run_refines_map_witness:
  "serving sample_written \<and> db_view sample_written = ops_view sample_ops (db_view sample_db)"
  using run_refines_map [OF sample_run] sample_serving by simp

text \<open>C2. Crash recovery: take any run whose writes were all acknowledged, and one more operation that fails or is cut off anywhere
  (the process may die inside any of its file-system calls). Opening the directory afterwards succeeds and gives a well-formed database
  whose view is one the history allows: every acknowledged batch is there, and the last one is there as a whole or not at all.\<close>

theorem crash_recovery:
  assumes "db_run (db, w) evs (db1, w1)" and "db_step (db1, w1) ev (db2, w2)" and "serving db" and "durable db w"
    and "list_all acknowledged evs" and "dir_name (db_path db)" and "\<not> error_if_exists options"
  shows "\<exists>db' w'. DB_Open options (db_path db) (reboot [] w2) = (Status_OK, Some db', w') \<and> db_ok db' \<and>
    \<not> db_closed db' \<and> db_view db' \<in> run_views (evs @ [ev]) (db_view db)"
proof -
  obtain V where V: "V \<in> run_views (evs @ [ev]) (db_view db)" and r: "recoverable w2 (db_path db) V"
    using crash_recoverable [OF assms(1-5)] by blast
  from r assms(6,7) show ?thesis by (rule reopen_recoverable) (use V in auto)
qed

theorem crash_recovery_witness:
  "\<exists>m w2 db' w'. DB_Write \<lparr>sync = False\<rparr> (batch_of sample_ops) sample_db sample_crash = Some (Status_IOError m, sample_db, w2) \<and>
    DB_Open default_Options ''d'' (reboot [] w2) = (Status_OK, Some db', w') \<and>
    db_view db' \<in> {Map.empty, ops_view sample_ops Map.empty}"
proof -
  obtain m w2 where wr: "DB_Write \<lparr>sync = False\<rparr> (batch_of sample_ops) sample_db sample_crash =
      Some (Status_IOError m, sample_db, w2)" using sample_crash_write by blast
  note step = db_step.step_write [OF sample_batch sample_capacity(2) wr]
  have "durable sample_db sample_crash" using sample_durable by (simp add: sample_crash_def)
  from crash_recovery [OF db_run.run_nil step sample_serving this, of default_Options]
  show ?thesis using wr by (auto simp: sample_view)
qed



text \<open>The simplest case: after a run whose writes were all acknowledged, with the process stopped there or killed, the directory gives
  exactly the view the database had.\<close>

lemma acknowledged_survives:
  assumes "db_run (db, w) evs (db1, w1)" and "serving db" and "durable db w" and "list_all acknowledged evs"
    and "dir_name (db_path db)" and "\<not> error_if_exists options"
  shows "\<exists>db' w'. DB_Open options (db_path db) (reboot [] w1) = (Status_OK, Some db', w') \<and> db_ok db' \<and>
    db_view db' = db_view db1 \<and> durable db' w'"
proof -
  have d: "durable db1 w1" "db_path db1 = db_path db"
    using durable_run [OF assms(1)] assms(2-4) by simp_all
  from d(1) assms(5,6) show ?thesis unfolding d(2) [symmetric]
    by (rule_tac reopen_in_step [of "[]" db1 w1 options]) auto
qed

text \<open>C4. Recovery itself may be cut off: after any number of attempts to open the directory, each ended by a crash inside any of its
  file-system calls (or by a kill later on), the next undisturbed open still gives the view the directory held at the start.\<close>

theorem recovery_survives_crashes:
  assumes "recoverable w p V" and "dir_name p" and "\<not> error_if_exists options"
    and "\<forall>fs\<in>set fss. \<forall>f\<in>set fs. f = NoFault \<or> (\<exists>n. f = Crash n)"
  shows "\<exists>db w'. DB_Open options p (reboot [] (open_attempts options p fss w)) = (Status_OK, Some db, w') \<and> db_ok db \<and>
    \<not> db_closed db \<and> db_view db = V"
proof -
  have "recoverable (open_attempts options p fss w) p V"
    using assms(1) recoverable_attempts [OF _ assms(2-4)] unfolding recoverable_def by blast
  from this assms(2,3) show ?thesis by (rule reopen_recoverable) blast
qed

theorem recovery_survives_crashes_witness:
  "\<exists>db w'. DB_Open default_Options ''d'' (reboot [] (open_attempts default_Options ''d'' [[Crash 0], [NoFault, NoFault, Crash 7]] sample_disk)) =
    (Status_OK, Some db, w') \<and> db_ok db \<and> \<not> db_closed db \<and> db_view db = [[1] \<mapsto> [2, 3]]"
proof (rule recovery_survives_crashes)
  show "recoverable sample_disk ''d'' [[1] \<mapsto> [2, 3]]"
    using sample_disk_recoverable sample_disk_view(1) unfolding recoverable_def by blast
qed simp_all

text \<open>C5. An open that reports success never invents anything: under every schedule of faults the view is that of all tables and of the
  first \<open>n\<close> batches of the log, and of the whole log unless a read came back short, which the replay cannot tell from a
  torn tail. (The witness: a log that cannot be read yields an empty database and the status OK.)\<close>

theorem open_success_is_prefix:
  assumes "recoverable_with w p v tss opss tail" and "dir_name p" and "\<not> error_if_exists options"
    and "DB_Open options p (reboot fs w) = (s, Some db, w')"
  shows "\<exists>n. Status_ok s \<and> db_ok db \<and> \<not> db_closed db \<and> db_view db = store_view (replayed (take n opss)) tss \<and>
    ((\<forall>k. Short k \<notin> set fs) \<longrightarrow> n = length opss)"
proof -
  have "recoverable_with (reboot fs w) p v tss opss tail" using assms(1) by (simp add: recoverable_with_reboot)
  from Open_success_prefix [OF this assms(2-4)] show ?thesis by (auto simp: no_short_def reboot_def)
qed

theorem open_success_is_prefix_witness:
  "\<exists>db w' n. DB_Open default_Options ''d'' (reboot [NoFault, NoFault, Short 0] sample_world') = (Status_OK, Some db, w') \<and>
    db_view db = store_view (replayed (take n [sample_ops])) (replicate kMaxLevels []) \<and>
    db_view db = Map.empty \<and> recoverable sample_world' ''d'' [[1] \<mapsto> [2, 3]]"
proof -
  obtain db w' where op: "DB_Open default_Options ''d'' (reboot [NoFault, NoFault, Short 0] sample_world') = (Status_OK, Some db, w')"
    and "db_view db = Map.empty" by (rule sample_short_open)
  moreover have "recoverable sample_world' ''d'' [[1] \<mapsto> [2, 3]]"
    using durable_recoverable [OF sample_written_durable] sample_written_ok(2) by simp
  ultimately show ?thesis using open_success_is_prefix [OF sample_log_recoverable _ _ op] by auto
qed

text \<open>C6. A committed batch is visible as a whole to every later read, whatever flushes, background turns and beginnings of a
  \<open>Close\<close> come in between.\<close>

theorem committed_batch_visible:
  assumes "serving (fst st)" and "db_commit ops st st'" and "db_maintain\<^sup>*\<^sup>* st' st''"
  shows "db_get st'' k = ops_view ops (db_get st) k"
  using assms by (rule db_store.commit_visible)

theorem committed_batch_visible_witness:
  "db_get (sample_written, sample_world') [1] = Some [2, 3] \<and> db_get (sample_written, sample_world') [4] = None"
proof -
  have c: "db_commit sample_ops (sample_db, sample_world) (sample_written, sample_world')"
    using sample_step by (simp add: db_commit_def)
  from committed_batch_visible [OF _ c rtranclp.rtrancl_refl] sample_serving show ?thesis
    by (simp add: ops_view_def sample_ops_def)
qed

text \<open>C7. \<open>DB::Get\<close> is a lookup in the view on every branch: a closed database answers InvalidArgument, an open one returns the key's value, or
  NotFound with the caller's string untouched; tombstones, Bloom filters, key ranges and the order of the levels never show.\<close>

theorem get_returns_view:
  assumes "db_ok db"
  shows "DB_Get opts key value db =
    (if db_closed db then (Status_InvalidArgument ''DB is closed'', value)
     else case db_view db key of
       Some v \<Rightarrow> (Status_OK, v)
     | None \<Rightarrow> (Status_NotFound (bytes_to_string key), value))"
proof (cases "db_closed db")
  case True
  then show ?thesis by (simp add: DB_Get_def)
next
  case False
  with DB_Get_view [OF assms] show ?thesis by simp
qed

theorem get_returns_view_witness:
  "DB_Get \<lparr>verify_checksums = True\<rparr> [1] [] sample_written = (Status_OK, [2, 3])"
proof -
  have "db_ok sample_written" using sample_written_ok(1) by (simp add: serving_def)
  from get_returns_view [OF this] sample_written_ok(2) show ?thesis by simp
qed

text \<open>C8. The two ways of reading agree: an iterator lists each key once, in order, and holds a pair exactly when \<open>Get\<close> returns that value for
  that key.\<close>

theorem scan_equals_get:
  assumes "serving (fst st)"
  shows "sorted_wrt (<) (map fst (db_scan st)) \<and> ((k, v) \<in> set (db_scan st) \<longleftrightarrow> db_get st k = Some v)"
  using db_store.scan_sorted [OF assms] db_store.scan_get [OF assms] by blast

theorem scan_equals_get_witness:
  "sorted_wrt (<) (map fst (db_scan (sample_written, sample_world'))) \<and>
   ([1], [2, 3]) \<in> set (db_scan (sample_written, sample_world')) \<and> ([4], []) \<notin> set (db_scan (sample_written, sample_world'))"
proof -
  have "serving (fst (sample_written, sample_world'))" using sample_written_ok(1) by simp
  from scan_equals_get [OF this] db_store.get_view [OF this] show ?thesis by (simp add: sample_written_ok(2))
qed

section \<open>Maintenance\<close>

text \<open>C9. A flush keeps the store whatever fails inside it and wherever it stops: the database stays well formed, the view is
  unchanged, and a directory that was in step with the database still is (so a crash at that moment loses nothing), also when
  its log ends in torn bytes. A faultless flush of a memtable that is not empty gets rid of those.\<close>

theorem flush_keeps_store:
  assumes "FlushMemTableLocked db w = (s, db', w')" and "db_ok db" and "capacity db" and "in_step torn db w"
  shows "db_ok db' \<and> db_view db' = db_view db \<and> in_step torn db' w' \<and>
    (running db w \<and> \<not> MemTable_is_empty (db_memtable db) \<longrightarrow> durable db' w')"
proof -
  have c: "db_fits db" "unat (db_next db) + 1 < 2 ^ 64" using assms(3) by (simp_all add: capacity_def)
  from FlushMemTableLocked_inv(1,2) [OF assms(1,2) c] in_step_flush [OF assms(1,2) c assms(4)]
    running_flush_repairs [OF assms(1,2) c _ assms(4)]
  show ?thesis by blast
qed

theorem flush_keeps_store_witness:
  "case FlushMemTableLocked sample_written (reboot [Short 7] sample_world') of (s, db', w') \<Rightarrow>
    db_ok db' \<and> db_view db' = [[1] \<mapsto> [2, 3]] \<and> durable db' w'"
proof -
  obtain s db' w' where f: "FlushMemTableLocked sample_written (reboot [Short 7] sample_world') = (s, db', w')"
    by (metis prod_cases3)
  have "db_ok sample_written" "durable sample_written (reboot [Short 7] sample_world')"
    using sample_written_ok(1) sample_written_durable by (simp_all add: serving_def)
  from flush_keeps_store [OF f this(1) sample_written_capacity this(2)] f sample_written_ok(2) show ?thesis by simp
qed

text \<open>C10. A compaction keeps the store under every fault: merging two levels, dropping tombstones into the last one, splitting the output and deleting
  the inputs change neither the view nor what the directory recovers to, and the total amount of data does not grow.\<close>

theorem compaction_keeps_store:
  assumes "CompactLocked l db w = (s, db', w')" and "db_ok db" and "capacity db" and "in_step torn db w"
  shows "db_ok db' \<and> db_view db' = db_view db \<and> db_total f db' \<le> db_total f db \<and> in_step torn db' w'"
proof -
  have c: "db_fits db" "unat (db_next db) + db_count db + 1 < 2 ^ 64"
    using assms(3) by (simp_all add: capacity_def db_fits_def db_count_def)
  from CompactLocked_inv(1,2) [OF assms(1,2) c(1) c(2) [unfolded db_count_def]]
    CompactLocked_inv(3) [OF assms(1,2) c(1) c(2) [unfolded db_count_def], of f]
    in_step_compact [OF assms(1,2) c assms(4)]
  show ?thesis by blast
qed

theorem compaction_keeps_store_witness:
  "case CompactLocked 0 sample_db (reboot [Fail] sample_world) of (s, db', w') \<Rightarrow>
    db_ok db' \<and> db_view db' = Map.empty \<and> db_total entry_weight db' \<le> db_total entry_weight sample_db \<and> durable db' w'"
proof -
  obtain s db' w' where f: "CompactLocked 0 sample_db (reboot [Fail] sample_world) = (s, db', w')"
    by (metis prod_cases3)
  have "db_ok sample_db" "durable sample_db (reboot [Fail] sample_world)"
    using sample_serving sample_durable by (simp_all add: serving_def)
  from compaction_keeps_store [OF f this(1) sample_capacity(1) this(2)] f show ?thesis by (simp add: sample_view)
qed

text \<open>C11. With a positive level-0 trigger the compaction loop terminates on every well-formed database; when it
  reports success no level is over its limit any more, and otherwise the store is as it was.\<close>

theorem compaction_terminates:
  assumes "db_ok db" and "capacity db" and "0 < l0_compaction_trigger (db_options db)"
  shows "\<exists>s db' w'. compaction_while db w = Some (s, db', w') \<and> same_store db db' \<and>
    (Status_ok s \<longrightarrow> NeedsCompactionLocked db' = None)"
proof -
  have fits: "db_fits db" and n: "unat (db_next db) \<le> 2 ^ 63" using assms(2) by (simp_all add: capacity_def)
  from compaction_while_inv [OF assms(1) fits loop_roomI [OF fits n] assms(3), of w] show ?thesis
    by (auto simp: maintained_def same_store_def)
qed

theorem compaction_terminates_witness:
  "\<exists>s db' w'. compaction_while sample_db sample_world = Some (s, db', w') \<and> db_view db' = Map.empty"
  using compaction_terminates [of sample_db sample_world] sample_serving sample_capacity(1)
  by (auto simp: serving_def same_store_def sample_view)

text \<open>C21. With a level-0 trigger of zero or below, nothing guards the loop: on a database whose first two levels are empty a synchronous write
  appends its record and then never returns, compacting nothing into nothing for ever.\<close>

theorem write_never_returns:
  assumes "l0_compaction_trigger (db_options db) \<le> 0" and "\<not> background_compaction (db_options db)"
    and "calm w" and "top_levels_empty db" and "\<not> db_closed db" and "db_wal db = wal_opened p" and "batch_ok ops"
    and "MemTable_ApproximateBytes (mem_apply ops (db_memtable db)) < memtable_flush_bytes (db_options db)"
  shows "DB_Write opts (batch_of ops) db w = None"
proof -
  let ?w = "fset p (the_default [] (fget w p) @ wal_record (rep (batch_of ops))) w"
  have "compaction_while (applied ops db) ?w = None"
    using assms(1,3,4) by (intro compaction_while_diverges) (simp_all add: top_levels_empty_def applied_def)
  then show ?thesis
    using assms batch_not_empty [OF assms(7)] ApplyBatchLocked_ok [OF assms(7)] AddRecord_calm [OF assms(3)]
    by (simp add: DB_Write_def MaybeFlushLocked_def not_le [symmetric]) (simp add: applied_def)
qed

theorem write_never_returns_witness:
  "DB_Write \<lparr>sync = False\<rparr> (batch_of sample_ops)
     (sample_db\<lparr>db_options := default_Options\<lparr>l0_compaction_trigger := 0, background_compaction := False\<rparr>\<rparr>) sample_world = None"
proof -
  have "db_readers sample_db = replicate kMaxLevels []" by (simp add: sample_db_def)
  moreover have "MemTable_ApproximateBytes (mem_apply sample_ops MemTable_empty) < memtable_flush_bytes default_Options"
    by (simp add: sample_ops_def MemTable_Put_def MemTable_Delete_def MemTable_empty_def MemTable_ApproximateBytes_def
        default_Options_def)
  ultimately show ?thesis
    by (intro write_never_returns [where p = "WalPath ''d''"])
      (simp_all add: sample_batch top_levels_empty_def Version_Level_def Version_new_def)
qed

section \<open>Writes, close and open\<close>

text \<open>C13. A write always returns, and exactly one of two things has happened: the log refused the record, the database is unchanged and
  the error is the log's; or the record is in the log and the whole batch is applied, even when the flush or compaction that follows
  reports an error of its own.\<close>

theorem write_outcomes:
  assumes "serving db" and "batch_ok ops" and "capacity (applied ops db)"
    and "WriteAheadLog_AddRecord (db_wal db) (rep (batch_of ops)) (sync opts \<or> sync_writes (db_options db)) w = (s1, w1)"
  shows "\<exists>s db' w'. DB_Write opts (batch_of ops) db w = Some (s, db', w') \<and>
    (if Status_ok s1 then same_store (applied ops db) db' else s = s1 \<and> db' = db \<and> w' = w1)"
proof -
  have ok: "db_ok db" "\<not> db_closed db" "background_compaction (db_options db) \<or> 0 < l0_compaction_trigger (db_options db)"
    using assms(1) by (simp_all add: serving_def)
  from ok(1,2) assms(2,3) ok(3) assms(4) show ?thesis by (cases rule: DB_Write_cases) auto
qed

theorem write_outcomes_witness:
  "\<exists>s db' w'. DB_Write \<lparr>sync = False\<rparr> (batch_of sample_ops) sample_db sample_world = Some (s, db', w') \<and>
    db_view db' = [[1] \<mapsto> [2, 3]]"
proof -
  obtain s1 w1 where log: "WriteAheadLog_AddRecord (db_wal sample_db) (rep (batch_of sample_ops))
      (sync \<lparr>sync = False\<rparr> \<or> sync_writes (db_options sample_db)) sample_world = (s1, w1)" by fastforce
  then have "Status_ok s1" using AddRecord_calm [of sample_world "WalPath ''d''"] by auto
  with write_outcomes [OF sample_serving sample_batch sample_capacity(2) log] sample_write sample_written_ok(2)
  show ?thesis by auto
qed

text \<open>C14. Without faults a whole history is served: on a running database (a device that does not fail, a positive trigger, a buildable
  filter) every sequence of writes, flushes and turns of the background thread whose data stay within the budget fixed at its
  start returns with every status OK, in either mode and whatever maintenance it sets off; the view is that of the batches in
  order, the database can go on, and a directory that was in step with it still is.\<close>

theorem faultless_history:
  assumes "serving db" and "running db w" and "list_all request_ok rs" and "within_budget db rs"
  shows "\<exists>ss db' w'. serve_all rs (db, w) = Some (ss, db', w') \<and> length ss = length rs \<and> list_all Status_ok ss \<and>
    serving db' \<and> running db' w' \<and> db_view db' = ops_view (concat (map request_ops rs)) (db_view db) \<and>
    (durable db w \<longrightarrow> durable db' w')"
  using assms by (rule serve_history)

theorem faultless_history_witness:
  "\<exists>s1 s2 s3 s4 db' w'. serve_all [Batch \<lparr>sync = False\<rparr> sample_ops, BackgroundTurn, FlushRequest, Batch \<lparr>sync = True\<rparr> sample_later]
      (sample_db, sample_world) = Some ([s1, s2, s3, s4], db', w') \<and> list_all Status_ok [s1, s2, s3, s4] \<and>
    db_view db' = [[1] \<mapsto> [2, 3], [9] \<mapsto> [9]] \<and> durable db' w'"
proof -
  let ?rs = "[Batch \<lparr>sync = False\<rparr> sample_ops, BackgroundTurn, FlushRequest, Batch \<lparr>sync = True\<rparr> sample_later]"
  have "running sample_db sample_world" by (simp add: running_def sane_def default_Options_def)
  moreover have "list_all request_ok ?rs" by (simp add: sample_batch sample_later_ok)
  ultimately obtain ss db' w' where "serve_all ?rs (sample_db, sample_world) = Some (ss, db', w')" "length ss = length ?rs"
    "list_all Status_ok ss" "db_view db' = ops_view (concat (map request_ops ?rs)) (db_view sample_db)" "durable db' w'"
    using faultless_history [OF sample_serving, of sample_world ?rs] sample_budget sample_durable by blast
  moreover from \<open>length ss = length ?rs\<close> obtain s1 s2 s3 s4 where "ss = [s1, s2, s3, s4]"
    by (auto simp: length_Suc_conv numeral_eq_Suc)
  moreover have "ops_view (concat (map request_ops ?rs)) (db_view sample_db) = [[1] \<mapsto> [2, 3], [9] \<mapsto> [9]]"
    by (rule ext) (simp add: sample_view ops_view_def sample_ops_def sample_later_def)
  ultimately show ?thesis by metis
qed

text \<open>C15. The structural type of the engine's state: in every database a run can reach, each level has one reader per file of the manifest's
  version, whose range and entries are what the metadata say, files below level 0 lie one behind the other without overlaps,
  level 0 is in the order of the file numbers, all file numbers are distinct and below the next one, and the memtable is sorted.\<close>

theorem reachable_well_formed:
  assumes "db_run st evs st'" and "serving (fst st)"
  shows "well_formed (fst st')"
  using db_run_inv [OF assms] by (simp add: serving_def db_ok_well_formed)

theorem reachable_well_formed_witness: "well_formed sample_written"
  using reachable_well_formed [OF sample_run] sample_serving by simp

text \<open>A closed database refuses every operation that checks: \<open>Put\<close>, \<open>Delete\<close>, \<open>Write\<close> of a batch that is not empty and \<open>Get\<close> report InvalidArgument and
  change nothing, and closing it again is a successful no-op; \<open>Write\<close> of an empty batch succeeds all the same.\<close>

lemma closed_database_refuses:
  assumes "db_closed db" and "\<not> WriteBatch_is_empty batch"
  shows "DB_Write opts batch db w = Some (Status_InvalidArgument ''DB is closed'', db, w) \<and>
    DB_Put opts key value db w = Some (Status_InvalidArgument ''DB is closed'', db, w) \<and>
    DB_Delete opts key db w = Some (Status_InvalidArgument ''DB is closed'', db, w) \<and>
    DB_Get ropts key value db = (Status_InvalidArgument ''DB is closed'', value) \<and>
    DB_Close db w = (Status_OK, db, w) \<and>
    DB_Write opts WriteBatch_empty db w = Some (Status_OK, db, w)"
  using assms
  by (simp add: DB_Write_def DB_Put_def DB_Delete_def DB_Get_def DB_Close_def WriteBatch_is_empty_def
      WriteBatch_Put_def WriteBatch_Delete_def WriteBatch_empty_def)

text \<open>C12. Close and open are a round trip whatever fails while closing: \<open>Close\<close> leaves a closed database, and opening the directory again gives a
  well-formed database with the same view that is in step with its directory. Its log has torn bytes at the end only if they were there
  before; they are gone when \<open>Close\<close> has flushed, that is, when nothing failed and the memtable was not empty. (A torn log and an empty memtable
  stay as they are.)\<close>

theorem close_reopen:
  assumes "DB_Close db w = (s, db1, w1)" and "db_ok db" and "capacity db" and "in_step torn db w"
    and "dir_name (db_path db)" and "\<not> error_if_exists options"
  shows "db_closed db1 \<and> (\<exists>db' w'. DB_Open options (db_path db) (reboot [] w1) = (Status_OK, Some db', w') \<and> db_ok db' \<and>
    \<not> db_closed db' \<and> db_view db' = db_view db \<and> in_step torn db' w' \<and>
    (running db w \<and> \<not> db_closed db \<and> \<not> MemTable_is_empty (db_memtable db) \<longrightarrow> durable db' w'))"
proof -
  let ?repaired = "running db w \<and> \<not> db_closed db \<and> \<not> MemTable_is_empty (db_memtable db)"
  let ?torn = "if ?repaired then [] else torn"
  note cl = in_step_close [OF assms(1-4)] DB_Close_inv(3) [OF assms(1-3)]
  have "in_step ?torn db1 w1" using cl(1) running_close_repairs [OF assms(1-4)] by simp
  from this assms(5,6) have "\<exists>db' w'. DB_Open options (db_path db1) (reboot [] w1) = (Status_OK, Some db', w') \<and>
      db_ok db' \<and> \<not> db_closed db' \<and> db_view db' = db_view db1 \<and> in_step ?torn db' w'"
    unfolding cl(2) [symmetric] by (rule reopen_in_step) auto
  with cl(2-4) in_step_fewer show ?thesis by (auto split: if_splits)
qed

theorem close_reopen_witness:
  "case DB_Close sample_written (reboot [NoFault, Fail] sample_world') of (s, db1, w1) \<Rightarrow>
    \<exists>db' w'. DB_Open default_Options ''d'' (reboot [] w1) = (Status_OK, Some db', w') \<and> db_view db' = [[1] \<mapsto> [2, 3]]"
proof -
  obtain s db1 w1 where c: "DB_Close sample_written (reboot [NoFault, Fail] sample_world') = (s, db1, w1)"
    by (metis prod_cases3)
  have "db_ok sample_written" "durable sample_written (reboot [NoFault, Fail] sample_world')"
    using sample_written_ok(1) sample_written_durable by (simp_all add: serving_def)
  from close_reopen [OF c this(1) sample_written_capacity this(2), of default_Options] c sample_written_ok(2)
  show ?thesis by auto
qed

text \<open>C22. Opening a directory that does not exist yet, with \<open>create_if_missing\<close> and no faults, creates an empty well-formed database that is in
  step with its directory; without \<open>create_if_missing\<close> it is refused and nothing is created.\<close>

theorem open_new_database:
  assumes "vacant w p" and "calm w" and "dir_name p"
  shows "if create_if_missing options
    then \<exists>db w'. DB_Open options p w = (Status_OK, Some db, w') \<and> db_ok db \<and> db_view db = Map.empty \<and>
      \<not> db_closed db \<and> durable db w'
    else DB_Open options p w =
      (Status_InvalidArgument (p @ '': does not exist and create_if_missing is false''), None, w)"
proof (cases "create_if_missing options")
  case True
  from assms True have "\<exists>db w'. DB_Open options p w = (Status_OK, Some db, w') \<and> db_ok db \<and> db_view db = Map.empty \<and>
      \<not> db_closed db \<and> durable db w'"
    by (rule DB_Open_vacant) auto
  with True show ?thesis by simp
next
  case False
  then show ?thesis using assms(1) by (simp add: DB_Open_def vacant_def)
qed

theorem open_new_database_witness:
  "\<exists>db w'. DB_Open default_Options ''d'' \<lparr>files = [], dirs = [], faults = [], crashed = False\<rparr> = (Status_OK, Some db, w') \<and>
    db_ok db \<and> db_view db = Map.empty \<and> \<not> db_closed db \<and> durable db w'"
  using open_new_database [of "\<lparr>files = [], dirs = [], faults = [], crashed = False\<rparr>" "''d''" default_Options]
  by (simp add: vacant_def calm_def fs_exists_def fget_def)

section \<open>Ways to lose data\<close>

text \<open>C16. One failing read of the manifest destroys a database: \<open>Open\<close> reports the error, but the destructor of the half-built object saves an
  empty manifest over the good one, so that the next \<open>Open\<close> succeeds with only what the log holds; everything in tables is gone.\<close>

theorem failed_open_loses_tables:
  assumes "recoverable_with w p v tss opss tail" and "dir_name p" and "\<not> error_if_exists options"
  shows "\<exists>m w1 db w2. DB_Open options p (reboot [Fail] w) = (Status_IOError m, None, w1) \<and>
    DB_Open options p (reboot [] w1) = (Status_OK, Some db, w2) \<and>
    db_view db = store_view (replayed opss) (replicate kMaxLevels [])"
proof -
  obtain m w1 where o: "DB_Open options p (reboot [Fail] w) = (Status_IOError m, None, w1)"
    and r: "recoverable_with w1 p Version_new (replicate kMaxLevels []) opss tail"
    by (rule failed_open_empties [OF assms(1,3)])
  have "recoverable w1 p (store_view (replayed opss) (replicate kMaxLevels []))"
    using r unfolding recoverable_def by blast
  from this assms(2,3) have "\<exists>db w2. DB_Open options p (reboot [] w1) = (Status_OK, Some db, w2) \<and>
      db_view db = store_view (replayed opss) (replicate kMaxLevels [])"
    by (rule reopen_recoverable) auto
  with o show ?thesis by blast
qed

theorem failed_open_loses_tables_witness:
  "\<exists>m w1 db w2. store_view (replayed []) [[sample_table], [], [], [], [], []] [1] = Some [2, 3] \<and>
    DB_Open default_Options ''d'' (reboot [Fail] sample_disk) = (Status_IOError m, None, w1) \<and>
    DB_Open default_Options ''d'' (reboot [] w1) = (Status_OK, Some db, w2) \<and> db_view db = Map.empty"
  using failed_open_loses_tables [OF sample_disk_recoverable, of default_Options] by (simp add: sample_disk_view)

text \<open>C17. Every other failed open is harmless: when the first read (of the manifest) is not the one that fails and no read comes back
  short, then whatever fails or crashes in the sweep, the tables, the log or the new log, the destructor's own flush and save
  keep what the directory holds, and the next open gives all of it back.\<close>

theorem failed_open_harmless:
  assumes "recoverable_with w p v tss opss tail" and "dir_name p" and "\<not> error_if_exists options"
    and "store_fits v (replayed opss) tss" and "fs = [] \<or> hd fs \<noteq> Fail" and "\<forall>k. Short k \<notin> set fs"
    and "DB_Open options p (reboot fs w) = (s, res, w1)"
  shows "\<exists>db w2. DB_Open options p (reboot [] w1) = (Status_OK, Some db, w2) \<and> db_ok db \<and>
    db_view db = store_view (replayed opss) tss"
proof -
  have "recoverable_with (reboot fs w) p v tss opss tail" using assms(1) by (simp add: recoverable_with_reboot)
  from this assms(2-4) have "recovers tail w1 p (store_view (replayed opss) tss)"
    by (rule Open_failure_harmless) (use assms(5-7) in \<open>simp_all add: no_short_def reboot_def\<close>)
  from this assms(2,3) show ?thesis by (rule reopen_recovers) blast
qed

theorem failed_open_harmless_witness:
  "case DB_Open default_Options ''d'' (reboot [NoFault, NoFault, Fail] sample_disk) of (s, res, w1) \<Rightarrow>
    \<exists>db w2. DB_Open default_Options ''d'' (reboot [] w1) = (Status_OK, Some db, w2) \<and> db_view db = [[1] \<mapsto> [2, 3]]"
proof -
  obtain s res w1 where o: "DB_Open default_Options ''d'' (reboot [NoFault, NoFault, Fail] sample_disk) = (s, res, w1)"
    by (metis prod_cases3)
  from failed_open_harmless [OF sample_disk_recoverable _ _ sample_disk_fits _ _ o] o show ?thesis
    by (auto simp: sample_disk_view)
qed

text \<open>C18. Read errors are hidden from readers: when tables cannot be read any more, \<open>Get\<close> and the iterator answer, with status OK or NotFound and without any
  error, as if those tables were empty (so with older values, deleted keys come back, or keys missing); only a compaction notices, reports
  the error and changes nothing.\<close>

theorem read_errors_hidden:
  assumes "db_ok db" and "\<not> db_closed db"
  shows "DB_Get opts key value (unreadable bad db) =
      (case store_view (db_memtable db) (left_tables bad db) key of
         Some v \<Rightarrow> (Status_OK, v)
       | None \<Rightarrow> (Status_NotFound (bytes_to_string key), value)) \<and>
    map_of (Iterator_scan (DB_NewIterator (unreadable bad db))) = store_view (db_memtable db) (left_tables bad db) \<and>
    (Suc l < kMaxLevels \<and> (\<exists>r\<in>set (db_readers db ! l) \<union> set (db_readers db ! Suc l). bad (r_path r)) \<longrightarrow>
      (\<exists>s. CompactLocked l (unreadable bad db) w = (s, unreadable bad db, w) \<and> \<not> Status_ok s))"
proof -
  have r: "readable (unreadable bad db)" using assms(1) by (rule readable_unreadable)
  then have "DB_Get opts key value (unreadable bad db) = (case store_view (db_memtable db) (left_tables bad db) key of
      Some v \<Rightarrow> (Status_OK, v) | None \<Rightarrow> (Status_NotFound (bytes_to_string key), value))"
    using assms Get_readable [of "unreadable bad db"] by (simp add: db_view_unreadable)
  moreover have "\<exists>s. CompactLocked l (unreadable bad db) w = (s, unreadable bad db, w) \<and> \<not> Status_ok s"
    if "Suc l < kMaxLevels" "\<exists>r\<in>set (db_readers db ! l) \<union> set (db_readers db ! Suc l). bad (r_path r)"
    using that CompactLocked_unreadable [OF assms(1) that(1)] by blast
  ultimately show ?thesis using scan_readable(2) [OF r] assms(1) by (simp add: db_view_unreadable)
qed

theorem read_errors_hidden_witness:
  "\<exists>db w1. DB_Open default_Options ''d'' (reboot [] sample_disk) = (Status_OK, Some db, w1) \<and> db_view db [1] = Some [2, 3] \<and>
    DB_Get \<lparr>verify_checksums = True\<rparr> [1] [] (unreadable (\<lambda>_. True) db) = (Status_NotFound (bytes_to_string [1]), [])"
  using sample_disk_recoverable
proof (rule DB_Open_recovers)
  fix rss w'
  let ?db = "opened default_Options ''d'' sample_disk_version rss (replayed [])"
  assume o: "DB_Open default_Options ''d'' (reboot [] sample_disk) = (Status_OK, Some ?db, w')"
    and rss: "list_all2 (list_all2 reader_for) rss [[sample_table], [], [], [], [], []]"
    and r: "recoverable_with w' ''d'' sample_disk_version [[sample_table], [], [], [], [], []] [] []"
  note ok = opened_ok [OF rss r, of default_Options]
  have "left_tables (\<lambda>_. True) ?db = [[[]], [], [], [], [], []]"
    using rss by (auto simp: left_tables_def list_all2_Cons2)
  then have "store_view (db_memtable ?db) (left_tables (\<lambda>_. True) ?db) [1] = None"
    by (simp add: store_view_def store_lookup_def tables_lookup_concat replayed_def map_add_def)
  then show ?thesis
    using o ok(3) sample_disk_view read_errors_hidden [OF ok(2), of "\<lparr>verify_checksums = True\<rparr>" "[1]" "[]" "\<lambda>_. True"]
    by simp
qed simp_all

text \<open>C19. A trailing separator in the database path destroys a database: the sweep compares names that differ by one separator, takes every table
  the manifest names for an orphan and deletes it; \<open>Open\<close> then fails on the missing tables, with the manifest still naming them.\<close>

theorem trailing_separator_loses_tables:
  assumes "recoverable_with w d v tss opss tail" and "dir_name d" and "concat (levels v) \<noteq> []"
    and "\<not> error_if_exists options"
  shows "\<exists>s w'. DB_Open options (d @ ''/'') (reboot [] w) = (s, None, w') \<and> \<not> Status_ok s \<and>
    (\<forall>n. fget w' (SSTablePath d n) = None) \<and> fget w' (ManifestPath d) = Some (Save_bytes v)"
  using assms by (rule trailing_separator_destroys) blast

theorem trailing_separator_loses_tables_witness:
  "\<exists>s w'. DB_Open default_Options ''d/'' (reboot [] sample_disk) = (s, None, w') \<and> \<not> Status_ok s \<and>
    fget w' (SSTablePath ''d'' 1) = None \<and> fget w' (ManifestPath ''d'') = Some (Save_bytes sample_disk_version)"
proof -
  have "concat (levels sample_disk_version) \<noteq> []" by (simp add: sample_disk_version_def)
  from trailing_separator_loses_tables [OF sample_disk_recoverable _ this, of default_Options] show ?thesis by auto
qed

text \<open>C20. Recovery leaves torn bytes in the log, and the next process appends behind them. With background compaction (the default) a write
  after such a recovery is acknowledged and visible, but when the process ends before the thread has had a turn and before a flush or
  \<open>Close\<close>, the write is gone at the next open, synced or not, unless its record happens to complete the torn one.\<close>

theorem acknowledged_after_torn_tail_lost:
  assumes "recoverable_with w p v tss opss tail" and "dir_name p" and "\<not> error_if_exists options"
    and "background_compaction options" and "batch_ok ops" and "next_record (tail @ wal_record (rep (batch_of ops))) = None"
  shows "\<exists>db w1 db1 w2 db' w'. DB_Open options p (reboot [] w) = (Status_OK, Some db, w1) \<and>
    DB_Write opts (batch_of ops) db w1 = Some (Status_OK, db1, w2) \<and> db_view db1 = ops_view ops (db_view db) \<and>
    DB_Open options p (reboot [] w2) = (Status_OK, Some db', w') \<and> db_view db' = db_view db"
  using assms(1-3)
proof (rule DB_Open_recovers)
  fix rss w1
  let ?db = "opened options p v rss (replayed opss)"
  assume o: "DB_Open options p (reboot [] w) = (Status_OK, Some ?db, w1)" and rss: "list_all2 (list_all2 reader_for) rss tss"
    and "calm w1" and r: "recoverable_with w1 p v tss opss tail" and log: "fget w1 (WalPath p) = Some (log_of opss @ tail)"
  let ?w2 = "fset (WalPath p) (log_of opss @ tail @ wal_record (rep (batch_of ops))) w1"
  let ?db1 = "(applied ops ?db)\<lparr>bg_work_requested := True, bg_idle := False\<rparr>"
  have wr: "DB_Write opts (batch_of ops) ?db w1 = Some (Status_OK, ?db1, ?w2)"
    using DB_Write_calm [OF \<open>calm w1\<close> _ _ _ assms(5), of ?db "WalPath p"] assms(4) log by simp
  have "wal_records (tail @ wal_record (rep (batch_of ops))) = []"
    using assms(6) by (subst wal_records_step) simp
  moreover have "changes_only {canon (WalPath p)} w1 ?w2" using \<open>calm w1\<close> by (simp add: changes_only_def calm_def)
  ultimately have "recoverable_with ?w2 p v tss opss (tail @ wal_record (rep (batch_of ops)))"
    using r by (rule_tac recoverable_with_log [OF r]) (simp_all add: recoverable_with_def)
  then have "recoverable ?w2 p (db_view ?db)" using opened_ok(3) [OF rss r, of options] unfolding recoverable_def by auto
  from this assms(2,3) show ?thesis
    by (rule reopen_recoverable) (use o wr in \<open>auto simp: applied_view\<close>)
qed

theorem acknowledged_after_torn_tail_lost_witness:
  "\<exists>db w1 db1 w2 db' w'. DB_Open default_Options ''d'' (reboot [] sample_torn) = (Status_OK, Some db, w1) \<and>
    DB_Write \<lparr>sync = True\<rparr> (batch_of sample_later) db w1 = Some (Status_OK, db1, w2) \<and>
    db_view db1 = ops_view sample_later (db_view db) \<and>
    DB_Open default_Options ''d'' (reboot [] w2) = (Status_OK, Some db', w') \<and> db_view db' = db_view db"
  by (rule acknowledged_after_torn_tail_lost [OF sample_torn_recoverable])
    (simp_all add: sample_later_ok sample_later_unreadable)

end
